(* ===== verification/Prelude.thy ===== *)
theory Prelude
  imports Main "HOL-Library.Word"
begin

text \<open>
  Shared vocabulary of the development: the machine integers of the 32-bit kernel, the faults a
  kernel routine can end in, the error numbers of \<open>kern/include/errno.h\<close>, and the generic facts on
  words and lists that the component theories use.

  The kernel is built for i386: \<open>unsigned char\<close> is \<open>u8\<close>, \<open>unsigned short\<close> is \<open>u16\<close>, and \<open>unsigned int\<close>,
  \<open>unsigned long\<close> and every pointer is \<open>u32\<close>. A signed \<open>int\<close> that only carries a return code is an
  \<open>int\<close>; where a signed value takes part in wrapping arithmetic it is a \<open>u32\<close> read with \<open>sint\<close>.
\<close>

unbundle bit_operations_syntax

type_synonym u8 = "8 word"
type_synonym u16 = "16 word"
type_synonym u32 = "32 word"

text \<open>The collections the component theories add to.\<close>

named_theorems frame_simps \<open>which fields of a state an operation leaves alone\<close>
named_theorems inv_intros \<open>operations keep the invariant of their component\<close>

section \<open>Characters\<close>

text \<open>A \<open>char\<close> is signed on this target; \<open>cval\<close> is its value after integer promotion.\<close>

definition cval :: "char \<Rightarrow> u32" where
  "cval c = scast (of_char c :: u8)"

section \<open>Faults\<close>

text \<open>
  A kernel routine that does not return normally ends in a fault: \<open>PANIC\<close> of \<open>kmacros.h\<close> prints its
  message and executes \<open>hlt\<close>; a null pointer is read through; a division traps; an access leaves the
  object it was meant for, or hits a page that is not mapped. A result \<open>PANIC\<close> says that the routine comes to that
  point; what the processor does after the \<open>hlt\<close>, when an interrupt comes with interrupts on, is not followed.
\<close>

datatype fault = PANIC string | Null_Deref | Div_Zero | Out_Of_Bounds | Page_Fault

type_synonym 'a exec = "fault + 'a"

text \<open>
  A computation whose loops need not stop: \<open>None\<close> when it runs forever, otherwise a fault or a result.
\<close>

type_synonym 'a run = "'a exec option"

definition done_with :: "'a \<Rightarrow> 'a run" where
  "done_with x = Some (Inr x)"

definition and_then :: "'a run \<Rightarrow> ('a \<Rightarrow> 'b run) \<Rightarrow> 'b run" where
  "and_then r f = (case r of None \<Rightarrow> None | Some (Inl e) \<Rightarrow> Some (Inl e) | Some (Inr x) \<Rightarrow> f x)"

lemma and_then_simps [simp]:
  "and_then None f = None" "and_then (Some (Inl e)) f = Some (Inl e)" "and_then (Some (Inr x)) f = f x"
  "and_then (done_with x) f = f x"
  by (simp_all add: and_then_def done_with_def)

lemma and_then_Some_Inr:
  "and_then r f = Some (Inr y) \<longleftrightarrow> (\<exists>x. r = Some (Inr x) \<and> f x = Some (Inr y))"
  by (auto simp: and_then_def split: option.splits sum.splits)

lemma and_then_done: "and_then r f = done_with y \<longleftrightarrow> (\<exists>x. r = done_with x \<and> f x = done_with y)"
  by (simp add: done_with_def and_then_Some_Inr)

lemma done_with_eq [simp]: "done_with x = done_with y \<longleftrightarrow> x = y" "done_with x \<noteq> None"
  "done_with x \<noteq> Some (Inl e)" "Some (Inl e) \<noteq> done_with x" "Some (Inr x) = done_with y \<longleftrightarrow> x = y"
  by (auto simp: done_with_def)

lemma and_then_mono [partial_function_mono]:
  fixes B :: "('x \<Rightarrow> 'y option) \<Rightarrow> 'a run" and C :: "'a \<Rightarrow> ('x \<Rightarrow> 'y option) \<Rightarrow> 'b run"
  assumes "mono_option B" and "\<And>y. mono_option (\<lambda>f. C y f)"
  shows "mono_option (\<lambda>f. and_then (B f) (\<lambda>y. C y f))"
proof (rule monotoneI)
  fix f g :: "'x \<Rightarrow> 'y option"
  assume fg: "fun_ord option_ord f g"
  with assms(1) have "option_ord (B f) (B g)" by (rule monotoneD [of _ _ _ f g])
  moreover from assms(2) have "option_ord (C y f) (C y g)" for y by (rule monotoneD) (rule fg)
  ultimately show "option_ord (and_then (B f) (\<lambda>y. C y f)) (and_then (B g) (\<lambda>y. C y g))"
    unfolding flat_ord_def and_then_def by (elim disjE) (auto split: option.split sum.split)
qed

section \<open>Error numbers\<close>

text \<open>The enumeration \<open>errno_t\<close> in the order of the source; an error number is a position in it.\<close>

definition errno_t :: "string list" where
  "errno_t =
    [''ENULL'', ''E2BIG'', ''EACCES'', ''EADDRINUSE'', ''EADDRNOTAVAIL'', ''EAFNOSUPPORT'',
     ''EAGAIN'', ''EALREADY'', ''EBADE'', ''EBADF'', ''EBADFD'', ''EBADMSG'', ''EBADR'',
     ''EBADRQC'', ''EBADSLT'', ''EBUSY'', ''ECANCELED'', ''ECHILD'', ''ECHRNG'', ''ECOMM'',
     ''ECONNABORTED'', ''ECONNREFUSED'', ''ECONNRESET'', ''EDEADLK'', ''EDEADLOCK'',
     ''EDESTADDRREQ'', ''EDOM'', ''EDQUOT'', ''EEXIST'', ''EFAULT'', ''EFBIG'', ''EHOSTDOWN'',
     ''EHOSTUNREACH'', ''EIDRM'', ''EILSEQ'', ''EINPROGRESS'', ''EINTR'', ''EINVAL'', ''EIO'',
     ''EISCONN'', ''EISDIR'', ''EISNAM'', ''EKEYEXPIRED'', ''EKEYREJECTED'', ''EKEYREVOKED'',
     ''EL2HLT'', ''EL2NSYNC'', ''EL3HLT'', ''EL3RST'', ''ELIBACC'', ''ELIBBAD'', ''ELIBMAX'',
     ''ELIBSCN'', ''ELIBEXEC'', ''ELOOP'', ''EMEDIUMTYPE'', ''EMFILE'', ''EMLINK'', ''EMSGSIZE'',
     ''EMULTIHOP'', ''ENAMETOOLONG'', ''ENETDOWN'', ''ENETRESET'', ''ENETUNREACH'', ''ENFILE'',
     ''ENOBUFS'', ''ENODATA'', ''ENODEV'', ''ENOENT'', ''ENOEXEC'', ''ENOKEY'', ''ENOLCK'',
     ''ENOLINK'', ''ENOMEDIUM'', ''ENOMEM'', ''ENOMSG'', ''ENONET'', ''ENOPKG'', ''ENOPROTOOPT'',
     ''ENOSPC'', ''ENOSR'', ''ENOSTR'', ''ENOSYS'', ''ENOTBLK'', ''ENOTCONN'', ''ENOTDIR'',
     ''ENOTEMPTY'', ''ENOTSOCK'', ''ENOTSUP'', ''ENOTTY'', ''ENOTUNIQ'', ''ENXIO'',
     ''EOPNOTSUPP'', ''EOVERFLOW'', ''EPERM'', ''EPFNOSUPPORT'', ''EPIPE'', ''EPROTO'',
     ''EPROTONOSUPPORT'', ''EPROTOTYPE'', ''ERANGE'', ''EREMCHG'', ''EREMOTE'', ''EREMOTEIO'',
     ''ERESTART'', ''EROFS'', ''ESHUTDOWN'', ''ESPIPE'', ''ESOCKTNOSUPPORT'', ''ESRCH'',
     ''ESTALE'', ''ESTRPIPE'', ''ETIME'', ''ETIMEDOUT'', ''ETXTBSY'', ''EUCLEAN'', ''EUNATCH'',
     ''EUSERS'', ''EWOULDBLOCK'', ''EXDEV'', ''EXFULL'']"

abbreviation EACCES :: int where "EACCES \<equiv> 2"
abbreviation EEXIST :: int where "EEXIST \<equiv> 28"
abbreviation EINVAL :: int where "EINVAL \<equiv> 37"
abbreviation EMFILE :: int where "EMFILE \<equiv> 56"
abbreviation ENOENT :: int where "ENOENT \<equiv> 68"
abbreviation ENOTDIR :: int where "ENOTDIR \<equiv> 85"
abbreviation ENOTSUP :: int where "ENOTSUP \<equiv> 88"
abbreviation EPERM :: int where "EPERM \<equiv> 94"

lemma errno_values:
  "errno_t ! 2 = ''EACCES''" "errno_t ! 28 = ''EEXIST''" "errno_t ! 37 = ''EINVAL''"
  "errno_t ! 56 = ''EMFILE''" "errno_t ! 68 = ''ENOENT''" "errno_t ! 85 = ''ENOTDIR''"
  "errno_t ! 88 = ''ENOTSUP''" "errno_t ! 94 = ''EPERM''"
  by (simp_all add: errno_t_def)

section \<open>Words\<close>

text \<open>Distances between addresses, read modulo the address space.\<close>

lemma unat_minus_one_add:
  fixes a d :: "'a::len word"
  assumes "a \<noteq> d"
  shows "unat (a - d) = Suc (unat (a - (d + 1)))"
proof -
  have "a - d \<noteq> 0" using assms by simp
  then have "0 < unat (a - d)" and "unat (a - d - 1) = unat (a - d) - 1"
    by (simp_all add: unat_gt_0 unat_minus_one)
  then have "unat (a - d) = Suc (unat (a - d - 1))" by simp
  then show ?thesis by (simp add: algebra_simps)
qed

lemma unat_u32_less: "unat (x :: u32) < 2 ^ 32"
  using unsigned_less [of x] by simp

lemma unat_u32_minus_1: "unat (- 1 :: u32) = 2 ^ 32 - 1"
  by (simp add: unsigned_minus_1_eq_mask mask_eq_exp_minus_1)

lemma unat_of_nat_lt32 [simp]: "n < 2 ^ 32 \<Longrightarrow> unat (of_nat n :: u32) = n"
  by (simp add: unat_of_nat take_bit_nat_eq_self_iff)

lemma of_nat_u32_inj: "m < 2 ^ 32 \<Longrightarrow> n < 2 ^ 32 \<Longrightarrow> (of_nat m :: u32) = of_nat n \<longleftrightarrow> m = n"
  by (metis unat_of_nat_lt32)

section \<open>Lists\<close>

lemma length_filter_update:
  "k < length xs \<Longrightarrow>
    length (filter P (xs[k := y])) + (if P (xs ! k) then 1 else 0) =
    length (filter P xs) + (if P y then 1 else 0)"
proof (induction xs arbitrary: k)
  case (Cons x xs)
  then show ?case by (cases k) auto
qed simp

section \<open>Small numbers\<close>

lemma less_10_cases:
  "(n :: nat) < 10 \<Longrightarrow> n = 0 \<or> n = 1 \<or> n = 2 \<or> n = 3 \<or> n = 4 \<or> n = 5 \<or> n = 6 \<or> n = 7 \<or> n = 8 \<or> n = 9"
  by arith

lemma less_16_cases:
  "(n :: nat) < 16 \<Longrightarrow> n < 10 \<or> n = 10 \<or> n = 11 \<or> n = 12 \<or> n = 13 \<or> n = 14 \<or> n = 15"
  by arith

text \<open>\<open>places sep i u\<close>: the places behind the separators of \<open>u\<close>, which itself is at place \<open>i\<close>.\<close>

fun places :: "'a \<Rightarrow> nat \<Rightarrow> 'a list \<Rightarrow> nat list" where
  "places sep i [] = []"
| "places sep i (c # cs) = (if c = sep then [Suc i] else []) @ places sep (Suc i) cs"

lemma places_le: "p \<in> set (places sep i u) \<Longrightarrow> i < p \<and> p \<le> i + length u"
  by (induction u arbitrary: i) (fastforce split: if_splits)+

lemma places_length: "length (places sep i u) \<le> length u"
  by (induction u arbitrary: i) (auto simp: le_SucI)

end
