(* ===== verification/Stdio.thy ===== *)
theory Stdio
  imports Prelude
begin

text \<open>
  The formatted output and number conversion of \<open>kern/lib/stdio.c\<close>. Output is the sequence of
  characters handed to \<open>kputchar\<close>, or the sequence of \<open>write\<close> calls on a descriptor. A \<open>va_list\<close> is a
  list of the argument words and strings still to be taken; taking one that is not there reads past
  the caller's frame (\<open>Out_Of_Bounds\<close>). \<open>printf\<close> need not return: \<open>kputs\<close>, which prints a string for it, counts the
  characters in 16 bits (\<open>kern/drivers/console/console.c\<close>, \<open>Console.kputs\<close>).

  The lemmas show that \<open>print_num\<close> and \<open>print_hex\<close> write the canonical numeral within their 16-byte
  buffers, that \<open>atoi\<close> inverts \<open>print_num\<close>, and that \<open>printf\<close> and \<open>kvfprintf\<close> format alike.
\<close>

section \<open>Definitions\<close>

text \<open>The loop of \<open>print_num\<close>: the digits in the order they enter \<open>buf\<close>, lowest first.\<close>

function num_buf :: "u32 \<Rightarrow> string" where
  "num_buf a =
    (if a = 0 then []
     else (let d = a div 10 in char_of (unat (a - d * 10) + 48) # num_buf d))"
  by pat_completeness auto
termination
  by (relation "measure unat") (auto simp: unat_div unat_gt_0)

definition print_num :: "u32 \<Rightarrow> string" where
  "print_num input = (if input = 0 then ''0'' else []) @ rev (num_buf input)"

definition letters :: string where
  "letters = ''0123456789abcdef''"

function hex_buf :: "u32 \<Rightarrow> string" where
  "hex_buf a =
    (if a = 0 then []
     else (let d = a div 16 in letters ! unat (a - d * 16) # hex_buf d))"
  by pat_completeness auto
termination
  by (relation "measure unat") (auto simp: unat_div unat_gt_0)

definition print_hex :: "u32 \<Rightarrow> string" where
  "print_hex input = (if input = 0 then ''0'' else []) @ rev (hex_buf input)"

declare num_buf.simps [simp del] hex_buf.simps [simp del]

text \<open>\<open>fprint_num\<close> and \<open>fprint_hex\<close>: the same digits, each in a \<open>write\<close> of one byte.\<close>

definition fprint_num :: "u32 \<Rightarrow> string list" where
  "fprint_num input = (if input = 0 then [''0''] else []) @ map (\<lambda>c. [c]) (rev (num_buf input))"

definition fprint_hex :: "u32 \<Rightarrow> string list" where
  "fprint_hex input = (if input = 0 then [''0''] else []) @ map (\<lambda>c. [c]) (rev (hex_buf input))"

datatype va = VInt u32 | VStr string

fun va_int :: "va list \<Rightarrow> (u32 \<times> va list) exec" where
  "va_int (VInt w # args) = Inr (w, args)"
| "va_int _ = Inl Out_Of_Bounds"

fun va_str :: "va list \<Rightarrow> (string \<times> va list) exec" where
  "va_str (VStr s # args) = Inr (s, args)"
| "va_str _ = Inl Out_Of_Bounds"

text \<open>
  One conversion after a percent sign: the output of the \<open>switch\<close> and the remaining arguments; an
  unknown letter prints nothing. The counter of \<open>kputs\<close> never reaches the length of a string of \<open>2 ^ 16\<close> characters or more.
\<close>

definition printf_conv :: "char \<Rightarrow> va list \<Rightarrow> (string \<times> va list) run" where
  "printf_conv c args =
    (if c = CHR ''%'' then done_with (''%'', args)
     else if c = CHR ''c'' then Some (map_sum id (\<lambda>(w, r). ([char_of (unat w)], r)) (va_int args))
     else if c = CHR ''s'' then and_then (Some (va_str args)) (\<lambda>(s, r). if length s < 2 ^ 16 then done_with (s, r) else None)
     else if c = CHR ''d'' then Some (map_sum id (\<lambda>(w, r). (print_num w, r)) (va_int args))
     else if c = CHR ''u'' then Some (map_sum id (\<lambda>(w, r). (print_num w, r)) (va_int args))
     else if c = CHR ''x'' then Some (map_sum id (\<lambda>(w, r). (print_hex w, r)) (va_int args))
     else done_with ([], args))"

text \<open>
  \<open>printf\<close> to the console. The branch under \<open>debug_file > -1\<close> is dead: \<open>debug_file\<close> starts at \<open>-1\<close> and that
  branch holds its only assignment.
\<close>

fun printf :: "string \<Rightarrow> va list \<Rightarrow> string run" where
  "printf [] args = done_with []"
| "printf (c # f) args =
    (if c = CHR ''%'' then
       (case f of [] \<Rightarrow> done_with []
        | d # f' \<Rightarrow> and_then (printf_conv d args) (\<lambda>p. and_then (printf f' (snd p)) (\<lambda>out. done_with (fst p @ out))))
     else and_then (printf f args) (\<lambda>out. done_with (c # out)))"

definition kvfprintf_conv :: "char \<Rightarrow> va list \<Rightarrow> (string list \<times> va list) exec" where
  "kvfprintf_conv c args =
    (if c = CHR ''%'' then Inr ([''%''], args)
     else if c = CHR ''c'' then map_sum id (\<lambda>(w, r). ([[char_of (unat w)]], r)) (va_int args)
     else if c = CHR ''s'' then map_sum id (\<lambda>(s, r). ([s], r)) (va_str args)
     else if c = CHR ''d'' then map_sum id (\<lambda>(w, r). (fprint_num w, r)) (va_int args)
     else if c = CHR ''u'' then map_sum id (\<lambda>(w, r). (fprint_num w, r)) (va_int args)
     else if c = CHR ''x'' then map_sum id (\<lambda>(w, r). (fprint_hex w, r)) (va_int args)
     else Inr ([], args))"

fun kvfprintf :: "string \<Rightarrow> va list \<Rightarrow> string list exec" where
  "kvfprintf [] args = Inr []"
| "kvfprintf (c # f) args =
    (if c = CHR ''%'' then
       (case f of [] \<Rightarrow> Inr []
        | d # f' \<Rightarrow>
          (case kvfprintf_conv d args of Inl e \<Rightarrow> Inl e
           | Inr (out, args') \<Rightarrow> map_sum id ((@) out) (kvfprintf f' args')))
     else map_sum id ((#) [c]) (kvfprintf f args))"

text \<open>\<open>atoi\<close> runs from the last character to the first; \<open>p\<close> is the weight of the current one.\<close>

fun atoi_loop :: "string \<Rightarrow> u32 \<Rightarrow> u32 \<Rightarrow> u32" where
  "atoi_loop [] output p = output"
| "atoi_loop (c # cs) output p = atoi_loop cs (output + (cval c - 48) * p) (p * 10)"

definition atoi :: "string \<Rightarrow> u32" where
  "atoi string = atoi_loop (rev string) 0 1"

section \<open>Digits\<close>

lemma char_of_digits [simp]:
  "char_of (48 :: nat) = CHR ''0''" "char_of (49 :: nat) = CHR ''1''" "char_of (50 :: nat) = CHR ''2''"
  "char_of (51 :: nat) = CHR ''3''" "char_of (52 :: nat) = CHR ''4''" "char_of (53 :: nat) = CHR ''5''"
  "char_of (54 :: nat) = CHR ''6''" "char_of (55 :: nat) = CHR ''7''" "char_of (56 :: nat) = CHR ''8''"
  "char_of (57 :: nat) = CHR ''9''"
  by (simp_all add: char_of_eq_iff)

lemma unat_rem: "unat ((a :: u32) - a div k * k) = unat a mod unat k"
  by (simp add: minus_div_mult_eq_mod unat_mod)

lemma cval_digit: "n < 10 \<Longrightarrow> cval (char_of (n + 48)) - 48 = of_nat n"
  by (drule less_10_cases) (auto simp: cval_def)

lemma char_of_digit: "n < 10 \<Longrightarrow> char_of (n + 48) \<in> set ''0123456789''"
  for n :: nat by (drule less_10_cases) auto

fun lowval :: "string \<Rightarrow> u32" where
  "lowval [] = 0"
| "lowval (c # cs) = (cval c - 48) + 10 * lowval cs"

lemma lowval_num_buf: "lowval (num_buf a) = a"
proof (induction a rule: num_buf.induct)
  case (1 a)
  show ?case
  proof (cases "a = 0")
    case False
    have "unat (a - a div 10 * 10) < 10" by (simp add: unat_rem)
    then have "cval (char_of (unat (a - a div 10 * 10) + 48)) - 48 = a - a div 10 * 10"
      using cval_digit by simp
    with 1 False show ?thesis by (subst num_buf.simps) (simp add: Let_def algebra_simps)
  qed (simp add: num_buf.simps)
qed

lemma atoi_loop_lowval: "atoi_loop cs out p = out + p * lowval cs"
  by (induction cs arbitrary: out p) (simp_all add: algebra_simps)

lemma num_buf_digits: "set (num_buf a) \<subseteq> set ''0123456789''"
proof (induction a rule: num_buf.induct)
  case (1 a)
  have "unat (a - a div 10 * 10) < 10" by (simp add: unat_rem)
  then have "char_of (unat (a - a div 10 * 10) + 48) \<in> set ''0123456789''" by (rule char_of_digit)
  with 1 show ?case by (subst num_buf.simps) (auto simp: Let_def split: if_splits)
qed

lemma num_buf_length: "unat a < 10 ^ n \<Longrightarrow> length (num_buf a) \<le> n"
proof (induction a arbitrary: n rule: num_buf.induct)
  case (1 a)
  show ?case
  proof (cases "a = 0")
    case False
    with 1(2) obtain n' where n: "n = Suc n'" by (cases n) (auto simp: unsigned_eq_0_iff)
    with 1(2) have "unat (a div 10) < 10 ^ n'" by (simp add: unat_div less_mult_imp_div_less mult.commute)
    with 1(1) False n show ?thesis by (subst num_buf.simps) (simp add: Let_def)
  qed (simp add: num_buf.simps)
qed

lemma letters_nth:
  "n < 10 \<Longrightarrow> letters ! n = char_of (n + 48)" "letters ! 10 = CHR ''a''" "letters ! 11 = CHR ''b''"
  "letters ! 12 = CHR ''c''" "letters ! 13 = CHR ''d''" "letters ! 14 = CHR ''e''" "letters ! 15 = CHR ''f''"
  by (drule less_10_cases, auto simp: letters_def)

text \<open>The value of a hexadecimal numeral, lowest digit first.\<close>

fun hexval :: "string \<Rightarrow> nat" where
  "hexval [] = 0"
| "hexval (c # cs) = (if c \<in> set ''0123456789'' then of_char c - 48 else of_char c - 87) + 16 * hexval cs"

lemma hexval_letter:
  "n < 16 \<Longrightarrow> (if letters ! n \<in> set ''0123456789'' then of_char (letters ! n) - 48
    else of_char (letters ! n) - 87) = n"
  by (drule less_16_cases) (auto simp: letters_def dest!: less_10_cases)

lemma hexval_hex_buf: "hexval (hex_buf a) = unat a"
proof (induction a rule: hex_buf.induct)
  case (1 a)
  show ?case
  proof (cases "a = 0")
    case False
    have "unat (a - a div 16 * 16) < 16" by (simp add: unat_rem)
    note digit = hexval_letter [OF this]
    have "hexval (hex_buf a) = unat (a - a div 16 * 16) + 16 * hexval (hex_buf (a div 16))"
      using False by (subst hex_buf.simps) (simp only: Let_def if_False hexval.simps digit)
    with 1 False show ?thesis by (simp add: unat_rem unat_div)
  qed (simp add: hex_buf.simps)
qed

lemma hex_buf_length: "unat a < 16 ^ n \<Longrightarrow> length (hex_buf a) \<le> n"
proof (induction a arbitrary: n rule: hex_buf.induct)
  case (1 a)
  show ?case
  proof (cases "a = 0")
    case False
    with 1(2) obtain n' where n: "n = Suc n'" by (cases n) (auto simp: unsigned_eq_0_iff)
    with 1(2) have "unat (a div 16) < 16 ^ n'" by (simp add: unat_div less_mult_imp_div_less mult.commute)
    with 1(1) False n show ?thesis by (subst hex_buf.simps) (simp add: Let_def)
  qed (simp add: hex_buf.simps)
qed

text \<open>The last digit stored, which is printed first, is not a zero.\<close>

lemma num_buf_last: "a \<noteq> 0 \<Longrightarrow> last (num_buf a) \<noteq> CHR ''0''"
proof (induction a rule: num_buf.induct)
  case (1 a)
  show ?case
  proof (cases "a div 10 = 0")
    case True
    have "unat (a - a div 10 * 10) < 10" by (simp add: unat_rem)
    moreover have "unat (a - a div 10 * 10) \<noteq> 0" using True 1(2) by (simp add: unsigned_eq_0_iff)
    ultimately have "char_of (unat (a - a div 10 * 10) + 48) \<noteq> CHR ''0''"
      by (auto dest!: less_10_cases)
    with 1(2) True show ?thesis by (subst num_buf.simps) (simp add: Let_def num_buf.simps [of 0])
  next
    case False
    then have "num_buf (a div 10) \<noteq> []" by (subst num_buf.simps) (simp add: Let_def)
    with 1 False show ?thesis by (subst num_buf.simps) (simp add: Let_def)
  qed
qed

section \<open>Properties\<close>

text \<open>
  C33. \<open>print_num\<close> writes the canonical decimal numeral of its argument: only digits, at most ten of
  them (the buffer has 16 bytes), a leading zero only for 0, and \<open>atoi\<close> reads the number back.
\<close>

theorem print_num_atoi:
  "atoi (print_num n) = n \<and> set (print_num n) \<subseteq> set ''0123456789'' \<and> length (print_num n) \<le> 10 \<and>
   (hd (print_num n) = CHR ''0'' \<longleftrightarrow> n = 0)"
proof (cases "n = 0")
  case True
  then show ?thesis by (simp add: print_num_def num_buf.simps atoi_def cval_def)
next
  case False
  then have ne: "num_buf n \<noteq> []" by (subst num_buf.simps) (simp add: Let_def)
  have "unat n < 10 ^ 10" using unat_u32_less [of n] by simp
  then have "length (num_buf n) \<le> 10" by (rule num_buf_length)
  then show ?thesis
    using False num_buf_last num_buf_digits [of n] hd_rev [of "num_buf n"]
    by (simp add: print_num_def atoi_def atoi_loop_lowval lowval_num_buf)
qed

text \<open>
  \<open>print_hex\<close> writes the hexadecimal numeral of its argument in at most eight digits, within its
  16-byte buffer.
\<close>

theorem print_hex_value:
  "hexval (rev (print_hex n)) = unat n \<and> length (print_hex n) \<le> 8"
proof (cases "n = 0")
  case False
  have "unat n < 16 ^ 8" using unat_u32_less [of n] by simp
  then have "length (hex_buf n) \<le> 8" by (rule hex_buf_length)
  with False show ?thesis by (simp add: print_hex_def hexval_hex_buf)
qed (simp add: print_hex_def hex_buf.simps)

lemma concat_fprint: "concat (fprint_num w) = print_num w" "concat (fprint_hex w) = print_hex w"
  by (simp_all add: fprint_num_def print_num_def fprint_hex_def print_hex_def)

text \<open>The strings among the arguments are ones that \<open>kputs\<close> comes to the end of.\<close>

definition short_args :: "va list \<Rightarrow> bool" where
  "short_args args \<longleftrightarrow> (\<forall>s. VStr s \<in> set args \<longrightarrow> length s < 2 ^ 16)"

lemma printf_conv_short:
  assumes "short_args args"
  shows "printf_conv c args = Some (map_sum id (\<lambda>(out, r). (concat out, r)) (kvfprintf_conv c args)) \<and>
    (\<forall>out r. kvfprintf_conv c args = Inr (out, r) \<longrightarrow> short_args r)"
proof (cases args)
  case Nil
  then show ?thesis using assms by (auto simp: kvfprintf_conv_def printf_conv_def done_with_def)
next
  case (Cons a as)
  then show ?thesis
    using assms by (cases a) (auto simp: kvfprintf_conv_def printf_conv_def concat_fprint short_args_def done_with_def)
qed

text \<open>
  C35. \<open>kvfprintf\<close> and \<open>printf\<close> agree as long as the string arguments are shorter than \<open>2 ^ 16\<close> characters: \<open>printf\<close> then
  returns, the bytes of the \<open>write\<close> calls the one makes, in order, are the characters the other sends to the console, and
  they fail on the same argument lists.
\<close>

theorem kvfprintf_printf:
  assumes "short_args args"
  shows "printf f args = Some (map_sum id concat (kvfprintf f args))"
  using assms
proof (induction "length f" arbitrary: f args rule: less_induct)
  case less
  show ?case
  proof (cases f)
    case (Cons c f1)
    have IH: "printf g as = Some (map_sum id concat (kvfprintf g as))" if "length g < length f" "short_args as" for g as
      using less that by blast
    show ?thesis
    proof (cases "c = CHR ''%''")
      case True
      show ?thesis
      proof (cases f1)
        case (Cons d f')
        note c = printf_conv_short [OF less.prems, of d]
        show ?thesis
        proof (cases "kvfprintf_conv d args")
          case (Inr p)
          then have "short_args (snd p)" using c by (cases p) auto
          then have "printf f' (snd p) = Some (map_sum id concat (kvfprintf f' (snd p)))" using \<open>f = c # f1\<close> Cons by (intro IH) simp
          then show ?thesis using \<open>f = c # f1\<close> Cons True c Inr by (cases p; cases "kvfprintf f' (snd p)") (simp_all add: done_with_def)
        qed (use \<open>f = c # f1\<close> Cons True c in \<open>simp add: done_with_def\<close>)
      qed (use Cons True in \<open>simp add: done_with_def\<close>)
    next
      case False
      have "printf f1 args = Some (map_sum id concat (kvfprintf f1 args))" using Cons less.prems by (intro IH) simp_all
      then show ?thesis using Cons False by (cases "kvfprintf f1 args") (simp_all add: done_with_def)
    qed
  qed (simp add: done_with_def)
qed

theorem kvfprintf_printf_witness:
  "printf ''%s=%d'' [VStr ''x'', VInt 7] = Some (map_sum id concat (kvfprintf ''%s=%d'' [VStr ''x'', VInt 7]))"
  by (rule kvfprintf_printf) (simp add: short_args_def)

text \<open>The longer ones: \<open>printf\<close> does not return, \<open>kvfprintf\<close> writes the string.\<close>

lemma printf_long_string: "2 ^ 16 \<le> length s \<Longrightarrow> printf ''%s'' [VStr s] = None \<and> kvfprintf ''%s'' [VStr s] = Inr [s]"
  by (simp add: printf_conv_def kvfprintf_conv_def)

text \<open>
  The conversion for signed integers does not print a sign: it formats every argument as the
  unsigned conversion does, so a negative \<open>int\<close> comes out as its value modulo \<open>2^32\<close>.
\<close>

theorem printf_signed_is_unsigned:
  "printf ''%d'' [VInt w] = printf ''%u'' [VInt w] \<and> printf ''%d'' [VInt (- 1)] = done_with ''4294967295''"
proof -
  have "print_num (- 1) = ''4294967295''"
    by (simp add: print_num_def num_buf.simps Let_def)
  then show ?thesis by (simp add: printf_conv_def done_with_def)
qed

end
