(* ===== verification/Symbols.thy ===== *)
theory Symbols
  imports Prelude
begin

text \<open>
  The kernel symbol table of \<open>kern/kern/symbols.c\<close>: buckets of chained symbols, found by a 32-bit hash
  of the name. A chain hangs off one bucket only, so it is a list; \<open>hash % nbuckets\<close> traps when the table
  has no buckets, and appending to a bucket that counts entries but has no chain writes through an
  uninitialised pointer.

  The invariant \<open>wf_bin\<close> ties the counters to the chains; under it the table is a finite map from
  hashes to addresses, which the locale \<open>symbol_map\<close> states and the lemmas on sequences of exports use.
\<close>

section \<open>Definitions\<close>

record ksymbol_t =
  sym_hash :: u32
  sym_address :: u32

record ksymbol_bucket_t =
  entries :: u32
  root :: "ksymbol_t list"

record ksymbol_bin_t =
  nbuckets :: u32
  used :: u32
  buckets :: "ksymbol_bucket_t list"

fun hash_symbol_loop :: "string \<Rightarrow> u32 \<Rightarrow> u32 \<Rightarrow> u32" where
  "hash_symbol_loop [] ret i = ret"
| "hash_symbol_loop (c # cs) ret i = hash_symbol_loop cs ((ret XOR (cval c * (i + 1))) * cval c) (i + 1)"

definition hash_symbol :: "string \<Rightarrow> u32" where
  "hash_symbol string = hash_symbol_loop string 0 0"

definition make_symbol :: "string \<Rightarrow> u32 \<Rightarrow> ksymbol_t" where
  "make_symbol string addr = \<lparr>sym_hash = hash_symbol string, sym_address = addr\<rparr>"

text \<open>The scan of a chain for a hash: the address of the first match.\<close>

fun chain_lookup :: "ksymbol_t list \<Rightarrow> u32 \<Rightarrow> u32" where
  "chain_lookup [] h = 0"
| "chain_lookup (s # ss) h = (if sym_hash s = h then sym_address s else chain_lookup ss h)"

definition get_symbol :: "ksymbol_bin_t \<Rightarrow> string \<Rightarrow> u32 exec" where
  "get_symbol bin string =
    (let hash = hash_symbol string in
     if nbuckets bin = 0 then Inl Div_Zero
     else if unat (hash mod nbuckets bin) \<ge> length (buckets bin) then Inl Out_Of_Bounds
     else let b = buckets bin ! unat (hash mod nbuckets bin) in
       if entries b = 0 then Inr 0 else Inr (chain_lookup (root b) hash))"

text \<open>The scan of \<open>export_symbol\<close>: overwrite the first match, or report that there is none.\<close>

fun chain_replace :: "ksymbol_t list \<Rightarrow> u32 \<Rightarrow> u32 \<Rightarrow> ksymbol_t list option" where
  "chain_replace [] h addr = None"
| "chain_replace (s # ss) h addr =
    (if sym_hash s = h then Some (s\<lparr>sym_address := addr\<rparr> # ss)
     else map_option ((#) s) (chain_replace ss h addr))"

definition export_symbol :: "ksymbol_bin_t \<Rightarrow> string \<Rightarrow> u32 \<Rightarrow> ksymbol_bin_t exec" where
  "export_symbol bin string addr =
    (let hash = hash_symbol string; k = unat (hash mod nbuckets bin) in
     if nbuckets bin = 0 then Inl Div_Zero
     else if k \<ge> length (buckets bin) then Inl Out_Of_Bounds
     else let b = buckets bin ! k in
       if entries b = 0 then
         Inr (bin\<lparr>used := used bin + 1,
           buckets := (buckets bin)[k := \<lparr>entries = entries b + 1, root = [make_symbol string addr]\<rparr>]\<rparr>)
       else (case chain_replace (root b) hash addr of
           Some chain \<Rightarrow> Inr (bin\<lparr>buckets := (buckets bin)[k := b\<lparr>root := chain\<rparr>]\<rparr>)
         | None \<Rightarrow>
           if root b = [] then Inl Null_Deref
           else Inr (bin\<lparr>buckets := (buckets bin)
             [k := \<lparr>entries = entries b + 1, root = root b @ [make_symbol string addr]\<rparr>]\<rparr>)))"

definition init_symbol_bin :: "u32 \<Rightarrow> ksymbol_bin_t" where
  "init_symbol_bin sz =
    \<lparr>nbuckets = sz, used = 0, buckets = replicate (unat sz) \<lparr>entries = 0, root = []\<rparr>\<rparr>"

text \<open>The kernel's own table and its two entry points.\<close>

definition kexport_symbol :: "ksymbol_bin_t \<Rightarrow> string \<Rightarrow> u32 \<Rightarrow> ksymbol_bin_t exec" where
  "kexport_symbol ksymbol_table string addr = export_symbol ksymbol_table string addr"

definition kget_symbol :: "ksymbol_bin_t \<Rightarrow> string \<Rightarrow> u32 exec" where
  "kget_symbol ksymbol_table string = get_symbol ksymbol_table string"

section \<open>Invariant\<close>

definition wf_bucket :: "u32 \<Rightarrow> nat \<Rightarrow> ksymbol_bucket_t \<Rightarrow> bool" where
  "wf_bucket n k b \<longleftrightarrow>
    entries b = of_nat (length (root b)) \<and> distinct (map sym_hash (root b)) \<and>
    (\<forall>s \<in> set (root b). unat (sym_hash s mod n) = k)"

definition wf_bin :: "ksymbol_bin_t \<Rightarrow> bool" where
  "wf_bin bin \<longleftrightarrow>
    1 < nbuckets bin \<and> length (buckets bin) = unat (nbuckets bin) \<and>
    (\<forall>k<length (buckets bin). wf_bucket (nbuckets bin) k (buckets bin ! k)) \<and>
    used bin = of_nat (length (filter (\<lambda>b. root b \<noteq> []) (buckets bin)))"

text \<open>A chain misses the hashes of the other buckets, so its length is below \<open>2^32\<close>.\<close>

lemma wf_bucket_length:
  assumes "wf_bucket n k b" and "1 < n"
  shows "length (root b) < 2 ^ 32"
proof -
  let ?H = "set (map sym_hash (root b))"
  define h :: u32 where "h = (if k = 0 then 1 else 0)"
  have "1 mod n = 1" using assms(2) by (simp add: mod_word_less)
  then have "unat (h mod n) \<noteq> k" by (simp add: h_def)
  then have "h \<notin> ?H" using assms(1) by (auto simp: wf_bucket_def)
  then have "card ?H < card (UNIV :: u32 set)" by (intro psubset_card_mono) auto
  moreover have "card ?H = length (root b)"
    using assms(1) distinct_card [of "map sym_hash (root b)"] by (simp add: wf_bucket_def)
  ultimately show ?thesis by (simp add: card_word)
qed

lemma wf_bucket_entries:
  assumes "wf_bucket n k b" and "1 < n"
  shows "entries b = 0 \<longleftrightarrow> root b = []"
  using assms wf_bucket_length [OF assms] of_nat_u32_inj [of "length (root b)" 0]
  by (simp add: wf_bucket_def)

lemma chain_replace_None: "chain_replace ss h a = None \<longleftrightarrow> h \<notin> sym_hash ` set ss"
  by (induction ss) auto

lemma chain_replace_Some:
  "chain_replace ss h a = Some ss' \<Longrightarrow>
    map sym_hash ss' = map sym_hash ss \<and> h \<in> sym_hash ` set ss \<and>
    chain_lookup ss' g = (if g = h then a else chain_lookup ss g)"
proof (induction ss arbitrary: ss')
  case (Cons s ss)
  show ?case
  proof (cases "sym_hash s = h")
    case True
    with Cons.prems show ?thesis by auto
  next
    case False
    with Cons.prems obtain ss'' where "chain_replace ss h a = Some ss''" "ss' = s # ss''" by auto
    with Cons.IH [of ss''] False show ?thesis by auto
  qed
qed simp

lemma chain_lookup_append:
  "sym_hash s \<notin> sym_hash ` set ss \<Longrightarrow>
    chain_lookup (ss @ [s]) g = (if g = sym_hash s then sym_address s else chain_lookup ss g)"
  by (induction ss) auto

text \<open>A bucket's well-formedness looks at the hashes of its chain only.\<close>

lemma wf_bucket_hashes:
  assumes "wf_bucket n k b" and "map sym_hash (root b') = map sym_hash (root b)" and "entries b' = entries b"
  shows "wf_bucket n k b'"
proof -
  have "length (root b') = length (root b)" by (rule map_eq_imp_length_eq [OF assms(2)])
  moreover have "(\<forall>s \<in> set (root b'). unat (sym_hash s mod n) = k) \<longleftrightarrow>
      (\<forall>h \<in> set (map sym_hash (root b')). unat (h mod n) = k)" by simp
  moreover have "(\<forall>s \<in> set (root b). unat (sym_hash s mod n) = k) \<longleftrightarrow>
      (\<forall>h \<in> set (map sym_hash (root b)). unat (h mod n) = k)" by simp
  ultimately show ?thesis using assms unfolding wf_bucket_def by presburger
qed

section \<open>The table as a map from hashes\<close>

definition bin_lookup :: "ksymbol_bin_t \<Rightarrow> u32 \<Rightarrow> u32" where
  "bin_lookup bin h = chain_lookup (root (buckets bin ! unat (h mod nbuckets bin))) h"

lemma bucket_index: "wf_bin bin \<Longrightarrow> unat (h mod nbuckets bin) < length (buckets bin)"
  by (auto simp: wf_bin_def word_less_nat_alt unat_mod)

lemma wf_bin_nbuckets [simp]: "wf_bin bin \<Longrightarrow> nbuckets bin \<noteq> 0"
  by (auto simp: wf_bin_def)

lemma wf_bin_bucket:
  "wf_bin bin \<Longrightarrow>
    wf_bucket (nbuckets bin) (unat (h mod nbuckets bin)) (buckets bin ! unat (h mod nbuckets bin))"
  using bucket_index by (simp add: wf_bin_def)

lemma wf_bin_entries:
  "wf_bin bin \<Longrightarrow> entries (buckets bin ! unat (h mod nbuckets bin)) = 0 \<longleftrightarrow>
    root (buckets bin ! unat (h mod nbuckets bin)) = []"
  by (rule wf_bucket_entries [OF wf_bin_bucket]) (auto simp: wf_bin_def)

lemma get_symbol_bin_lookup: "wf_bin bin \<Longrightarrow> get_symbol bin t = Inr (bin_lookup bin (hash_symbol t))"
  using bucket_index [of bin "hash_symbol t"] wf_bin_entries [of bin "hash_symbol t"]
  by (auto simp: get_symbol_def bin_lookup_def Let_def not_le)

text \<open>Replacing one bucket by another well-formed one, with \<open>used\<close> counted along.\<close>

lemma wf_bin_update:
  assumes wf: "wf_bin bin" and b: "wf_bucket (nbuckets bin) k b" "root b \<noteq> []" and k: "k < length (buckets bin)"
  shows "wf_bin (bin\<lparr>used := used bin + (if root (buckets bin ! k) = [] then 1 else 0),
    buckets := (buckets bin)[k := b]\<rparr>)"
proof -
  let ?P = "\<lambda>b :: ksymbol_bucket_t. root b \<noteq> []"
  have "length (filter ?P ((buckets bin)[k := b])) =
      length (filter ?P (buckets bin)) + (if root (buckets bin ! k) = [] then 1 else 0)"
    using length_filter_update [OF k, of ?P b] b by (auto split: if_splits)
  with assms show ?thesis by (auto simp: wf_bin_def nth_list_update)
qed

lemma bin_lookup_update:
  assumes wf: "wf_bin bin" and k: "k = unat (h mod nbuckets bin)"
    and b: "\<And>g. chain_lookup (root b) g = (if g = h then a else chain_lookup (root (buckets bin ! k)) g)"
  shows "bin_lookup (bin\<lparr>used := u, buckets := (buckets bin)[k := b]\<rparr>) g =
    (if g = h then a else bin_lookup bin g)"
proof (cases "k = unat (g mod nbuckets bin)")
  case True
  with bucket_index [OF wf, of g] b show ?thesis by (simp add: bin_lookup_def)
next
  case False
  with k show ?thesis by (auto simp: bin_lookup_def)
qed

lemma export_symbol_update:
  assumes wf: "wf_bin bin"
  shows "\<exists>b. let k = unat (hash_symbol s mod nbuckets bin) in
    export_symbol bin s a = Inr (bin\<lparr>used := used bin + (if root (buckets bin ! k) = [] then 1 else 0),
      buckets := (buckets bin)[k := b]\<rparr>) \<and>
    wf_bucket (nbuckets bin) k b \<and> root b \<noteq> [] \<and>
    (\<forall>g. chain_lookup (root b) g =
      (if g = hash_symbol s then a else chain_lookup (root (buckets bin ! k)) g))"
proof -
  define h k where "h = hash_symbol s" and "k = unat (h mod nbuckets bin)"
  define b where "b = buckets bin ! k"
  have wb: "wf_bucket (nbuckets bin) k b"
    unfolding b_def k_def by (rule wf_bin_bucket [OF wf])
  have e: "entries b = 0 \<longleftrightarrow> root b = []"
    unfolding b_def k_def by (rule wf_bin_entries [OF wf])
  have lt: "k < length (buckets bin)" unfolding k_def by (rule bucket_index [OF wf])
  note step = export_symbol_def [of bin s a, folded h_def, folded k_def, unfolded Let_def, folded b_def]
  consider (new) "root b = []"
    | (old) ss where "root b \<noteq> []" "chain_replace (root b) h a = Some ss"
    | (app) "root b \<noteq> []" "chain_replace (root b) h a = None" by fastforce
  then show ?thesis
  proof cases
    case new
    let ?b = "\<lparr>entries = entries b + 1, root = [make_symbol s a]\<rparr>"
    have "wf_bucket (nbuckets bin) k ?b"
      using e new by (simp add: wf_bucket_def make_symbol_def h_def [symmetric] k_def)
    with new e lt wf show ?thesis
      by (intro exI [of _ ?b]) (simp add: Let_def step not_le make_symbol_def flip: h_def k_def b_def)
  next
    case old
    have hs: "map sym_hash ss = map sym_hash (root b)" using chain_replace_Some [OF old(2)] by simp
    have "wf_bucket (nbuckets bin) k (b\<lparr>root := ss\<rparr>)"
      using wb by (rule wf_bucket_hashes) (use hs in simp_all)
    moreover from old have "ss \<noteq> []" using chain_replace_Some by fastforce
    ultimately show ?thesis
      using old e lt wf chain_replace_Some [OF old(2)]
      by (intro exI [of _ "b\<lparr>root := ss\<rparr>"]) (simp add: Let_def step not_le flip: h_def k_def b_def)
  next
    case app
    let ?b = "\<lparr>entries = entries b + 1, root = root b @ [make_symbol s a]\<rparr>"
    from app have notin: "h \<notin> sym_hash ` set (root b)" by (simp add: chain_replace_None)
    then have "wf_bucket (nbuckets bin) k ?b"
      using wb by (auto simp: wf_bucket_def make_symbol_def h_def [symmetric] k_def)
    with app e lt wf notin show ?thesis
      by (intro exI [of _ ?b])
        (simp add: Let_def step not_le chain_lookup_append make_symbol_def flip: h_def k_def b_def)
  qed
qed

lemma export_symbol_wf:
  assumes "wf_bin bin"
  shows "\<exists>bin'. export_symbol bin s a = Inr bin' \<and> wf_bin bin' \<and>
    (\<forall>g. bin_lookup bin' g = (if g = hash_symbol s then a else bin_lookup bin g))"
proof -
  let ?k = "unat (hash_symbol s mod nbuckets bin)"
  from export_symbol_update [OF assms, of s a] obtain b where b:
    "export_symbol bin s a = Inr (bin\<lparr>used := used bin + (if root (buckets bin ! ?k) = [] then 1 else 0),
      buckets := (buckets bin)[?k := b]\<rparr>)"
    "wf_bucket (nbuckets bin) ?k b" "root b \<noteq> []"
    "\<And>g. chain_lookup (root b) g = (if g = hash_symbol s then a else chain_lookup (root (buckets bin ! ?k)) g)"
    by (auto simp: Let_def)
  show ?thesis
    using b wf_bin_update [OF assms b(2,3) bucket_index [OF assms]] bin_lookup_update [OF assms refl b(4)]
    by auto
qed

lemma init_symbol_bin_wf: "1 < n \<Longrightarrow> wf_bin (init_symbol_bin n)"
  by (auto simp: wf_bin_def init_symbol_bin_def wf_bucket_def)

lemma bin_lookup_init: "1 < n \<Longrightarrow> bin_lookup (init_symbol_bin n) h = 0"
  using bucket_index [OF init_symbol_bin_wf, of n h] by (simp add: bin_lookup_def init_symbol_bin_def)

section \<open>The interface\<close>

text \<open>
  What the kernel and its modules rely on: exporting a name succeeds and keeps the table sound, and a
  name then resolves to the last address exported under a name that \<open>same\<close> identifies with it.
\<close>

locale symbol_map =
  fixes lookup :: "'t \<Rightarrow> 'k \<Rightarrow> u32 exec"
    and insert :: "'t \<Rightarrow> 'k \<Rightarrow> u32 \<Rightarrow> 't exec"
    and same :: "'k \<Rightarrow> 'k \<Rightarrow> bool"
    and invar :: "'t \<Rightarrow> bool"
  assumes insert_ok: "invar t \<Longrightarrow> \<exists>t'. insert t k v = Inr t' \<and> invar t'"
    and lookup_ok: "invar t \<Longrightarrow> \<exists>v. lookup t k = Inr v"
    and lookup_insert: "invar t \<Longrightarrow> insert t k v = Inr t' \<Longrightarrow>
      lookup t' k' = (if same k k' then Inr v else lookup t k')"
    and same_refl: "same k k"
begin

fun insert_all :: "'t \<Rightarrow> ('k \<times> u32) list \<Rightarrow> 't exec" where
  "insert_all t [] = Inr t"
| "insert_all t ((k, v) # kvs) = (case insert t k v of Inl e \<Rightarrow> Inl e | Inr t' \<Rightarrow> insert_all t' kvs)"

lemma insert_all_ok: "invar t \<Longrightarrow> \<exists>t'. insert_all t kvs = Inr t' \<and> invar t'"
proof (induction t kvs rule: insert_all.induct)
  case (2 t k v kvs)
  then show ?case using insert_ok [of t k v] by fastforce
qed simp

lemma lookup_insert_all_other:
  "invar t \<Longrightarrow> insert_all t kvs = Inr t' \<Longrightarrow> \<forall>k \<in> fst ` set kvs. \<not> same k k' \<Longrightarrow>
    lookup t' k' = lookup t k'"
proof (induction t kvs rule: insert_all.induct)
  case (2 t k v kvs)
  then obtain t1 where t1: "insert t k v = Inr t1" "invar t1"
    using insert_ok by blast
  with 2 have "lookup t' k' = lookup t1 k'" by simp
  with 2 t1 show ?case using lookup_insert by auto
qed simp

lemma lookup_insert_all:
  "invar t \<Longrightarrow> insert_all t kvs = Inr t' \<Longrightarrow> (k, v) \<in> set kvs \<Longrightarrow>
    sorted_wrt (\<lambda>x y. \<not> same (fst x) (fst y) \<and> \<not> same (fst y) (fst x)) kvs \<Longrightarrow> lookup t' k = Inr v"
proof (induction t kvs rule: insert_all.induct)
  case (2 t k1 v1 kvs)
  then obtain t1 where t1: "insert t k1 v1 = Inr t1" "invar t1"
    using insert_ok by blast
  show ?case
  proof (cases "(k, v) \<in> set kvs")
    case True
    with 2 t1 show ?thesis by simp
  next
    case False
    with 2 have kv: "k = k1" "v = v1" by auto
    have "lookup t' k = lookup t1 k"
      by (rule lookup_insert_all_other [of t1 kvs]) (use 2 t1 kv in auto)
    then show ?thesis using lookup_insert [OF 2(2) t1(1), of k1] kv same_refl by simp
  qed
qed simp

end

interpretation ksyms: symbol_map get_symbol export_symbol
  "\<lambda>s t. hash_symbol s = hash_symbol t" wf_bin
proof unfold_locales
  show "wf_bin t \<Longrightarrow> \<exists>t'. export_symbol t k v = Inr t' \<and> wf_bin t'" for t k v
    using export_symbol_wf by blast
  show "wf_bin t \<Longrightarrow> \<exists>v. get_symbol t k = Inr v" for t k
    using get_symbol_bin_lookup by blast
  show "wf_bin t \<Longrightarrow> export_symbol t k v = Inr t' \<Longrightarrow>
      get_symbol t' k' = (if hash_symbol k = hash_symbol k' then Inr v else get_symbol t k')" for t k v t' k'
    using export_symbol_wf [of t k v] by (auto simp: get_symbol_bin_lookup)
qed simp

section \<open>Properties\<close>

text \<open>
  Exporting keeps the table well formed (entry counts match the chains, every symbol is in the bucket
  of its hash, \<open>used\<close> counts the occupied buckets) and never fails on a well-formed table; afterwards a name
  resolves to the exported address exactly if its hash is that of the exported name, and to what it
  resolved to before otherwise.
\<close>

theorem export_then_get:
  assumes "wf_bin bin"
  shows "\<exists>bin'. export_symbol bin s a = Inr bin' \<and> wf_bin bin' \<and>
    (\<forall>t. get_symbol bin' t = (if hash_symbol s = hash_symbol t then Inr a else get_symbol bin t))"
proof -
  obtain bin' where "export_symbol bin s a = Inr bin'" "wf_bin bin'"
    using ksyms.insert_ok [OF assms] by blast
  then show ?thesis using ksyms.lookup_insert [OF assms] by blast
qed

theorem export_then_get_witness:
  "\<exists>bin'. export_symbol (init_symbol_bin 128) ''printf'' 4096 = Inr bin' \<and> wf_bin bin' \<and>
    (\<forall>t. get_symbol bin' t = (if hash_symbol ''printf'' = hash_symbol t then Inr 4096
      else get_symbol (init_symbol_bin 128) t))"
  by (rule export_then_get) (rule init_symbol_bin_wf, simp)

text \<open>
  The table does not tell two names with one hash apart: \<open>ht\<close> and \<open>nh\<close> collide, so exporting the one
  changes the address the other resolves to.
\<close>

theorem hash_collision:
  assumes "wf_bin bin"
  shows "\<exists>bin'. export_symbol bin ''ht'' a = Inr bin' \<and> get_symbol bin' ''nh'' = Inr a"
proof -
  have "hash_symbol ''ht'' = hash_symbol ''nh''"
    by (simp add: hash_symbol_def cval_def)
  then show ?thesis
    using ksyms.insert_ok [OF assms] ksyms.lookup_insert [OF assms] by fastforce
qed

theorem hash_collision_witness:
  "\<exists>bin'. export_symbol (init_symbol_bin 128) ''ht'' 77 = Inr bin' \<and> get_symbol bin' ''nh'' = Inr 77"
  by (rule hash_collision) (rule init_symbol_bin_wf, simp)

end
