(* ===== verification/Cstring.thy ===== *)
theory Cstring
  imports Prelude
begin

text \<open>
  The string and memory routines of \<open>kern/lib/string.c\<close> over a flat 32-bit byte memory. Each \<open>while\<close>
  loop is a recursion on the remaining count; \<open>strlen\<close> scans until a zero byte and is a
  \<^theory_text>\<open>partial_function\<close>, since nothing bounds the scan.

  \<open>cstr m p s\<close> says that the memory \<open>m\<close> holds the C string \<open>s\<close> at \<open>p\<close>. The lemmas give each routine's
  effect on the whole memory: which bytes it writes, what they become, and that no other byte changes.
\<close>

type_synonym mem = "u32 \<Rightarrow> u8"

section \<open>Definitions\<close>

partial_function (option) strlen_loop :: "mem \<Rightarrow> u32 \<Rightarrow> u32 \<Rightarrow> u32 option" where
  "strlen_loop m input i = (if m (input + i) = 0 then Some i else strlen_loop m input (i + 1))"

definition strlen :: "mem \<Rightarrow> u32 \<Rightarrow> u32 option" where
  "strlen m input = strlen_loop m input 0"

text \<open>
  \<open>strcmp\<close> compares the lengths first and then counts the positions that differ; \<open>n\<close> is the number of
  iterations left of \<open>for ( i = 0; i < s1_len; i++ )\<close>.
\<close>

fun strcmp_loop :: "mem \<Rightarrow> u32 \<Rightarrow> u32 \<Rightarrow> u32 \<Rightarrow> u32 \<Rightarrow> nat \<Rightarrow> u32" where
  "strcmp_loop m s1 s2 i ret 0 = ret"
| "strcmp_loop m s1 s2 i ret (Suc n) =
     strcmp_loop m s1 s2 (i + 1) (ret + (if m (s1 + i) = m (s2 + i) then 0 else 1)) n"

definition strcmp :: "mem \<Rightarrow> u32 \<Rightarrow> u32 \<Rightarrow> u32 option" where
  "strcmp m s1 s2 =
    (case strlen m s1 of None \<Rightarrow> None
     | Some s1_len \<Rightarrow>
       (case strlen m s2 of None \<Rightarrow> None
        | Some s2_len \<Rightarrow>
          if s1_len \<noteq> s2_len then Some (s1_len - s2_len)
          else Some (strcmp_loop m s1 s2 0 0 (unat s1_len))))"

fun memset_loop :: "mem \<Rightarrow> u32 \<Rightarrow> u8 \<Rightarrow> nat \<Rightarrow> mem" where
  "memset_loop m ret_dest v 0 = m"
| "memset_loop m ret_dest v (Suc count) = memset_loop (m(ret_dest := v)) (ret_dest + 1) v count"

definition memset :: "mem \<Rightarrow> u32 \<Rightarrow> u8 \<Rightarrow> u32 \<Rightarrow> mem" where
  "memset m dest v count = memset_loop m dest v (unat count)"

text \<open>\<open>memsetw\<close> has the body of \<open>memset\<close>.\<close>

definition memsetw :: "mem \<Rightarrow> u32 \<Rightarrow> u8 \<Rightarrow> u32 \<Rightarrow> mem" where
  "memsetw m dest v count = memset_loop m dest v (unat count)"

fun memcpy_loop :: "mem \<Rightarrow> u32 \<Rightarrow> u32 \<Rightarrow> nat \<Rightarrow> mem" where
  "memcpy_loop m ret_dest src_dest 0 = m"
| "memcpy_loop m ret_dest src_dest (Suc count) =
     memcpy_loop (m(ret_dest := m src_dest)) (ret_dest + 1) (src_dest + 1) count"

definition memcpy :: "mem \<Rightarrow> u32 \<Rightarrow> u32 \<Rightarrow> u32 \<Rightarrow> mem" where
  "memcpy m dest src count = memcpy_loop m dest src (unat count)"

text \<open>
  \<open>memmove\<close> zeroes \<open>*src_dest\<close> after it has advanced \<open>src_dest\<close>, so the byte it clears is the one the next
  iteration copies.
\<close>

fun memmove_loop :: "mem \<Rightarrow> u32 \<Rightarrow> u32 \<Rightarrow> nat \<Rightarrow> mem" where
  "memmove_loop m ret_dest src_dest 0 = m"
| "memmove_loop m ret_dest src_dest (Suc count) =
     (let m' = m(ret_dest := m src_dest)
      in memmove_loop (m'(src_dest + 1 := 0)) (ret_dest + 1) (src_dest + 1) count)"

definition memmove :: "mem \<Rightarrow> u32 \<Rightarrow> u32 \<Rightarrow> u32 \<Rightarrow> mem" where
  "memmove m dest src count = memmove_loop m dest src (unat count)"

text \<open>
  \<open>strdup\<close> copies the string into the block \<open>ret\<close> that \<open>kmalloc( slen + 1, 0, 0 )\<close> returned and terminates
  it; the block is an argument, the result is the memory and the returned pointer.
\<close>

definition strdup :: "mem \<Rightarrow> u32 \<Rightarrow> u32 \<Rightarrow> (mem \<times> u32) option" where
  "strdup m ret s =
    (case strlen m s of None \<Rightarrow> None
     | Some slen \<Rightarrow> Some ((memcpy m ret s slen)(ret + slen := 0), ret))"

section \<open>C strings in memory\<close>

fun cstr :: "mem \<Rightarrow> u32 \<Rightarrow> u8 list \<Rightarrow> bool" where
  "cstr m p [] \<longleftrightarrow> m p = 0"
| "cstr m p (c # cs) \<longleftrightarrow> m p = c \<and> c \<noteq> 0 \<and> cstr m (p + 1) cs"

lemma cstr_iff:
  "cstr m p s \<longleftrightarrow>
     (\<forall>i<length s. m (p + of_nat i) = s ! i \<and> s ! i \<noteq> 0) \<and> m (p + of_nat (length s)) = 0"
proof (induction s arbitrary: p)
  case Nil
  then show ?case by simp
next
  case (Cons c cs)
  have "(\<forall>i<length (c # cs). m (p + of_nat i) = (c # cs) ! i \<and> (c # cs) ! i \<noteq> 0) \<longleftrightarrow>
      (m p = c \<and> c \<noteq> 0) \<and>
      (\<forall>i<length cs. m (p + 1 + of_nat i) = cs ! i \<and> cs ! i \<noteq> 0)"
    by (auto simp: All_less_Suc2 add.assoc)
  then show ?case by (auto simp: Cons.IH add.assoc)
qed

lemma cstr_nth: "cstr m p s \<Longrightarrow> i < length s \<Longrightarrow> m (p + of_nat i) = s ! i"
  by (simp add: cstr_iff)

lemma cstr_nonzero: "cstr m p s \<Longrightarrow> 0 \<notin> set s"
  by (induction s arbitrary: p) auto

text \<open>A string is determined by the memory and its address.\<close>

lemma cstr_unique: "cstr m p s \<Longrightarrow> cstr m p t \<Longrightarrow> s = t"
  by (induction s arbitrary: p t) (case_tac t; auto)+

section \<open>Length\<close>

lemma strlen_loop_cstr:
  "cstr m (p + i) s \<Longrightarrow> strlen_loop m p i = Some (i + of_nat (length s))"
proof (induction s arbitrary: i)
  case Nil
  then show ?case by (subst strlen_loop.simps) simp
next
  case (Cons c cs)
  have "strlen_loop m p (i + 1) = Some (i + 1 + of_nat (length cs))"
    by (rule Cons.IH) (use Cons.prems in \<open>simp add: add.assoc\<close>)
  moreover have "strlen_loop m p i = strlen_loop m p (i + 1)"
    using Cons.prems by (subst strlen_loop.simps) simp
  ultimately show ?case by (simp add: algebra_simps)
qed

lemma strlen_cstr: "cstr m p s \<Longrightarrow> strlen m p = Some (of_nat (length s))"
  using strlen_loop_cstr [of m p 0 s] by (simp add: strlen_def)

section \<open>Memory effects\<close>

lemma memset_loop_apply:
  "n \<le> 2 ^ 32 \<Longrightarrow> memset_loop m d v n a = (if unat (a - d) < n then v else m a)"
proof (induction n arbitrary: m d)
  case 0
  then show ?case by simp
next
  case (Suc n)
  show ?case
  proof (cases "a = d")
    case True
    have "\<not> unat (d - (d + 1)) < n"
      using Suc.prems by (simp add: unat_u32_minus_1)
    with Suc True show ?thesis by simp
  next
    case False
    with Suc show ?thesis by (simp add: unat_minus_one_add)
  qed
qed

lemma memset_apply: "memset m d v n a = (if unat (a - d) < unat n then v else m a)"
  using unat_u32_less [of n] by (simp add: memset_def memset_loop_apply)

text \<open>
  A forward copy reads a byte it has already overwritten exactly when the destination starts inside the
  source region, \<open>0 < dest - src < n\<close>.
\<close>

lemma memcpy_loop_apply:
  assumes "n \<le> 2 ^ 32" and "d = s \<or> n \<le> unat (d - s)"
  shows "memcpy_loop m d s n a = (if unat (a - d) < n then m (s + (a - d)) else m a)"
  using assms
proof (induction n arbitrary: m d s)
  case 0
  then show ?case by simp
next
  case (Suc n)
  let ?m = "m(d := m s)"
  have dist: "(d + 1) - (s + 1) = d - s" by simp
  have IH: "memcpy_loop ?m (d + 1) (s + 1) n a =
      (if unat (a - (d + 1)) < n then ?m (s + 1 + (a - (d + 1))) else ?m a)"
    by (rule Suc.IH) (use Suc.prems in \<open>auto simp: dist\<close>)
  show ?case
  proof (cases "a = d")
    case True
    have "\<not> unat (d - (d + 1)) < n"
      using Suc.prems by (simp add: unat_u32_minus_1)
    with IH True show ?thesis by simp
  next
    case False
    have "s + (a - d) = d \<longrightarrow> d = s \<or> \<not> unat (a - d) < Suc n"
    proof
      assume "s + (a - d) = d"
      then have "a - d = d - s" by (simp add: algebra_simps)
      then show "d = s \<or> \<not> unat (a - d) < Suc n" using Suc.prems(2) by auto
    qed
    with IH False show ?thesis
      by (auto simp: unat_minus_one_add algebra_simps)
  qed
qed

lemma memcpy_apply:
  assumes "d = s \<or> unat n \<le> unat (d - s)"
  shows "memcpy m d s n a = (if unat (a - d) < unat n then m (s + (a - d)) else m a)"
  using assms unat_u32_less [of n] by (simp add: memcpy_def memcpy_loop_apply)

text \<open>
  \<open>memmove\<close> between disjoint regions: only the first byte arrives; the rest of the destination and the
  source bytes after the first are zeroed.
\<close>

lemma memmove_loop_apply:
  assumes "n < 2 ^ 32" and "n < unat (d - s)" and "n \<le> unat (s - d)"
  shows "memmove_loop m d s n a =
    (if a = d \<and> 0 < n then m s
     else if unat (a - d) < n then 0
     else if 0 < unat (a - s) \<and> unat (a - s) \<le> n then 0
     else m a)"
  using assms
proof (induction n arbitrary: m d s)
  case 0
  then show ?case by auto
next
  case (Suc n)
  let ?m = "m(d := m s, s + 1 := 0)"
  have dist: "(d + 1) - (s + 1) = d - s" "(s + 1) - (d + 1) = s - d" by simp_all
  have IH: "memmove_loop ?m (d + 1) (s + 1) n a =
      (if a = d + 1 \<and> 0 < n then ?m (s + 1)
       else if unat (a - (d + 1)) < n then 0
       else if 0 < unat (a - (s + 1)) \<and> unat (a - (s + 1)) \<le> n then 0
       else ?m a)"
    by (rule Suc.IH) (use Suc.prems in \<open>auto simp: dist\<close>)
  have ds: "d \<noteq> s" "d \<noteq> s + 1" using Suc.prems by auto
  have far: "\<not> unat (d - (d + 1)) < n" "\<not> (0 < unat (d - (s + 1)) \<and> unat (d - (s + 1)) \<le> n)"
    "\<not> (0 < unat (s - (s + 1)) \<and> unat (s - (s + 1)) \<le> n)"
    using Suc.prems unat_minus_one_add [of d s] ds by (auto simp: unat_u32_minus_1)
  have "\<not> unat (s - d) < Suc n" using Suc.prems by simp
  then have s: "\<not> unat (s - (d + 1)) < n" "s \<noteq> d + 1 \<or> n = 0"
    using unat_minus_one_add [of s d] ds by auto
  have one: "unat (s + 1 - s) = 1" by simp
  consider "a = d" | "a = s" | "a \<noteq> d" "a \<noteq> s" by blast
  then show ?case
  proof cases
    case 1
    with IH far ds show ?thesis by (auto simp: eq_commute [of d])
  next
    case 2
    with IH far s ds \<open>\<not> unat (s - d) < Suc n\<close> show ?thesis by auto
  next
    case 3
    note uns = unat_minus_one_add [OF 3(1)] unat_minus_one_add [OF 3(2)]
    have "a = s + 1 \<longleftrightarrow> unat (a - (s + 1)) = 0"
      by (simp only: unsigned_eq_0_iff right_minus_eq)
    moreover have "a = d + 1 \<Longrightarrow> unat (a - d) = 1" by simp
    ultimately show ?thesis using IH uns 3 by auto
  qed
qed

section \<open>Properties\<close>

definition mismatches :: "u8 list \<Rightarrow> u8 list \<Rightarrow> nat" where
  "mismatches s t = length (filter (\<lambda>(x, y). x \<noteq> y) (zip s t))"

lemma mismatches_0: "length s = length t \<Longrightarrow> mismatches s t = 0 \<longleftrightarrow> s = t"
  by (induction s t rule: list_induct2) (auto simp: mismatches_def)

lemma mismatches_le: "mismatches s t \<le> length s"
  unfolding mismatches_def by (rule order_trans [OF length_filter_le]) simp

lemma strcmp_loop_mismatches:
  assumes "length s = length t"
    and "\<forall>j<length s. m (p + i + of_nat j) = s ! j" and "\<forall>j<length t. m (q + i + of_nat j) = t ! j"
  shows "strcmp_loop m p q i ret (length s) = ret + of_nat (mismatches s t)"
  using assms
proof (induction s t arbitrary: i ret rule: list_induct2)
  case Nil
  then show ?case by (simp add: mismatches_def)
next
  case (Cons x xs y ys)
  from Cons.prems have hd: "m (p + i) = x" "m (q + i) = y"
    by (auto simp: All_less_Suc2)
  from Cons.prems have tl: "\<forall>j<length xs. m (p + (i + 1) + of_nat j) = xs ! j"
    "\<forall>j<length ys. m (q + (i + 1) + of_nat j) = ys ! j"
    by (auto simp: All_less_Suc2 algebra_simps)
  show ?case
    using Cons.IH [OF tl] hd by (simp add: mismatches_def)
qed

lemma strcmp_cstr:
  assumes "cstr m p s" "cstr m q t" "length s < 2 ^ 32" "length t < 2 ^ 32"
  shows "strcmp m p q =
    Some (if length s = length t then of_nat (mismatches s t) else of_nat (length s) - of_nat (length t))"
proof -
  have "strcmp_loop m p q 0 0 (length s) = of_nat (mismatches s t)" if "length s = length t"
    using strcmp_loop_mismatches [of s t m p 0 q 0] assms that by (simp add: cstr_nth)
  with assms show ?thesis
    by (auto simp: strcmp_def strlen_cstr of_nat_u32_inj)
qed

text \<open>
  \<open>strcmp\<close> decides equality of C strings: on two terminated strings it returns, and it returns 0
  exactly when the strings are equal.
\<close>

theorem strcmp_zero_iff:
  assumes "cstr m p s" and "cstr m q t" and "length s < 2 ^ 32" and "length t < 2 ^ 32"
  shows "\<exists>r. strcmp m p q = Some r \<and> (r = 0 \<longleftrightarrow> s = t)"
proof (cases "length s = length t")
  case True
  have "(of_nat (mismatches s t) :: u32) = 0 \<longleftrightarrow> mismatches s t = 0"
    using mismatches_le [of s t] assms(3) of_nat_u32_inj [of "mismatches s t" 0] by simp
  with True strcmp_cstr [OF assms] mismatches_0 show ?thesis by simp
next
  case False
  then have "s \<noteq> t" "(of_nat (length s) :: u32) \<noteq> of_nat (length t)"
    using assms by (auto simp: of_nat_u32_inj)
  with False strcmp_cstr [OF assms] show ?thesis by simp
qed

theorem strcmp_zero_iff_witness:
  "\<exists>r. strcmp ((\<lambda>_. 0)(100 := 97, 200 := 97)) 100 200 = Some r \<and> (r = 0 \<longleftrightarrow> [97 :: u8] = [97])"
  by (rule strcmp_zero_iff) simp_all

text \<open>
  \<open>strdup\<close> into a block that does not overlap the string returns the block holding an equal string,
  leaves the original intact, and writes no byte outside the \<open>slen + 1\<close> bytes of the block.
\<close>

theorem strdup_copies:
  assumes str: "cstr m s str" and len: "length str < 2 ^ 32"
    and disj: "length str < unat (ret - s)" "length str < unat (s - ret)"
  shows "\<exists>m'. strdup m ret s = Some (m', ret) \<and> cstr m' ret str \<and> cstr m' s str \<and>
    (\<forall>a. length str < unat (a - ret) \<longrightarrow> m' a = m a)"
proof -
  let ?n = "of_nat (length str) :: u32"
  let ?m = "(memcpy m ret s ?n)(ret + ?n := 0)"
  have n: "unat ?n = length str" using len by simp
  have cp: "memcpy m ret s ?n a = (if unat (a - ret) < length str then m (s + (a - ret)) else m a)" for a
    using disj n by (subst memcpy_apply) auto
  have at: "unat (a - ret) = length str \<longleftrightarrow> a = ret + ?n" for a
    using word_unat_eq_iff [of "a - ret" ?n] by (simp add: n) (auto simp: algebra_simps)
  have frame: "?m a = m a" if "length str < unat (a - ret)" for a
    using that at [of a] by (auto simp: cp)
  have new: "cstr ?m ret str"
    using str len n at by (auto simp: cstr_iff cp of_nat_u32_inj)
  have off: "length str < unat (s + of_nat i - ret)" if i: "i \<le> length str" for i
  proof (rule ccontr)
    assume "\<not> ?thesis"
    moreover define k where "k = s + of_nat i - ret"
    ultimately have k: "unat k \<le> length str" "ret - s = of_nat i - k" by (simp_all add: k_def)
    show False
    proof (cases "unat k \<le> i")
      case True
      then have "unat (of_nat i - k) = i - unat k"
        using i len by (simp add: unat_sub word_le_nat_alt)
      with k disj i show False by simp
    next
      case False
      have "s - ret = k - of_nat i" by (simp add: k_def)
      moreover have "unat (k - of_nat i) = unat k - i"
        using False i len by (simp add: unat_sub word_le_nat_alt)
      ultimately show False using k disj by simp
    qed
  qed
  have same: "?m (s + of_nat i) = m (s + of_nat i)" if "i \<le> length str" for i
    by (rule frame) (rule off [OF that])
  have "cstr ?m s str"
    using str same by (simp add: cstr_iff del: fun_upd_apply)
  with new frame show ?thesis
    using str by (simp add: strdup_def strlen_cstr)
qed

theorem strdup_copies_witness:
  "\<exists>m'. strdup ((\<lambda>_. 0)(100 := 97)) 200 100 = Some (m', 200) \<and> cstr m' 200 [97] \<and> cstr m' 100 [97] \<and>
    (\<forall>a. length [97 :: u8] < unat (a - 200) \<longrightarrow> m' a = ((\<lambda>_. 0)(100 := 97)) a)"
  by (rule strdup_copies) simp_all

text \<open>
  \<open>memmove\<close> does not move: between disjoint regions only the first byte reaches the destination, the
  other destination bytes become 0, and the source bytes after the first are erased.
\<close>

theorem memmove_keeps_first_byte_only:
  assumes "unat n < unat (d - s)" and "unat n \<le> unat (s - d)"
  shows "memmove m d s n a =
    (if a = d \<and> n \<noteq> 0 then m s
     else if unat (a - d) < unat n then 0
     else if 0 < unat (a - s) \<and> unat (a - s) \<le> unat n then 0
     else m a)"
proof -
  have "0 < unat n \<longleftrightarrow> n \<noteq> 0" by (simp add: unat_gt_0)
  then show ?thesis
    unfolding memmove_def using memmove_loop_apply [OF unat_u32_less assms] by simp
qed

theorem memmove_keeps_first_byte_only_witness:
  "memmove ((\<lambda>_. 0)(100 := 97, 101 := 98)) 200 100 2 201 = 0"
  using memmove_keeps_first_byte_only [of 2 200 100 "(\<lambda>_. 0)(100 := 97, 101 := 98)" 201] by simp

end
