(* ===== verification/Bytes.thy ===== *)
theory Bytes
  imports Cstring
begin

text \<open>
  Little-endian 32-bit words in the byte memory: what a load or a store through an \<open>unsigned long *\<close>
  does, aligned or not. Two words are apart when neither starts inside the other; the lemmas are the
  laws of loads after stores that the memory management theories use.
\<close>

definition load32 :: "mem \<Rightarrow> u32 \<Rightarrow> u32" where
  "load32 m a = ucast (m a) OR push_bit 8 (ucast (m (a + 1))) OR
     push_bit 16 (ucast (m (a + 2))) OR push_bit 24 (ucast (m (a + 3)))"

definition store32 :: "mem \<Rightarrow> u32 \<Rightarrow> u32 \<Rightarrow> mem" where
  "store32 m a v = m(a := ucast v, a + 1 := ucast (drop_bit 8 v),
     a + 2 := ucast (drop_bit 16 v), a + 3 := ucast (drop_bit 24 v))"

definition apart :: "nat \<Rightarrow> u32 \<Rightarrow> u32 \<Rightarrow> bool" where
  "apart n a b \<longleftrightarrow> n \<le> unat (b - a) \<and> n \<le> unat (a - b)"

lemma apart_sym: "apart n a b \<Longrightarrow> apart n b a"
  by (simp add: apart_def)

lemma store32_apply:
  "store32 m a v x =
    (if x = a + 3 then ucast (drop_bit 24 v) else if x = a + 2 then ucast (drop_bit 16 v)
     else if x = a + 1 then ucast (drop_bit 8 v) else if x = a then ucast v else m x)"
  by (simp add: store32_def)

lemma offset_neq [simp]:
  "(a :: u32) + 1 \<noteq> a" "a + 2 \<noteq> a" "a + 3 \<noteq> a" "a + 1 \<noteq> a + 2" "a + 1 \<noteq> a + 3" "a + 2 \<noteq> a + 3"
  "a \<noteq> a + 1" "a \<noteq> a + 2" "a \<noteq> a + 3" "a + 2 \<noteq> a + 1" "a + 3 \<noteq> a + 1" "a + 3 \<noteq> a + 2"
  by simp_all

lemma word_of_bytes:
  fixes v :: u32
  shows "take_bit 8 v OR push_bit 8 (take_bit 8 (drop_bit 8 v)) OR
    push_bit 16 (take_bit 8 (drop_bit 16 v)) OR push_bit 24 (take_bit 8 (drop_bit 24 v)) = v"
proof (rule bit_eqI)
  fix n
  assume "possible_bit TYPE(u32) n"
  then have "n < 32" by simp
  then consider "n < 8" | "8 \<le> n" "n < 16" | "16 \<le> n" "n < 24" | "24 \<le> n" "n < 32" by linarith
  then show "bit (take_bit 8 v OR push_bit 8 (take_bit 8 (drop_bit 8 v)) OR
    push_bit 16 (take_bit 8 (drop_bit 16 v)) OR push_bit 24 (take_bit 8 (drop_bit 24 v))) n = bit v n"
    by cases (auto simp: bit_simps)
qed

lemma ucast_ucast_u8: "ucast (ucast (v :: u32) :: u8) = take_bit 8 v"
  by (rule bit_eqI) (auto simp: bit_simps)

lemma load_store_same [simp]: "load32 (store32 m a v) a = v"
  by (simp add: load32_def store32_apply ucast_ucast_u8 word_of_bytes)

lemma apart_4_neq:
  assumes "apart 4 a b"
  shows "b \<noteq> a" "b \<noteq> a + 1" "b \<noteq> a + 2" "b \<noteq> a + 3" "b + 1 \<noteq> a" "b + 2 \<noteq> a" "b + 3 \<noteq> a"
    "b - 1 \<noteq> a" "b - 2 \<noteq> a" "b - 3 \<noteq> a"
  using assms by (auto simp: apart_def)

lemma store32_other: "4 \<le> unat (x - a) \<Longrightarrow> store32 m a v x = m x"
  by (auto simp: store32_apply)

lemma load_store_other [simp]:
  assumes "apart 4 a b"
  shows "load32 (store32 m a v) b = load32 m b"
proof -
  have "b + 1 \<noteq> a + 1" "b + 1 \<noteq> a + 2" "b + 1 \<noteq> a + 3" "b + 2 \<noteq> a + 1" "b + 2 \<noteq> a + 2" "b + 2 \<noteq> a + 3"
    "b + 3 \<noteq> a + 1" "b + 3 \<noteq> a + 2" "b + 3 \<noteq> a + 3"
    using apart_4_neq [OF assms] by (auto simp: algebra_simps)
  with apart_4_neq [OF assms] show ?thesis
    by (simp only: load32_def store32_apply if_False)
qed

end
