(* ===== verification/Pages.thy ===== *)
theory Pages
  imports Bytes
begin

text \<open>
  The memory management state shared by \<open>kern/mem/alloc.c\<close> and \<open>kern/mem/paging.c\<close>, the early allocator,
  the stack of free page frames and the page tables of \<open>paging.c\<close>.

  Page directories, page tables, the frame stack and the heap's headers are words of one byte memory, at
  the addresses the kernel reaches them; a \<open>page_dir_t *\<close> is an address, \<open>dir->tables[i]\<close> is the word at
  \<open>dir + 4 * i\<close>. The allocator and the page tables call each other: \<open>map_page\<close> allocates a table with
  \<open>kmalloc\<close>, and \<open>malloc_f\<close> maps more pages when the heap is exhausted. The mapping operations therefore
  take the allocator as an argument here (\<open>map_page_with\<close>); theory \<open>Alloc\<close> closes the knot.
\<close>

section \<open>State\<close>

record heap_t =
  magics :: u32
  hsize :: u32
  used :: u32
  root :: u32
  full :: u8

record kmem =
  ram :: mem
  placement :: u32
  kheap :: "heap_t option"
  memused :: u32
  page_stack :: u32
  page_ptr :: u32
  stack_bottom :: u32
  npages :: u32
  kernel_dir :: u32
  current_dir :: u32

abbreviation (input) KHEAP_START :: u32 where "KHEAP_START \<equiv> 0xc0000000"
abbreviation (input) KHEAP_SIZE :: u32 where "KHEAP_SIZE \<equiv> 0x400000"
abbreviation (input) PAGE_SIZE :: u32 where "PAGE_SIZE \<equiv> 0x1000"

definition rd :: "kmem \<Rightarrow> u32 \<Rightarrow> u32" where
  "rd st a = load32 (ram st) a"

definition wr :: "u32 \<Rightarrow> u32 \<Rightarrow> kmem \<Rightarrow> kmem" where
  "wr a v st = st\<lparr>ram := store32 (ram st) a v\<rparr>"

text \<open>\<open>x & 0xfffff000\<close>, and the two indices of an address.\<close>

definition page_of :: "u32 \<Rightarrow> u32" where
  "page_of a = a AND 0xfffff000"

definition low_index :: "u32 \<Rightarrow> u32" where
  "low_index address = drop_bit 22 address"

definition high_index :: "u32 \<Rightarrow> u32" where
  "high_index address = drop_bit 12 address AND 0x3ff"

section \<open>The early allocator\<close>

text \<open>
  \<open>kmalloc_e\<close> returns the new state, the address and what it stores through \<open>physical\<close> when that pointer
  is given.
\<close>

definition kmalloc_e :: "u32 \<Rightarrow> u32 \<Rightarrow> kmem \<Rightarrow> kmem \<times> u32 \<times> u32" where
  "kmalloc_e sz align st =
    (let p = (if align \<noteq> 0 \<and> placement st AND 0xfff \<noteq> 0
              then (placement st AND 0xfffff000) + 0x1000 else placement st)
     in (st\<lparr>placement := p + sz\<rparr>, p, p))"

section \<open>The stack of free frames\<close>

definition push_page :: "u32 \<Rightarrow> kmem \<Rightarrow> kmem" where
  "push_page address st =
    (wr (page_stack st + 4 * page_ptr st) (address AND 0xfffff000) st)\<lparr>page_ptr := page_ptr st + 1\<rparr>"

definition pop_page :: "kmem \<Rightarrow> (kmem \<times> u32) exec" where
  "pop_page st =
    (if page_ptr st > stack_bottom st
     then let p = page_ptr st - 1 in Inr (st\<lparr>page_ptr := p\<rparr>, rd st (page_stack st + 4 * p))
     else Inl (PANIC ''out of free pages''))"

definition pop_bottom_page :: "kmem \<Rightarrow> (kmem \<times> u32) exec" where
  "pop_bottom_page st =
    (if stack_bottom st < npages st
     then Inr (st\<lparr>stack_bottom := stack_bottom st + 1\<rparr>, rd st (page_stack st + 4 * stack_bottom st))
     else Inl (PANIC ''out of free pages''))"

text \<open>
  \<open>check_pstack\<close> looks for a zero among the first \<open>npages - 200\<close> entries; \<open>i < npages - 200\<close> compares
  unsigned, so with fewer than 200 pages the bound wraps around. The last argument is the number of
  entries left.
\<close>

fun check_pstack_loop :: "kmem \<Rightarrow> u32 \<Rightarrow> nat \<Rightarrow> unit exec" where
  "check_pstack_loop st i 0 = Inr ()"
| "check_pstack_loop st i (Suc n) =
     (if rd st (page_stack st + 4 * i) = 0 then Inl (PANIC ''Panicing, debug this.'')
      else check_pstack_loop st (i + 1) n)"

definition check_pstack :: "kmem \<Rightarrow> unit exec" where
  "check_pstack st = check_pstack_loop st 0 (unat (npages st - 200))"

section \<open>Page tables\<close>

type_synonym alloc = "u32 \<Rightarrow> u32 \<Rightarrow> kmem \<Rightarrow> (kmem \<times> u32 \<times> u32) run"

definition tables_at :: "u32 \<Rightarrow> u32 \<Rightarrow> u32" where
  "tables_at dir i = dir + 4 * i"

definition table_addr_at :: "u32 \<Rightarrow> u32 \<Rightarrow> u32" where
  "table_addr_at dir i = dir + 0x1000 + 4 * i"

definition address_at :: "u32 \<Rightarrow> u32" where
  "address_at dir = dir + 0x2000"

text \<open>
  The first half of \<open>map_page\<close>, \<open>map_r_page\<close> and \<open>rmap_r_page\<close>: a missing table is allocated, cleared and
  entered; then the permission bits are masked off the pointer to the table. The result is the state and
  the masked pointer.
\<close>

definition ensure_table :: "alloc \<Rightarrow> u32 \<Rightarrow> u32 \<Rightarrow> u32 \<Rightarrow> kmem \<Rightarrow> (kmem \<times> u32) run" where
  "ensure_table kmalloc address permissions dir st =
    (let li = low_index address in
     and_then
       (if rd st (tables_at dir li) = 0 then
          and_then (kmalloc 4096 1 st) (\<lambda>(st1, t, temp).
            let st2 = wr (tables_at dir li) t st1;
                st3 = st2\<lparr>ram := memset (ram st2) (rd st2 (tables_at dir li)) 0 4096\<rparr>
            in done_with (wr (table_addr_at dir li) (temp OR permissions) st3))
        else done_with st)
       (\<lambda>st4. let t = page_of (rd st4 (tables_at dir li)) in done_with (wr (tables_at dir li) t st4, t)))"

definition map_page_with :: "alloc \<Rightarrow> u32 \<Rightarrow> u32 \<Rightarrow> u32 \<Rightarrow> kmem \<Rightarrow> kmem run" where
  "map_page_with kmalloc address permissions dir st =
    and_then (ensure_table kmalloc address permissions dir st) (\<lambda>(st1, t).
      let e = t + 4 * high_index address; li = low_index address in
      and_then
        (if rd st1 e = 0 then and_then (Some (pop_page st1)) (\<lambda>(st2, f). done_with (wr e f st2))
         else done_with st1)
        (\<lambda>st3. let st4 = wr e (rd st3 e OR permissions) st3
               in done_with (wr (tables_at dir li) (rd st4 (tables_at dir li) OR permissions) st4)))"

definition map_r_page_with :: "alloc \<Rightarrow> u32 \<Rightarrow> u32 \<Rightarrow> u32 \<Rightarrow> u32 \<Rightarrow> kmem \<Rightarrow> kmem run" where
  "map_r_page_with kmalloc address real permissions dir st =
    and_then (ensure_table kmalloc address permissions dir st) (\<lambda>(st1, t).
      let e = t + 4 * high_index address; li = low_index address;
          st2 = wr e real st1;
          st3 = wr e (rd st2 e OR permissions) st2
      in done_with (wr (tables_at dir li) (rd st3 (tables_at dir li) OR permissions) st3))"

definition rmap_r_page_with :: "alloc \<Rightarrow> u32 \<Rightarrow> u32 \<Rightarrow> u32 \<Rightarrow> kmem \<Rightarrow> kmem run" where
  "rmap_r_page_with kmalloc address real dir st =
    and_then (ensure_table kmalloc address (real AND 7) dir st) (\<lambda>(st1, t).
      let e = t + 4 * high_index address; li = low_index address;
          st2 = wr e real st1
      in done_with (wr (tables_at dir li) (rd st2 (tables_at dir li) OR (real AND 7)) st2))"

definition get_page :: "u32 \<Rightarrow> u32 \<Rightarrow> kmem \<Rightarrow> u32" where
  "get_page address dir st =
    (let temp = page_of (rd st (tables_at dir (low_index address)))
     in if temp = 0 then 0 else rd st (temp + 4 * (high_index address mod 1024)))"

text \<open>\<open>free_page\<close> goes through the pointer as it is stored, permission bits included.\<close>

definition free_page :: "u32 \<Rightarrow> u32 \<Rightarrow> kmem \<Rightarrow> kmem" where
  "free_page address dir st =
    (let t = rd st (tables_at dir (low_index address))
     in if t = 0 then st
        else push_page (address AND 0xfffff000)
               (wr (t + 4 * (high_index address mod 1024)) 0 st))"

text \<open>
  The loops over ranges: \<open>address < end\<close> with a wrapping \<open>address += 0x1000\<close>, which never ends when \<open>end\<close>
  is above \<open>0xfffff000\<close>.
\<close>

partial_function (option) map_pages_with :: "alloc \<Rightarrow> u32 \<Rightarrow> u32 \<Rightarrow> u32 \<Rightarrow> u32 \<Rightarrow> kmem \<Rightarrow> kmem run" where
  "map_pages_with kmalloc address en permissions dir st =
    (if address < en
     then and_then (map_page_with kmalloc address permissions dir st)
            (\<lambda>st1. map_pages_with kmalloc (address + 0x1000) en permissions dir st1)
     else done_with st)"

partial_function (option) map_r_pages_with ::
    "alloc \<Rightarrow> u32 \<Rightarrow> u32 \<Rightarrow> u32 \<Rightarrow> u32 \<Rightarrow> u32 \<Rightarrow> kmem \<Rightarrow> kmem run" where
  "map_r_pages_with kmalloc address r_address en permissions dir st =
    (if address < en
     then and_then (map_r_page_with kmalloc address r_address permissions dir st)
            (\<lambda>st1. map_r_pages_with kmalloc (address + 0x1000) (r_address + 0x1000) en permissions dir st1)
     else done_with st)"

partial_function (option) free_pages :: "u32 \<Rightarrow> u32 \<Rightarrow> u32 \<Rightarrow> kmem \<Rightarrow> kmem option" where
  "free_pages address en dir st =
    (if address < en then free_pages (address + 0x1000) en dir (free_page address dir st) else Some st)"

text \<open>\<open>kmalloc_e\<close> as the allocator of the mapping operations.\<close>

definition kmalloc_early :: alloc where
  "kmalloc_early sz align st = done_with (kmalloc_e sz align st)"

section \<open>Addresses\<close>

lemma page_mask: "(0xfffff000 :: u32) = push_bit 12 (mask 20)"
  by (simp add: mask_eq_exp_minus_1 push_bit_eq_mult)

lemma page_of_alt: "page_of a = push_bit 12 (drop_bit 12 a)"
  unfolding page_of_def page_mask by (rule bit_eqI) (auto simp: bit_simps)

lemma unat_page_of: "unat (page_of a) = unat a div 4096 * 4096"
proof -
  have "unat (page_of a) = take_bit 32 (push_bit 12 (unat a div 4096))"
    by (simp add: page_of_alt unsigned_push_bit_eq unsigned_drop_bit_eq drop_bit_eq_div unat_div)
  also have "\<dots> = unat a div 4096 * 4096"
    using unat_u32_less [of a] by (simp add: push_bit_eq_mult take_bit_nat_eq_self_iff) 
  finally show ?thesis .
qed

lemma unat_low_index: "unat (low_index a) = unat a div 2 ^ 22"
  by (simp add: low_index_def unsigned_drop_bit_eq drop_bit_eq_div unat_div)

lemma and_3ff: "x AND 0x3ff = take_bit 10 (x :: u32)"
proof -
  have "(0x3ff :: u32) = mask 10" by (simp add: mask_eq_exp_minus_1)
  then show ?thesis by (simp add: take_bit_eq_mask)
qed

lemma unat_high_index: "unat (high_index a) = unat a div 4096 mod 1024"
  by (simp add: high_index_def and_3ff unsigned_take_bit_eq unsigned_drop_bit_eq drop_bit_eq_div take_bit_eq_mod unat_div unat_mod)

lemma and_fff: "x AND 0xfff = take_bit 12 (x :: u32)"
proof -
  have "(0xfff :: u32) = mask 12" by (simp add: mask_eq_exp_minus_1)
  then show ?thesis by (simp add: take_bit_eq_mask)
qed

lemma and_fff_0: "x AND 0xfff = 0 \<longleftrightarrow> 4096 dvd unat (x :: u32)"
  by (simp add: and_fff word_unat_eq_iff unsigned_take_bit_eq take_bit_eq_mod unat_mod dvd_eq_mod_eq_0)

lemma rd_fields [simp]: "rd (st\<lparr>placement := p\<rparr>) a = rd st a" "rd (st\<lparr>page_ptr := q\<rparr>) a = rd st a"
  "rd (st\<lparr>stack_bottom := q\<rparr>) a = rd st a" "rd (st\<lparr>kheap := h\<rparr>) a = rd st a"
  "rd (st\<lparr>memused := q\<rparr>) a = rd st a" "rd (st\<lparr>current_dir := q\<rparr>) a = rd st a"
  "rd (st\<lparr>kernel_dir := q\<rparr>) a = rd st a" "rd (st\<lparr>page_stack := q\<rparr>) a = rd st a"
  "rd (st\<lparr>npages := q\<rparr>) a = rd st a"
  by (simp_all add: rd_def)

lemma wr_fields [simp]: "placement (wr a v st) = placement st" "page_ptr (wr a v st) = page_ptr st"
  "stack_bottom (wr a v st) = stack_bottom st" "kheap (wr a v st) = kheap st"
  "memused (wr a v st) = memused st" "current_dir (wr a v st) = current_dir st"
  "kernel_dir (wr a v st) = kernel_dir st" "page_stack (wr a v st) = page_stack st"
  "npages (wr a v st) = npages st"
  by (simp_all add: wr_def)

lemma unat_minus_cases:
  "unat ((b :: u32) - a) = (if unat a \<le> unat b then unat b - unat a else unat b + 2 ^ 32 - unat a)"
  by (simp add: unat_sub_if')

lemma aligned_apart:
  assumes "4 dvd unat a" "4 dvd unat b" "a \<noteq> b"
  shows "apart 4 a b"
proof -
  have "unat a \<noteq> unat b" using assms(3) by (simp add: word_unat_eq_iff)
  then show ?thesis using assms(1,2) unat_u32_less [of a] unat_u32_less [of b]
    by (auto simp: apart_def unat_minus_cases elim!: dvdE)
qed

lemma rd_wr:
  "4 dvd unat a \<Longrightarrow> 4 dvd unat b \<Longrightarrow> rd (wr a v st) b = (if a = b then v else rd st b)"
  by (auto simp: rd_def wr_def aligned_apart)

definition page_aligned :: "u32 \<Rightarrow> bool" where
  "page_aligned p \<longleftrightarrow> 4096 dvd unat p"

lemma page_of_aligned [simp]: "page_aligned (page_of a)"
  by (simp add: page_aligned_def unat_page_of)

lemma unat_page_offset:
  assumes "page_aligned p" "unat i < 1024"
  shows "unat (p + 4 * i) = unat p + 4 * unat i"
proof -
  have "unat (4 * i) = 4 * unat i" using assms(2) by (simp add: unat_word_ariths)
  moreover have "unat p + 4 * unat i < 2 ^ 32"
    using assms unat_u32_less [of p] by (auto simp: page_aligned_def elim!: dvdE)
  ultimately show ?thesis by (simp add: unat_add_lem [THEN iffD1])
qed

lemma page_offset_aligned:
  "page_aligned p \<Longrightarrow> unat i < 1024 \<Longrightarrow> 4 dvd unat (p + 4 * i)"
  by (auto simp: unat_page_offset page_aligned_def elim!: dvdE)

lemma page_of_offset:
  assumes "page_aligned p" "unat i < 1024" shows "page_of (p + 4 * i) = p"
  using assms by (simp add: word_unat_eq_iff unat_page_of unat_page_offset) (auto simp: page_aligned_def elim!: dvdE)

lemma page_offset_eq:
  assumes "page_aligned p" "page_aligned q" "unat i < 1024" "unat j < 1024"
  shows "p + 4 * i = q + 4 * j \<longleftrightarrow> p = q \<and> i = j"
proof
  assume eq: "p + 4 * i = q + 4 * j"
  then have "page_of (p + 4 * i) = page_of (q + 4 * j)" by simp
  then have "p = q" using assms by (simp add: page_of_offset)
  moreover from eq this have "4 * unat i = 4 * unat j"
    using assms unat_page_offset by (metis add_left_cancel)
  ultimately show "p = q \<and> i = j" by (simp add: word_unat_eq_iff)
qed simp

lemma index_less [simp]: "unat (low_index a) < 1024" "unat (high_index a) < 1024"
  "low_index a < 1024" "high_index a mod 1024 = high_index a"
proof -
  show "unat (low_index a) < 1024" using unat_u32_less [of a]
    by (simp add: unat_low_index div_less_iff_less_mult)
  then show "low_index a < 1024" by (simp add: word_less_nat_alt)
  show h: "unat (high_index a) < 1024" by (simp add: unat_high_index)
  then show "high_index a mod 1024 = high_index a" by (simp add: mod_word_less word_less_nat_alt)
qed

lemma page_eq_iff: "page_of a = page_of b \<longleftrightarrow> low_index a = low_index b \<and> high_index a = high_index b"
proof -
  have "page_of a = page_of b \<longleftrightarrow> unat a div 4096 = unat b div 4096"
    by (simp add: word_unat_eq_iff unat_page_of)
  also have "\<dots> \<longleftrightarrow> unat a div 4096 div 1024 = unat b div 4096 div 1024 \<and>
      unat a div 4096 mod 1024 = unat b div 4096 mod 1024"
    by (metis div_mult_mod_eq)
  finally show ?thesis by (simp add: word_unat_eq_iff unat_low_index unat_high_index div_mult2_eq [symmetric])
qed

lemma memset_page_rd:
  assumes "page_aligned p" "4 dvd unat b"
  shows "rd (st\<lparr>ram := memset (ram st) p 0 4096\<rparr>) b = (if page_of b = p then 0 else rd st b)"
proof -
  have b: "unat (b + k) = unat b + unat k" if "unat k < 4" for k
    using assms(2) that unat_u32_less [of b] by (subst unat_add_lem [THEN iffD1]) (auto elim!: dvdE)
  have pb: "page_of b = p \<longleftrightarrow> unat b div 4096 * 4096 = unat p"
    by (simp add: word_unat_eq_iff unat_page_of)
  have "unat (b + k - p) < 4096 \<longleftrightarrow> page_of b = p" if "unat k < 4" for k
    using assms b [OF that] that unat_u32_less [of p] unat_u32_less [of b] unfolding pb
    by (auto simp: unat_minus_cases page_aligned_def elim!: dvdE)
  from this [of 0] this [of 1] this [of 2] this [of 3] show ?thesis
    by (simp add: rd_def load32_def memset_apply)
qed

end
