(* ===== verification/Page_Dir.thy ===== *)
theory Page_Dir
  imports Pages
begin

text \<open>
  Page directories in memory. \<open>dir_ok\<close> says that a directory, its tables and the frame stack occupy distinct
  pages below the placement pointer; the lemmas show that mapping with the early allocator keeps it
  and changes exactly the mapping it is asked to change, that ranges of unmapped pages get the frames
  from the top of the stack in order, that the frame stack is a stack, and what \<open>free_page\<close> does.
\<close>

section \<open>Directories\<close>

abbreviation dir_entry :: "kmem \<Rightarrow> u32 \<Rightarrow> u32 \<Rightarrow> u32" where
  "dir_entry st dir i \<equiv> rd st (tables_at dir i)"

definition slot :: "kmem \<Rightarrow> u32 \<Rightarrow> u32" where
  "slot st i = page_stack st + 4 * i"

lemma slot_fields [simp]: "slot (st\<lparr>placement := p\<rparr>) = slot st" "slot (st\<lparr>page_ptr := p\<rparr>) = slot st"
  "slot (wr a v st) = slot st"
  by (simp_all add: slot_def fun_eq_iff)

lemma slot_cong: "page_stack st' = page_stack st \<Longrightarrow> slot st' = slot st"
  by (simp add: slot_def fun_eq_iff)

lemma get_page_same_page: "page_of a = page_of b \<Longrightarrow> get_page a dir st = get_page b dir st"
  by (simp add: page_eq_iff get_page_def Let_def)

definition reserved :: "kmem \<Rightarrow> u32 \<Rightarrow> u32 set" where
  "reserved st dir = {dir, dir + 0x1000, dir + 0x2000} \<union> {page_of (slot st i) | i. i \<le> npages st}"

definition dir_ok :: "kmem \<Rightarrow> u32 \<Rightarrow> bool" where
  "dir_ok st dir \<longleftrightarrow>
     page_aligned dir \<and> unat dir + 0x2000 < unat (placement st) \<and>
     4 dvd unat (page_stack st) \<and> unat (page_ptr st) \<le> unat (npages st) + 1 \<and>
     (\<forall>i \<le> npages st. page_of (slot st i) \<notin> {dir, dir + 0x1000} \<and>
        unat (page_of (slot st i)) < unat (placement st)) \<and>
     (\<forall>i<1024. dir_entry st dir i \<noteq> 0 \<longrightarrow>
        page_of (dir_entry st dir i) \<notin> insert 0 (reserved st dir) \<and>
        unat (page_of (dir_entry st dir i)) < unat (placement st)) \<and>
     (\<forall>i<1024. \<forall>j<1024. dir_entry st dir i \<noteq> 0 \<and>
        page_of (dir_entry st dir i) = page_of (dir_entry st dir j) \<longrightarrow> i = j)"

lemma aligned_dvd4: "page_aligned p \<Longrightarrow> 4 dvd unat p"
  by (auto simp: page_aligned_def elim!: dvdE)

lemma dvd4_offset: "4 dvd unat (a :: u32) \<Longrightarrow> 4 dvd unat (a + 4 * i)"
  by (simp add: unat_word_ariths dvd_mod)

lemma tables_at_dvd: "page_aligned dir \<Longrightarrow> 4 dvd unat (tables_at dir i)"
  by (simp add: tables_at_def dvd4_offset aligned_dvd4)

lemma unat_next_page:
  assumes "page_aligned p" "unat p + 0x1000 < 2 ^ 32" shows "unat (p + 0x1000) = unat p + 0x1000"
  using assms by (simp add: unat_add_lem [THEN iffD1])

lemma next_page_aligned:
  "page_aligned p \<Longrightarrow> unat p + 0x1000 < 2 ^ 32 \<Longrightarrow> page_aligned (p + 0x1000)"
  by (simp add: page_aligned_def unat_next_page)

lemma page_of_0_iff: "page_aligned p \<Longrightarrow> page_of p = p"
  using page_of_offset [of p 0] by simp

lemma page_of_zero [simp]: "page_of 0 = 0"
  by (simp add: page_of_def)

lemma page_of_page_of [simp]: "page_of (page_of a) = page_of a"
  by (simp add: page_of_0_iff)

lemma page_of_or:
  assumes "perms < 0x1000" shows "page_of (x OR perms) = page_of x"
proof -
  have "drop_bit 12 perms = 0"
    using assms by (simp add: word_unat_eq_iff unsigned_drop_bit_eq drop_bit_eq_div unat_div word_less_nat_alt)
  then show ?thesis by (simp add: page_of_alt drop_bit_or)
qed

definition align_up :: "u32 \<Rightarrow> u32" where
  "align_up p = (if p AND 0xfff \<noteq> 0 then (p AND 0xfffff000) + 0x1000 else p)"

lemma align_up:
  assumes "unat p + 0x1000 < 2 ^ 32"
  shows "page_aligned (align_up p)" "unat p \<le> unat (align_up p)" "unat (align_up p) < unat p + 0x1000"
proof -
  have up: "unat (page_of p + 0x1000) = unat (page_of p) + 0x1000"
    using assms by (intro unat_next_page) (auto simp: unat_page_of)
  have a: "align_up p = (if 4096 dvd unat p then p else page_of p + 0x1000)"
    by (simp add: align_up_def and_fff_0 page_of_def)
  show "page_aligned (align_up p)"
    using next_page_aligned [of "page_of p"] assms by (simp add: a page_aligned_def unat_page_of up)
  define q r where "q = unat p div 4096" and "r = unat p mod 4096"
  have "unat p = q * 4096 + r" "r < 4096" "4096 dvd unat p \<longleftrightarrow> r = 0" "unat (page_of p) = q * 4096"
    by (simp_all add: q_def r_def unat_page_of dvd_eq_mod_eq_0)
  then show "unat p \<le> unat (align_up p)" "unat (align_up p) < unat p + 0x1000"
    by (auto simp: a up)
qed

lemma kmalloc_e_aligned: "kmalloc_e sz 1 st = (st\<lparr>placement := align_up (placement st) + sz\<rparr>, align_up (placement st), align_up (placement st))"
  by (simp add: kmalloc_e_def align_up_def Let_def)


lemma dir_okD:
  assumes "dir_ok st dir"
  shows "page_aligned dir" "unat dir + 0x1000 < unat (placement st)" "unat dir + 0x1000 < 2 ^ 32"
    "page_aligned (dir + 0x1000)" "unat (dir + 0x1000) = unat dir + 0x1000" "dir + 0x1000 \<noteq> dir"
    "4 dvd unat (page_stack st)" "unat (page_ptr st) \<le> unat (npages st) + 1"
    "unat dir + 0x2000 < unat (placement st)" "unat (dir + 0x2000) = unat dir + 0x2000"
    "page_aligned (dir + 0x2000)"
proof -
  show *: "page_aligned dir" "unat dir + 0x1000 < unat (placement st)" "4 dvd unat (page_stack st)"
    "unat (page_ptr st) \<le> unat (npages st) + 1" "unat dir + 0x2000 < unat (placement st)"
    using assms by (simp_all add: dir_ok_def)
  then have "unat dir + unat (0x2000 :: u32) < 2 ^ 32" using unat_u32_less [of "placement st"] by simp
  then show d2: "unat (dir + 0x2000) = unat dir + 0x2000" by (simp add: unat_add_lem [THEN iffD1])
  then show "page_aligned (dir + 0x2000)" using * by (simp add: page_aligned_def)
  show **: "unat dir + 0x1000 < 2 ^ 32" using * unat_u32_less [of "placement st"] by linarith
  show "page_aligned (dir + 0x1000)" "unat (dir + 0x1000) = unat dir + 0x1000" "dir + 0x1000 \<noteq> dir"
    using * ** by (simp_all add: next_page_aligned unat_next_page)
qed

lemma dir_ok_slot:
  assumes "dir_ok st dir" "i \<le> npages st"
  shows "page_of (slot st i) \<noteq> dir" "page_of (slot st i) \<noteq> dir + 0x1000"
    "unat (page_of (slot st i)) < unat (placement st)" "4 dvd unat (slot st i)"
  using assms by (auto simp: dir_ok_def slot_def dvd4_offset)

lemma dir_ok_table:
  assumes "dir_ok st dir" "i < 1024" "dir_entry st dir i \<noteq> 0"
  shows "page_of (dir_entry st dir i) \<noteq> 0" "page_of (dir_entry st dir i) \<noteq> dir"
    "page_of (dir_entry st dir i) \<noteq> dir + 0x1000"
    "k \<le> npages st \<Longrightarrow> page_of (slot st k) \<noteq> page_of (dir_entry st dir i)"
    "unat (page_of (dir_entry st dir i)) < unat (placement st)"
    "j < 1024 \<Longrightarrow> page_of (dir_entry st dir i) = page_of (dir_entry st dir j) \<longleftrightarrow> i = j"
    "page_of (dir_entry st dir i) \<noteq> dir + 0x2000"
  using assms unfolding dir_ok_def reserved_def by (auto; blast)+

text \<open>Writes seen through the directory.\<close>

lemma page_neq_addr: "page_of a \<noteq> page_of b \<Longrightarrow> a \<noteq> b"
  by auto

lemma u32_less_1024 [simp]: "(i :: u32) < 1024 \<longleftrightarrow> unat i < 1024"
  by (simp add: word_less_nat_alt)

lemma rd_wr_in_page:
  assumes "page_aligned p" "page_aligned q" "unat i < 1024" "unat j < 1024"
  shows "rd (wr (p + 4 * i) v st) (q + 4 * j) = (if p = q \<and> i = j then v else rd st (q + 4 * j))"
  using assms by (simp add: rd_wr page_offset_aligned page_offset_eq)

lemma rd_wr_slot:
  assumes "page_aligned p" "unat i < 1024" "4 dvd unat b" "page_of b \<noteq> p"
  shows "rd (wr (p + 4 * i) v st) b = rd st b"
  using assms page_of_offset [OF assms(1,2)] by (auto simp: rd_wr page_offset_aligned)

definition same_pool :: "kmem \<Rightarrow> kmem \<Rightarrow> bool" where
  "same_pool st st' \<longleftrightarrow> page_stack st' = page_stack st \<and> npages st' = npages st \<and>
     page_ptr st' = page_ptr st \<and> stack_bottom st' = stack_bottom st \<and> 
     (\<forall>k \<le> npages st. rd st' (slot st k) = rd st (slot st k))"

lemma dir_ok_cong:
  assumes "dir_ok st dir" and "page_stack st' = page_stack st" "npages st' = npages st"
    "unat (page_ptr st') \<le> unat (npages st) + 1" "placement st' = placement st"
    and "\<And>i. i < 1024 \<Longrightarrow> page_of (dir_entry st' dir i) = page_of (dir_entry st dir i) \<and>
      (dir_entry st' dir i = 0 \<longleftrightarrow> dir_entry st dir i = 0)"
  shows "dir_ok st' dir"
  using assms(1) unfolding dir_ok_def reserved_def slot_cong [OF assms(2)] assms(2,3,5)
  using assms(4) by (simp add: assms(6) del: u32_less_1024)

definition table_ready :: "kmem \<Rightarrow> u32 \<Rightarrow> u32 \<Rightarrow> u32 \<Rightarrow> bool" where
  "table_ready st dir li t \<longleftrightarrow> dir_ok st dir \<and> dir_entry st dir li = t \<and> t \<noteq> 0 \<and> page_aligned t"

lemma rd_dir_wr_dir:
  assumes "page_aligned dir" "i < 1024" "j < 1024"
  shows "dir_entry (wr (tables_at dir i) v st) dir j = (if i = j then v else dir_entry st dir j)"
  using assms by (simp add: tables_at_def rd_wr_in_page)

lemma get_page_cong:
  assumes "dir_ok st dir"
    and "\<And>i. i < 1024 \<Longrightarrow> page_of (dir_entry st' dir i) = page_of (dir_entry st dir i)"
    and "\<And>i j. i < 1024 \<Longrightarrow> j < 1024 \<Longrightarrow> dir_entry st dir i \<noteq> 0 \<Longrightarrow>
      rd st' (page_of (dir_entry st dir i) + 4 * j) = rd st (page_of (dir_entry st dir i) + 4 * j)"
  shows "get_page b dir st' = get_page b dir st"
proof -
  have "page_of 0 = 0" by (simp add: page_of_def)
  then show ?thesis using assms(2) [of "low_index b"] assms(3) [of "low_index b" "high_index b"]
    by (cases "dir_entry st dir (low_index b) = 0") (simp_all add: get_page_def Let_def)
qed

lemma mask_entry:
  assumes "dir_ok st dir" "li < 1024" "dir_entry st dir li \<noteq> 0"
  defines "t \<equiv> page_of (dir_entry st dir li)"
  defines "st' \<equiv> wr (tables_at dir li) t st"
  shows "table_ready st' dir li t" "get_page b dir st' = get_page b dir st" "same_pool st st'"
    "placement st' = placement st"
    "i < 1024 \<Longrightarrow> i \<noteq> li \<Longrightarrow> dir_entry st' dir i = dir_entry st dir i"
proof -
  note d = dir_okD [OF assms(1)]
  note t = dir_ok_table [OF assms(1-3), folded t_def]
  have t_al: "page_aligned t" "page_of t = t" by (simp_all add: t_def page_of_0_iff)
  have ent: "dir_entry st' dir i = (if i = li then t else dir_entry st dir i)" if "i < 1024" for i
    using that assms(2) d by (auto simp: st'_def rd_dir_wr_dir)
  have ok: "dir_ok st' dir"
    by (rule dir_ok_cong [OF assms(1)]) (use d ent t t_al assms(3) in \<open>auto simp: st'_def t_def\<close>)
  then show "table_ready st' dir li t"
    using ent [OF assms(2)] t t_al by (simp add: table_ready_def)
  show "placement st' = placement st" by (simp add: st'_def)
  show "i < 1024 \<Longrightarrow> i \<noteq> li \<Longrightarrow> dir_entry st' dir i = dir_entry st dir i"
    by (simp add: ent)
  have far: "rd st' b = rd st b" if "4 dvd unat b" "page_of b \<noteq> dir" for b
    using that assms(2) d by (simp add: st'_def tables_at_def rd_wr_slot)
  show "same_pool st st'"
    using dir_ok_slot [OF assms(1)] by (simp add: same_pool_def far) (simp add: st'_def)
  show "get_page b dir st' = get_page b dir st"
  proof (rule get_page_cong [OF assms(1)])
    fix i j :: u32
    assume "i < 1024"
    then show "page_of (dir_entry st' dir i) = page_of (dir_entry st dir i)"
      by (simp add: ent t_def)
  next
    fix i j :: u32
    assume "i < 1024" "j < 1024" "dir_entry st dir i \<noteq> 0"
    then show "rd st' (page_of (dir_entry st dir i) + 4 * j) = rd st (page_of (dir_entry st dir i) + 4 * j)"
      using dir_ok_table [OF assms(1), of i] by (intro far) (simp_all add: page_offset_aligned page_of_offset)
  qed
qed

definition fresh_table :: "u32 \<Rightarrow> u32 \<Rightarrow> u32 \<Rightarrow> kmem \<Rightarrow> kmem" where
  "fresh_table li permissions dir st =
    (let t = align_up (placement st);
         st2 = wr (tables_at dir li) t (st\<lparr>placement := t + 0x1000\<rparr>);
         st3 = st2\<lparr>ram := memset (ram st2) t 0 4096\<rparr>
     in wr (tables_at dir li) t (wr (table_addr_at dir li) (t OR permissions) st3))"

lemma ram_upd_fields [simp]: "placement (st\<lparr>ram := m\<rparr>) = placement st"
  by simp

lemma fresh_table_rd:
  assumes "dir_ok st dir" "li < 1024" "unat (placement st) + 0x2000 < 2 ^ 32" "4 dvd unat b"
  shows "rd (fresh_table li perms dir st) b =
    (if b = tables_at dir li then align_up (placement st)
     else if b = table_addr_at dir li then align_up (placement st) OR perms
     else if page_of b = align_up (placement st) then 0 else rd st b)"
proof -
  note d = dir_okD [OF assms(1)]
  have al: "page_aligned (align_up (placement st))" using assms(3) by (simp add: align_up)
  have [simp]: "4 dvd unat (tables_at dir li)" "4 dvd unat (table_addr_at dir li)"
    using d by (simp_all add: tables_at_def table_addr_at_def dvd4_offset aligned_dvd4)
  show ?thesis using assms(4)
    by (simp add: fresh_table_def Let_def rd_wr memset_page_rd [OF al])
qed

lemma fresh_table_fields [simp]:
  "placement (fresh_table li perms dir st) = align_up (placement st) + 0x1000"
  "page_stack (fresh_table li perms dir st) = page_stack st"
  "page_ptr (fresh_table li perms dir st) = page_ptr st"
  "npages (fresh_table li perms dir st) = npages st"
  "stack_bottom (fresh_table li perms dir st) = stack_bottom st"
  by (simp_all add: fresh_table_def Let_def)

lemma fresh_table_slot [simp]: "slot (fresh_table li perms dir st) = slot st"
  by (rule slot_cong) simp

lemma tables_at_page:
  assumes "dir_ok st dir" "i < 1024"
  shows "page_of (tables_at dir i) = dir" "page_of (table_addr_at dir i) = dir + 0x1000"
    "4 dvd unat (tables_at dir i)" "4 dvd unat (table_addr_at dir i)"
    "j < 1024 \<Longrightarrow> tables_at dir j = tables_at dir i \<longleftrightarrow> j = i"
  using dir_okD [OF assms(1)] assms(2) page_offset_eq [of dir dir j i] aligned_dvd4 [of "dir + 0x1000"]
  by (simp_all only: tables_at_def table_addr_at_def page_of_offset dvd4_offset aligned_dvd4 u32_less_1024 simp_thms)

text \<open>Every page in use lies below the placement pointer, so the new table is none of them.\<close>

lemma new_page_facts:
  assumes "dir_ok st dir" "unat (placement st) + 0x2000 < 2 ^ 32"
  defines "t \<equiv> align_up (placement st)"
  shows "page_aligned t" "page_of t = t" "t \<noteq> 0" "dir \<noteq> t" "dir + 0x1000 \<noteq> t"
    "unat (t + 0x1000) = unat t + 0x1000" "unat (placement st) \<le> unat t"
    "unat (t + 0x1000) \<le> unat (placement st) + 0x2000"
    "k \<le> npages st \<Longrightarrow> page_of (slot st k) \<noteq> t"
    "i < 1024 \<Longrightarrow> dir_entry st dir i \<noteq> 0 \<Longrightarrow> page_of (dir_entry st dir i) \<noteq> t"
    "dir + 0x2000 \<noteq> t"
proof -
  note d = dir_okD [OF assms(1)]
  show t: "page_aligned t" "unat (placement st) \<le> unat t"
    using align_up [of "placement st"] assms(2) by (simp_all add: t_def)
  have t': "unat t < unat (placement st) + 0x1000"
    using align_up [of "placement st"] assms(2) by (simp add: t_def)
  show "page_of t = t" using t by (simp add: page_of_0_iff)
  show "t \<noteq> 0" using t(2) d(2) by auto
  show ut: "unat (t + 0x1000) = unat t + 0x1000" using t t' assms(2) by (intro unat_next_page) auto
  then show "unat (t + 0x1000) \<le> unat (placement st) + 0x2000" using t' by simp
  have below: "unat x < unat (placement st) \<Longrightarrow> x \<noteq> t" for x using t(2) by auto
  show "dir \<noteq> t" "dir + 0x1000 \<noteq> t" "dir + 0x2000 \<noteq> t" using d by (auto intro!: below)
  show "k \<le> npages st \<Longrightarrow> page_of (slot st k) \<noteq> t"
    using dir_ok_slot [OF assms(1)] by (auto intro!: below)
  show "i < 1024 \<Longrightarrow> dir_entry st dir i \<noteq> 0 \<Longrightarrow> page_of (dir_entry st dir i) \<noteq> t"
    using dir_ok_table [OF assms(1)] by (auto intro!: below)
qed

lemma fresh_table_entry:
  assumes "dir_ok st dir" "li < 1024" "unat (placement st) + 0x2000 < 2 ^ 32" "i < 1024"
  shows "dir_entry (fresh_table li perms dir st) dir i =
    (if i = li then align_up (placement st) else dir_entry st dir i)"
proof -
  note n = new_page_facts [OF assms(1,3)]
  note pg = tables_at_page [OF assms(1,2)] tables_at_page [OF assms(1,4)]
  have "tables_at dir i \<noteq> table_addr_at dir li"
    using pg dir_okD(6) [OF assms(1)] by (auto dest: arg_cong [of _ _ page_of])
  with pg n(4) show ?thesis using assms(2,4) by (simp add: fresh_table_rd [OF assms(1-3)])
qed

lemma fresh_table_far:
  assumes "dir_ok st dir" "li < 1024" "unat (placement st) + 0x2000 < 2 ^ 32"
    and "4 dvd unat b" "page_of b \<notin> {dir, dir + 0x1000, align_up (placement st)}"
  shows "rd (fresh_table li perms dir st) b = rd st b"
  using assms(4,5) tables_at_page [OF assms(1,2)] by (auto simp: fresh_table_rd [OF assms(1-3)])

lemma fresh_table_ok:
  assumes "dir_ok st dir" "li < 1024" "unat (placement st) + 0x2000 < 2 ^ 32" 
  shows "dir_ok (fresh_table li perms dir st) dir"
proof -
  let ?st = "fresh_table li perms dir st" and ?t = "align_up (placement st)"
  note d = dir_okD [OF assms(1)] and n = new_page_facts [OF assms(1,3)]
  note ent = fresh_table_entry [OF assms(1-3), of _ perms] and tab = dir_ok_table [OF assms(1)]
  have "page_of (slot st k) \<notin> {dir, dir + 0x1000} \<and> unat (page_of (slot st k)) < unat (placement ?st)"
    if "k \<le> npages st" for k
    using dir_ok_slot [OF assms(1) that] n(6,7) by simp
  moreover have "page_of (dir_entry ?st dir i) \<notin> insert 0 (reserved ?st dir) \<and>
      unat (page_of (dir_entry ?st dir i)) < unat (placement ?st)"
    if i: "i < 1024" "dir_entry ?st dir i \<noteq> 0" for i
  proof (cases "i = li")
    case True
    then show ?thesis using n ent [OF i(1)] by (auto simp: reserved_def) metis
  next
    case False
    then have "dir_entry ?st dir i = dir_entry st dir i" using ent [OF i(1)] by simp
    then show ?thesis using i tab [OF i(1)] n(6,7) by (auto simp: reserved_def) metis
  qed
  moreover have "i = j" if "i < 1024" "j < 1024" "dir_entry ?st dir i \<noteq> 0"
      "page_of (dir_entry ?st dir i) = page_of (dir_entry ?st dir j)" for i j
  proof -
    from that tab(1,6) [OF that(1)] n(2,3,10) show ?thesis
      by (auto simp: ent [OF that(1)] ent [OF that(2)] split: if_splits) (metis page_of_zero)+
  qed
  ultimately show ?thesis
    using d n(6,7) unfolding dir_ok_def by (simp del: u32_less_1024)
qed

lemma fresh_table:
  fixes perms :: u32
  assumes "dir_ok st dir" "li < 1024" "dir_entry st dir li = 0" "unat (placement st) + 0x2000 < 2 ^ 32"
  defines "t \<equiv> align_up (placement st)" and "st' \<equiv> fresh_table li perms dir st"
  shows "table_ready st' dir li t" "get_page b dir st' = get_page b dir st" "same_pool st st'"
    "unat (placement st') \<le> unat (placement st) + 0x2000"
    "i < 1024 \<Longrightarrow> i \<noteq> li \<Longrightarrow> dir_entry st' dir i = dir_entry st dir i"
proof -
  note n = new_page_facts [OF assms(1,4), folded t_def]
  note ent = fresh_table_entry [OF assms(1,2,4), of _ perms, folded t_def st'_def]
  note far = fresh_table_far [OF assms(1,2,4), of _ perms, folded t_def st'_def]
  show "table_ready st' dir li t"
    using ent [OF assms(2)] n fresh_table_ok [OF assms(1,2,4)] by (simp add: table_ready_def st'_def)
  show "same_pool st st'"
    using far dir_ok_slot [OF assms(1)] n(9) by (simp add: same_pool_def) (simp add: st'_def)
  show "unat (placement st') \<le> unat (placement st) + 0x2000" using n(8) by (simp add: st'_def t_def)
  show "i < 1024 \<Longrightarrow> i \<noteq> li \<Longrightarrow> dir_entry st' dir i = dir_entry st dir i" by (simp add: ent)
  show "get_page b dir st' = get_page b dir st"
  proof (cases "dir_entry st dir (low_index b) = 0")
    case True
    have b: "page_of (t + 4 * high_index b) = t" "4 dvd unat (t + 4 * high_index b)"
      using n by (simp_all add: page_of_offset page_offset_aligned)
    have "rd st' (t + 4 * high_index b) = 0"
      using fresh_table_rd [OF assms(1,2,4) b(2), of perms, folded t_def st'_def] b(1) n
        tables_at_page [OF assms(1,2)] by (auto split: if_splits)
    with True show ?thesis by (simp add: get_page_def Let_def ent n)
  next
    case False
    then have "low_index b \<noteq> li" using assms(3) by auto
    moreover have "rd st' (page_of (dir_entry st dir (low_index b)) + 4 * high_index b) =
        rd st (page_of (dir_entry st dir (low_index b)) + 4 * high_index b)"
      using dir_ok_table [OF assms(1) _ False] n(10) [OF _ False]
      by (intro far) (simp_all add: page_of_offset page_offset_aligned)
    ultimately show ?thesis by (simp add: get_page_def Let_def ent)
  qed
qed

lemma ensure_table_fresh:
  assumes "dir_ok st dir" "unat (placement st) + 0x2000 < 2 ^ 32" "dir_entry st dir (low_index a) = 0"
  shows "ensure_table kmalloc_early a perms dir st = done_with (fresh_table (low_index a) perms dir st, align_up (placement st))"
proof -
  let ?li = "low_index a"
  note d = dir_okD [OF assms(1)] and n = new_page_facts [OF assms(1,2)]
  note pg = tables_at_page [OF assms(1), of ?li]
  have "table_addr_at dir ?li \<noteq> tables_at dir ?li"
    using pg d(6) by (auto dest: arg_cong [of _ _ page_of])
  then show ?thesis
    using assms(3) pg n
    by (simp add: ensure_table_def Let_def kmalloc_early_def kmalloc_e_aligned fresh_table_def rd_wr memset_page_rd)
qed

text \<open>\<open>ensure_table\<close> with the early allocator: the table is there, and nothing that was mapped changes.\<close>

lemma ensure_table_early:
  assumes "dir_ok st dir" "unat (placement st) + 0x2000 < 2 ^ 32" "perms < 0x1000"
  obtains st1 t where "ensure_table kmalloc_early a perms dir st = done_with (st1, t)"
    "table_ready st1 dir (low_index a) t" "\<And>b. get_page b dir st1 = get_page b dir st" "same_pool st st1"
    "unat (placement st1) \<le> unat (placement st) + 0x2000"
    "\<And>i. i < 1024 \<Longrightarrow> i \<noteq> low_index a \<Longrightarrow> dir_entry st1 dir i = dir_entry st dir i"
proof (cases "dir_entry st dir (low_index a) = 0")
  case True
  with ensure_table_fresh [OF assms(1,2) True] fresh_table [OF assms(1) _ True assms(2)] that show thesis by simp
next
  case False
  with mask_entry [OF assms(1) _ False] that show thesis
    by (simp add: ensure_table_def Let_def)
qed

text \<open>Setting one entry of a table that is in place.\<close>

definition set_entry :: "u32 \<Rightarrow> u32 \<Rightarrow> u32 \<Rightarrow> u32 \<Rightarrow> u32 \<Rightarrow> kmem \<Rightarrow> kmem" where
  "set_entry a v t perms dir st =
    wr (tables_at dir (low_index a)) (t OR perms) (wr (t + 4 * high_index a) v st)"

lemma table_readyD:
  assumes "table_ready st dir (low_index a) t"
  defines "e \<equiv> t + 4 * high_index a" and "f \<equiv> tables_at dir (low_index a)"
  shows "dir_ok st dir" "dir_entry st dir (low_index a) = t" "t \<noteq> 0" "page_aligned t" "page_of t = t"
    "page_of e = t" "4 dvd unat e" "page_of f = dir" "4 dvd unat f" "e \<noteq> f" "f \<noteq> e" "t \<noteq> dir"
    "k \<le> npages st \<Longrightarrow> page_of (slot st k) \<noteq> t"
proof -
  from assms(1) show ok: "dir_ok st dir" and t: "dir_entry st dir (low_index a) = t" "t \<noteq> 0" "page_aligned t"
    by (simp_all add: table_ready_def)
  show pt: "page_of t = t" using t by (simp add: page_of_0_iff)
  show e: "page_of e = t" "4 dvd unat e" using t by (simp_all add: e_def page_of_offset page_offset_aligned)
  show f: "page_of f = dir" "4 dvd unat f" using tables_at_page [OF ok] by (simp_all add: f_def)
  show "t \<noteq> dir" "k \<le> npages st \<Longrightarrow> page_of (slot st k) \<noteq> t"
    using dir_ok_table [OF ok, of "low_index a"] t pt by auto
  with e f show "e \<noteq> f" "f \<noteq> e" by auto
qed

lemma set_entry_rd:
  assumes "table_ready st dir (low_index a) t" "4 dvd unat b"
  shows "rd (set_entry a v t perms dir st) b =
    (if b = tables_at dir (low_index a) then t OR perms
     else if b = t + 4 * high_index a then v else rd st b)"
  using assms(2) table_readyD [OF assms(1)] by (simp add: set_entry_def rd_wr)

lemma set_entry_dir:
  assumes "table_ready st dir (low_index a) t" "i < 1024"
  shows "dir_entry (set_entry a v t perms dir st) dir i =
    (if i = low_index a then t OR perms else dir_entry st dir i)"
proof -
  note r = table_readyD [OF assms(1)]
  have "tables_at dir i \<noteq> t + 4 * high_index a"
    using tables_at_page(1) [OF r(1) assms(2)] r(6,12) by auto
  then show ?thesis using tables_at_page [OF r(1)] assms(2) by (simp add: set_entry_rd [OF assms(1)])
qed

lemma set_entry_other_page:
  assumes "table_ready st dir (low_index a) t" "perms < 0x1000" "page_of b \<noteq> page_of a"
  shows "get_page b dir (set_entry a v t perms dir st) = get_page b dir st"
proof (cases "dir_entry st dir (low_index b) = 0")
  case True
  then show ?thesis using table_readyD [OF assms(1)]
    by (auto simp: get_page_def Let_def set_entry_dir [OF assms(1)])
next
  case False
  let ?s = "page_of (dir_entry st dir (low_index b))"
  note r = table_readyD [OF assms(1)]
  note tb = dir_ok_table [OF r(1) _ False, simplified]
  have al: "4 dvd unat (?s + 4 * high_index b)" "page_of (?s + 4 * high_index b) = ?s"
    by (simp_all add: page_offset_aligned page_of_offset)
  have "?s + 4 * high_index b \<noteq> t + 4 * high_index a"
  proof
    assume eq: "?s + 4 * high_index b = t + 4 * high_index a"
    then have "?s = t" "high_index b = high_index a"
      using page_offset_eq [of ?s t "high_index b" "high_index a"] r(4) by auto
    then show False using tb(6) [of "low_index a"] r(2,5) assms(3) by (simp add: page_eq_iff)
  qed
  moreover have "?s + 4 * high_index b \<noteq> tables_at dir (low_index a)" using al tb(2) r(8) by auto
  ultimately have "rd (set_entry a v t perms dir st) (?s + 4 * high_index b) = rd st (?s + 4 * high_index b)"
    by (simp add: set_entry_rd [OF assms(1)] al)
  then show ?thesis using r assms(2)
    by (auto simp: get_page_def Let_def set_entry_dir [OF assms(1)] page_of_or)
qed

lemma set_entry:
  fixes v :: u32
  assumes "table_ready st dir (low_index a) t" "perms < 0x1000"
  defines "st' \<equiv> set_entry a v t perms dir st"
  shows "dir_ok st' dir" "get_page a dir st' = v" "same_pool st st'" "placement st' = placement st"
    "page_of b \<noteq> page_of a \<Longrightarrow> get_page b dir st' = get_page b dir st"
    "dir_entry st' dir (low_index a) = t OR perms"
proof -
  note r = table_readyD [OF assms(1)]
  note ent = set_entry_dir [OF assms(1), of _ v perms, folded st'_def]
  note rdst = set_entry_rd [OF assms(1), of _ v perms, folded st'_def]
  have p_or: "page_of (t OR perms) = t" using r assms(2) by (simp add: page_of_or)
  have flds: "page_stack st' = page_stack st" "npages st' = npages st" "page_ptr st' = page_ptr st"
    "stack_bottom st' = stack_bottom st" "placement st' = placement st"
    by (simp_all add: st'_def set_entry_def)
  then show "placement st' = placement st" by simp
  show "dir_entry st' dir (low_index a) = t OR perms" by (simp add: ent)
  show "dir_ok st' dir"
    by (rule dir_ok_cong [OF r(1)]) (use dir_okD [OF r(1)] ent p_or r flds in auto)
  show "get_page a dir st' = v" using r by (simp add: get_page_def Let_def ent p_or rdst)
  have "slot st k \<noteq> tables_at dir (low_index a)" "slot st k \<noteq> t + 4 * high_index a" if "k \<le> npages st" for k
    using dir_ok_slot(1) [OF r(1) that] r(13) [OF that] r(6,8) by auto
  then show "same_pool st st'"
    using dir_ok_slot(4) [OF r(1)] by (simp add: same_pool_def rdst flds)
  show "page_of b \<noteq> page_of a \<Longrightarrow> get_page b dir st' = get_page b dir st"
    unfolding st'_def by (rule set_entry_other_page [OF assms(1,2)])
qed

lemma wr_wr_same [simp]: "wr a v (wr a w st) = wr a v st"
  by (simp add: wr_def store32_apply fun_eq_iff)

lemma wr_page_ptr [simp]: "wr a v (st\<lparr>page_ptr := p\<rparr>) = (wr a v st)\<lparr>page_ptr := p\<rparr>"
  by (simp add: wr_def)

lemma rd_wr_same [simp]: "rd (wr a v st) a = v"
  by (simp add: rd_def wr_def)

lemma get_page_page_ptr [simp]: "get_page a dir (st\<lparr>page_ptr := p\<rparr>) = get_page a dir st"
  by (simp add: get_page_def Let_def)

lemma set_entry_page_ptr [simp]: "page_ptr (set_entry a v t perms dir st) = page_ptr st"
  by (simp add: set_entry_def)

lemma dir_ok_page_ptr:
  "dir_ok st dir \<Longrightarrow> unat p \<le> unat (npages st) + 1 \<Longrightarrow> dir_ok (st\<lparr>page_ptr := p\<rparr>) dir"
  by (erule dir_ok_cong) simp_all

text \<open>The frame the next \<open>pop_page\<close> returns.\<close>

definition top_frame :: "kmem \<Rightarrow> u32" where
  "top_frame st = rd st (slot st (page_ptr st - 1))"

lemma u32_pred: "b < (a :: u32) \<Longrightarrow> unat (a - 1) = unat a - 1"
  by (metis One_nat_def not_less_zero unat_minus_one word_less_nat_alt unat_0)

lemma top_frame_same:
  assumes "same_pool st st'" "dir_ok st dir" "stack_bottom st < page_ptr st"
  shows "top_frame st' = top_frame st"
proof -
  have "page_ptr st - 1 \<le> npages st"
    using dir_okD(8) [OF assms(2)] u32_pred [OF assms(3)] by (simp add: word_le_nat_alt)
  moreover have "slot st' = slot st" using assms(1) by (intro slot_cong) (simp add: same_pool_def)
  ultimately show ?thesis using assms(1) by (simp add: same_pool_def top_frame_def)
qed

lemma map_page_ready:
  assumes "ensure_table al a perms dir st = done_with (st1, t)" "table_ready st1 dir (low_index a) t"
    and "stack_bottom st1 < page_ptr st1"
  shows "map_page_with al a perms dir st = done_with
    (if get_page a dir st1 = 0
     then (set_entry a (top_frame st1 OR perms) t perms dir st1)\<lparr>page_ptr := page_ptr st1 - 1\<rparr>
     else set_entry a (get_page a dir st1 OR perms) t perms dir st1)"
proof -
  note r = table_readyD [OF assms(2)]
  have g: "get_page a dir st1 = rd st1 (t + 4 * high_index a)"
    using r by (simp add: get_page_def Let_def)
  show ?thesis
    using r assms(3) by (simp add: map_page_with_def assms(1) g pop_page_def Let_def set_entry_def top_frame_def slot_def
        done_with_def [symmetric] rd_wr)
qed

lemma map_page_early:
  assumes "dir_ok st dir" "unat (placement st) + 0x2000 < 2 ^ 32" "perms < 0x1000" "stack_bottom st < page_ptr st"
  obtains st' where "map_page_with kmalloc_early a perms dir st = done_with st'" "dir_ok st' dir"
    "get_page a dir st' = (if get_page a dir st = 0 then top_frame st else get_page a dir st) OR perms"
    "\<And>b. page_of b \<noteq> page_of a \<Longrightarrow> get_page b dir st' = get_page b dir st"
    "same_pool st (st'\<lparr>page_ptr := page_ptr st\<rparr>)"
    "page_ptr st' = (if get_page a dir st = 0 then page_ptr st - 1 else page_ptr st)"
    "unat (placement st') \<le> unat (placement st) + 0x2000"
proof -
  obtain st1 t where e: "ensure_table kmalloc_early a perms dir st = done_with (st1, t)"
    "table_ready st1 dir (low_index a) t" "\<And>b. get_page b dir st1 = get_page b dir st" "same_pool st st1"
    "unat (placement st1) \<le> unat (placement st) + 0x2000"
    using ensure_table_early [OF assms(1-3)] by metis
  let ?v = "(if get_page a dir st = 0 then top_frame st else get_page a dir st) OR perms"
  let ?p = "if get_page a dir st = 0 then page_ptr st - 1 else page_ptr st"
  let ?st' = "(set_entry a ?v t perms dir st1)\<lparr>page_ptr := ?p\<rparr>"
  note s = set_entry [OF e(2) assms(3), where v = ?v]
  have pool: "page_ptr st1 = page_ptr st" "stack_bottom st1 = stack_bottom st" "npages st1 = npages st"
    "page_stack st1 = page_stack st"
    using e(4) by (simp_all add: same_pool_def)
  have top: "top_frame st1 = top_frame st" by (rule top_frame_same [OF e(4) assms(1,4)])
  have "unat ?p \<le> unat (npages st) + 1"
    using dir_okD(8) [OF assms(1)] u32_pred [OF assms(4)] by auto
  then have "dir_ok ?st' dir" using s(1) pool by (auto intro!: dir_ok_page_ptr simp: set_entry_def)
  moreover have "map_page_with kmalloc_early a perms dir st = done_with ?st'"
    using map_page_ready [OF e(1,2)] assms(4) pool top e(3) by simp
  moreover have "same_pool st (?st'\<lparr>page_ptr := page_ptr st\<rparr>)"
    using s(3) e(4) pool slot_cong [OF pool(4)] by (simp add: same_pool_def)
  ultimately show thesis
    using that [of ?st'] s e(3,5) by simp
qed

lemma map_page_early_fresh:
  assumes "dir_ok st dir" "unat (placement st) + 0x2000 < 2 ^ 32" "perms < 0x1000" "stack_bottom st < page_ptr st"
    and "get_page a dir st = 0"
  obtains st' where "map_page_with kmalloc_early a perms dir st = done_with st'" "dir_ok st' dir"
    "get_page a dir st' = top_frame st OR perms"
    "\<And>b. page_of b \<noteq> page_of a \<Longrightarrow> get_page b dir st' = get_page b dir st"
    "same_pool st (st'\<lparr>page_ptr := page_ptr st\<rparr>)" "page_ptr st' = page_ptr st - 1"
    "unat (placement st') \<le> unat (placement st) + 0x2000"
  by (rule map_page_early [OF assms(1-4), of a]) (rule that; simp add: assms(5))

lemma same_pool_trans:
  assumes "same_pool st (st1\<lparr>page_ptr := page_ptr st\<rparr>)" "same_pool st1 (st2\<lparr>page_ptr := page_ptr st1\<rparr>)"
  shows "same_pool st (st2\<lparr>page_ptr := page_ptr st\<rparr>)"
proof -
  have "slot st1 = slot st" using assms(1) by (intro slot_cong) (simp add: same_pool_def)
  with assms show ?thesis by (simp add: same_pool_def)
qed

lemma same_pool_refl [simp]: "same_pool st st"
  by (simp add: same_pool_def)

lemma unat_advance: "unat a + 4096 * n < 2 ^ 32 \<Longrightarrow> unat ((a :: u32) + 0x1000 * of_nat n) = unat a + 4096 * n"
proof -
  assume a: "unat a + 4096 * n < 2 ^ 32"
  then have "unat ((0x1000 :: u32) * of_nat n) = 4096 * n"
    by (simp add: unat_word_ariths unat_of_nat)
  with a show ?thesis by (simp add: unat_add_lem [THEN iffD1])
qed

lemma page_advance_neq:
  assumes "page_aligned a" "unat a + 4096 * n < 2 ^ 32" "i \<le> n" "j \<le> n" "i \<noteq> j"
  shows "page_of (a + 0x1000 * of_nat i) \<noteq> page_of (a + 0x1000 * of_nat j)"
proof -
  have "unat (a + 0x1000 * of_nat i) = unat a + 4096 * i" "unat (a + 0x1000 * of_nat j) = unat a + 4096 * j"
    using assms by (auto intro!: unat_advance)
  with assms show ?thesis by (auto simp: word_unat_eq_iff unat_page_of page_aligned_def elim!: dvdE)
qed

text \<open>
  What mapping \<open>n\<close> unmapped pages from \<open>a\<close> on does: page \<open>i\<close> gets the \<open>i\<close>-th frame from the top of the frame
  stack, no other page changes, \<open>n\<close> frames are taken.
\<close>

definition maps_fresh :: "u32 \<Rightarrow> nat \<Rightarrow> u32 \<Rightarrow> u32 \<Rightarrow> kmem \<Rightarrow> kmem \<Rightarrow> bool" where
  "maps_fresh a n perms dir st st' \<longleftrightarrow> dir_ok st' dir \<and>
    (\<forall>i<n. get_page (a + 0x1000 * of_nat i) dir st' = rd st (slot st (page_ptr st - 1 - of_nat i)) OR perms) \<and>
    (\<forall>b. (\<forall>i<n. page_of b \<noteq> a + 0x1000 * of_nat i) \<longrightarrow> get_page b dir st' = get_page b dir st) \<and>
    same_pool st (st'\<lparr>page_ptr := page_ptr st\<rparr>) \<and> page_ptr st' = page_ptr st - of_nat n \<and>
    unat (placement st') \<le> unat (placement st) + 0x2000 * n"

lemma unat_down:
  assumes "i < n" "n \<le> unat p" shows "unat ((p :: u32) - 1 - of_nat i) = unat p - 1 - i"
proof -
  have "i + 1 < 2 ^ 32" using assms unat_u32_less [of p] by linarith
  then have "unat (of_nat (i + 1) :: u32) = i + 1" by (rule unat_of_nat_lt32)
  moreover from this have "(of_nat (i + 1) :: u32) \<le> p" using assms unfolding word_le_nat_alt by linarith
  ultimately have "unat (p - of_nat (i + 1)) = unat p - (i + 1)" by (simp add: unat_sub del: of_nat_add)
  then show ?thesis by (simp add: algebra_simps)
qed

lemma maps_fresh_Suc:
  assumes "page_aligned a" "unat a + 4096 * Suc n < 2 ^ 32" "Suc n \<le> unat (page_ptr st)" "dir_ok st dir"
    and "get_page a dir st1 = top_frame st OR perms"
    and "\<And>b. page_of b \<noteq> page_of a \<Longrightarrow> get_page b dir st1 = get_page b dir st"
    and "same_pool st (st1\<lparr>page_ptr := page_ptr st\<rparr>)" "page_ptr st1 = page_ptr st - 1"
    and "unat (placement st1) \<le> unat (placement st) + 0x2000"
    and "maps_fresh (a + 0x1000) n perms dir st1 st'"
  shows "maps_fresh a (Suc n) perms dir st st'"
proof -
  have off: "a + 0x1000 + 0x1000 * of_nat i = a + 0x1000 * of_nat (Suc i)" for i
    by (simp add: algebra_simps)
  have pa: "page_of a = a" using assms(1) by (rule page_of_0_iff)
  have ne: "page_of a \<noteq> a + 0x1000 * of_nat (Suc i)" if "i < n" for i
    using page_advance_neq [OF assms(1,2), of 0 "Suc i"] that pa by (auto simp del: of_nat_Suc)
  note mf = assms(10) [unfolded maps_fresh_def off]
  have "get_page a dir st' = rd st (slot st (page_ptr st - 1 - of_nat 0)) OR perms"
    using mf assms(5) ne by (simp add: top_frame_def del: of_nat_Suc)
  moreover have "get_page (a + 0x1000 * of_nat (Suc i)) dir st' =
      rd st (slot st (page_ptr st - 1 - of_nat (Suc i))) OR perms" if "i < n" for i
  proof -
    have "unat (page_ptr st - 1 - of_nat (Suc i)) = unat (page_ptr st) - 1 - Suc i"
      by (rule unat_down [of _ "Suc n"]) (use that assms(3) in auto)
    then have "page_ptr st - 1 - of_nat (Suc i) \<le> npages st"
      using dir_okD(8) [OF assms(4)] by (simp add: word_le_nat_alt)
    moreover have eq: "page_ptr st1 - 1 - of_nat i = page_ptr st - 1 - of_nat (Suc i)"
      using assms(8) by (simp add: algebra_simps)
    moreover have "slot st1 = slot st" using assms(7) by (intro slot_cong) (simp add: same_pool_def)
    ultimately have "rd st1 (slot st1 (page_ptr st1 - 1 - of_nat i)) = rd st (slot st (page_ptr st - 1 - of_nat (Suc i)))"
      unfolding eq using assms(7) by (simp add: same_pool_def del: of_nat_Suc)
    with mf that show ?thesis by (simp only:)
  qed
  moreover have "get_page b dir st' = get_page b dir st" if "\<forall>i<Suc n. page_of b \<noteq> a + 0x1000 * of_nat i" for b
    using that mf assms(6) [of b] pa by (auto simp: All_less_Suc2 simp del: of_nat_Suc)
  moreover have "page_ptr st' = page_ptr st - of_nat (Suc n)" using mf assms(8) by simp
  ultimately show ?thesis
    using mf assms(9) same_pool_trans [OF assms(7)]
    by (auto simp: maps_fresh_def All_less_Suc2 simp del: of_nat_Suc)
qed

lemma map_pages_fresh:
  assumes "dir_ok st dir" "unat (placement st) + 0x2000 * n < 2 ^ 32" "perms < 0x1000"
    and "page_aligned a" "unat en \<le> unat a + 4096 * n" "n = 0 \<or> unat a + 4096 * (n - 1) < unat en"
    and "unat a + 4096 * n < 2 ^ 32" "unat (stack_bottom st) + n \<le> unat (page_ptr st)"
    and "\<forall>i<n. get_page (a + 0x1000 * of_nat i) dir st = 0"
  shows "\<exists>st'. map_pages_with kmalloc_early a en perms dir st = done_with st' \<and>
    maps_fresh a n perms dir st st'"
  using assms
proof (induction n arbitrary: a st)
  case 0
  then have "\<not> a < en" by (simp add: word_less_nat_alt)
  with 0 show ?case by (subst map_pages_with.simps) (simp add: maps_fresh_def)
next
  case (Suc n)
  have nx: "unat (a + 0x1000) = unat a + 4096" using Suc.prems(7) unat_advance [of a 1] by simp
  have al: "page_aligned (a + 0x1000)" using Suc.prems(4) nx by (simp add: page_aligned_def)
  have lt: "a < en" using Suc.prems(6) by (simp add: word_less_nat_alt)
  have sb: "stack_bottom st < page_ptr st" using Suc.prems(8) by (simp add: word_less_nat_alt)
  have room: "unat (placement st) + 0x2000 < 2 ^ 32" using Suc.prems(2) by simp
  from Suc.prems(9) have "get_page a dir st = 0" by (auto simp: All_less_Suc2)
  then obtain st1 where m: "map_page_with kmalloc_early a perms dir st = done_with st1" "dir_ok st1 dir"
    "get_page a dir st1 = top_frame st OR perms"
    "\<And>b. page_of b \<noteq> page_of a \<Longrightarrow> get_page b dir st1 = get_page b dir st"
    "same_pool st (st1\<lparr>page_ptr := page_ptr st\<rparr>)" "page_ptr st1 = page_ptr st - 1"
    "unat (placement st1) \<le> unat (placement st) + 0x2000"
    by (rule map_page_early_fresh [OF Suc.prems(1) room Suc.prems(3) sb]) blast
  have "\<exists>st'. map_pages_with kmalloc_early (a + 0x1000) en perms dir st1 = done_with st' \<and>
    maps_fresh (a + 0x1000) n perms dir st1 st'"
  proof (rule Suc.IH [OF m(2)])
    show "\<forall>i<n. get_page (a + 0x1000 + 0x1000 * of_nat i) dir st1 = 0"
    proof (intro allI impI)
      fix i assume "i < n"
      then show "get_page (a + 0x1000 + 0x1000 * of_nat i) dir st1 = 0"
        using page_advance_neq [OF Suc.prems(4,7), of "Suc i" 0] m(4) Suc.prems(9) [rule_format, of "Suc i"]
        by (simp add: algebra_simps)
    qed
  qed (use Suc.prems nx al m u32_pred [OF sb] in \<open>auto simp: same_pool_def\<close>)
  then obtain st' where st': "map_pages_with kmalloc_early (a + 0x1000) en perms dir st1 = done_with st'"
    "maps_fresh (a + 0x1000) n perms dir st1 st'" by blast
  have "map_pages_with kmalloc_early a en perms dir st = done_with st'"
    using lt m(1) st'(1) by (subst map_pages_with.simps) simp
  moreover have "maps_fresh a (Suc n) perms dir st st'"
    by (rule maps_fresh_Suc [OF Suc.prems(4,7) _ Suc.prems(1) m(3-7) st'(2)]) (use Suc.prems(8) in simp)
  ultimately show ?case by blast
qed

section \<open>Blocks of the early allocator\<close>

fun kmalloc_e_seq :: "(u32 \<times> u32) list \<Rightarrow> kmem \<Rightarrow> (u32 \<times> u32) list" where
  "kmalloc_e_seq [] st = []"
| "kmalloc_e_seq ((sz, align) # reqs) st =
     (let (st', a, _) = kmalloc_e sz align st in (a, sz) # kmalloc_e_seq reqs st')"

lemma kmalloc_e_block:
  assumes "kmalloc_e sz align st = (st', a, ph)" "unat (placement st) + unat sz + 0x1000 < 2 ^ 32"
  shows "unat (placement st) \<le> unat a" "unat (placement st') = unat a + unat sz"
    "unat a \<le> unat (placement st) + 0x1000" "align \<noteq> 0 \<Longrightarrow> page_aligned a" "ph = a"
proof -
  let ?p = "if align \<noteq> 0 then align_up (placement st) else placement st"
  have eq: "a = ?p" "placement st' = ?p + sz" "ph = a"
    using assms(1) by (auto simp: kmalloc_e_def align_up_def Let_def)
  have up: "unat (placement st) \<le> unat ?p" "unat ?p \<le> unat (placement st) + 0x1000"
    using align_up [of "placement st"] assms(2) by auto
  show "unat (placement st) \<le> unat a" "unat a \<le> unat (placement st) + 0x1000" "ph = a"
    using up eq by simp_all
  show "align \<noteq> 0 \<Longrightarrow> page_aligned a" using eq align_up [of "placement st"] assms(2) by auto
  have "unat ?p + unat sz < 2 ^ 32" using up assms(2) by linarith
  then show "unat (placement st') = unat a + unat sz" using eq by (simp add: unat_add_lem [THEN iffD1])
qed

lemma kmalloc_e_seq_above:
  "unat (placement st) + (\<Sum>(sz, align) \<leftarrow> reqs. unat sz + 0x1000) < 2 ^ 32 \<Longrightarrow>
    (b, n) \<in> set (kmalloc_e_seq reqs st) \<Longrightarrow> unat (placement st) \<le> unat b"
proof (induction reqs arbitrary: st)
  case (Cons r reqs)
  obtain sz align where r: "r = (sz, align)" by force
  obtain st' a ph where k: "kmalloc_e sz align st = (st', a, ph)" by (cases "kmalloc_e sz align st") auto
  have "unat (placement st) + unat sz + 0x1000 < 2 ^ 32" using Cons.prems r by simp
  note b = kmalloc_e_block [OF k this]
  have "unat (placement st') + (\<Sum>(sz, align) \<leftarrow> reqs. unat sz + 0x1000) < 2 ^ 32"
    using Cons.prems b r by simp
  from Cons.IH [OF this] Cons.prems(2) b show ?case by (auto simp: r k)
qed simp

text \<open>
  C31. As long as memory lasts, the early allocator hands out pairwise disjoint blocks, in ascending order and
  all above the end of the kernel image, and a block requested with \<open>align\<close> starts on a page boundary.
\<close>

theorem early_blocks_disjoint:
  assumes "unat (placement st) + (\<Sum>(sz, align) \<leftarrow> reqs. unat sz + 0x1000) < 2 ^ 32"
  shows "sorted_wrt (\<lambda>(a, m) (b, n). unat a + unat m \<le> unat b) (kmalloc_e_seq reqs st) \<and>
    list_all2 (\<lambda>(sz, align) (a, m). m = sz \<and> unat (placement st) \<le> unat a \<and>
      (align \<noteq> 0 \<longrightarrow> a AND 0xfff = 0)) reqs (kmalloc_e_seq reqs st)"
  using assms
proof (induction reqs arbitrary: st)
  case Nil
  then show ?case by simp
next
  case (Cons r reqs)
  obtain sz align where r: "r = (sz, align)" by force
  obtain st' a ph where k: "kmalloc_e sz align st = (st', a, ph)" by (cases "kmalloc_e sz align st") auto
  have "unat (placement st) + unat sz + 0x1000 < 2 ^ 32" using Cons.prems r by simp
  note b = kmalloc_e_block [OF k this]
  have "unat (placement st') + (\<Sum>(sz, align) \<leftarrow> reqs. unat sz + 0x1000) < 2 ^ 32"
    using Cons.prems b r by simp
  note IH = Cons.IH [OF this]
  have "\<forall>(c, n) \<in> set (kmalloc_e_seq reqs st'). unat a + unat sz \<le> unat c"
    using kmalloc_e_seq_above [OF \<open>unat (placement st') + _ < _\<close>] b(2) by auto
  moreover from IH have "list_all2 (\<lambda>(sz, align) (a, m). m = sz \<and> unat (placement st) \<le> unat a \<and>
      (align \<noteq> 0 \<longrightarrow> a AND 0xfff = 0)) reqs (kmalloc_e_seq reqs st')"
    by (elim conjE) (erule list_all2_mono, use b in auto)
  ultimately show ?case
    using IH b r k by (auto simp: and_fff_0 page_aligned_def)
qed

section \<open>The frame stack\<close>

lemma slot_inj:
  assumes "unat i < 2 ^ 30" "unat j < 2 ^ 30" shows "slot st i = slot st j \<longleftrightarrow> i = j"
proof
  assume "slot st i = slot st j"
  then have "4 * i = 4 * j" by (simp add: slot_def)
  moreover have "unat (4 * i) = 4 * unat i" "unat (4 * j) = 4 * unat j"
    using assms by (simp_all add: unat_word_ariths)
  ultimately show "i = j" by (simp add: word_unat_eq_iff)
qed simp

definition frames :: "kmem \<Rightarrow> u32 list" where
  "frames st = map (\<lambda>i. rd st (slot st (of_nat i))) [unat (stack_bottom st) ..< unat (page_ptr st)]"

definition stack_ok :: "kmem \<Rightarrow> bool" where
  "stack_ok st \<longleftrightarrow> 4 dvd unat (page_stack st) \<and> stack_bottom st \<le> page_ptr st \<and> unat (page_ptr st) < 2 ^ 30"

lemma push_page_frames:
  assumes "stack_ok st" "unat (page_ptr st) < 2 ^ 30 - 1"
  shows "stack_ok (push_page a st)" "frames (push_page a st) = frames st @ [page_of a]"
proof -
  have dv: "4 dvd unat (slot st i)" for i
    using assms(1) by (simp add: stack_ok_def slot_def dvd4_offset)
  have pp: "unat (page_ptr st + 1) = unat (page_ptr st) + 1"
    using assms(2) by (simp add: unat_add_lem [THEN iffD1])
  have sb: "unat (stack_bottom st) \<le> unat (page_ptr st)" using assms(1) by (simp add: stack_ok_def word_le_nat_alt)
  have push: "push_page a st = (wr (slot st (page_ptr st)) (page_of a) st)\<lparr>page_ptr := page_ptr st + 1\<rparr>"
    by (simp add: push_page_def slot_def page_of_def)
  show "stack_ok (push_page a st)"
    using assms pp sb by (simp add: push stack_ok_def word_le_nat_alt)
  have old: "slot st (page_ptr st) \<noteq> slot st (of_nat i)" if "i < unat (page_ptr st)" for i
  proof -
    have i: "unat (of_nat i :: u32) = i"
      using that unat_u32_less [of "page_ptr st"] by (intro unat_of_nat_lt32) simp
    then have "page_ptr st \<noteq> of_nat i" using that by auto
    then show ?thesis using that assms(2) i slot_inj [of "page_ptr st" "of_nat i" st] by simp
  qed
  have "frames (push_page a st) =
      map (\<lambda>i. rd (push_page a st) (slot st (of_nat i))) [unat (stack_bottom st) ..< Suc (unat (page_ptr st))]"
    by (simp add: frames_def push pp)
  also have "\<dots> = frames st @ [page_of a]"
    using sb old by (auto simp: frames_def push rd_wr dv)
  finally show "frames (push_page a st) = frames st @ [page_of a]" .
qed

lemma pop_page_frames:
  assumes "stack_ok st" "frames st \<noteq> []"
  shows "\<exists>st'. pop_page st = Inr (st', last (frames st)) \<and> stack_ok st' \<and> frames st' = butlast (frames st) \<and>
    unat (page_ptr st') = unat (page_ptr st) - 1"
proof -
  have sb: "stack_bottom st < page_ptr st" using assms(2) by (auto simp: frames_def word_less_nat_alt)
  have pp: "unat (page_ptr st - 1) = unat (page_ptr st) - 1" by (rule u32_pred [OF sb])
  have ub: "[unat (stack_bottom st) ..< unat (page_ptr st)] =
      [unat (stack_bottom st) ..< unat (page_ptr st) - 1] @ [unat (page_ptr st) - 1]"
    using sb by (simp add: word_less_nat_alt upt_Suc_append [symmetric])
  have top: "(of_nat (unat (page_ptr st) - 1) :: u32) = page_ptr st - 1"
    using arg_cong [OF pp, of "of_nat :: nat \<Rightarrow> u32"] by simp
  show ?thesis
    using sb pp assms(1) by (auto simp: pop_page_def Let_def frames_def ub top slot_def stack_ok_def word_le_nat_alt word_less_nat_alt)
qed

lemma pop_page_empty: "frames st = [] \<Longrightarrow> pop_page st = Inl (PANIC ''out of free pages'')"
  by (auto simp: frames_def pop_page_def word_less_nat_alt)


fun pop_n :: "('s \<Rightarrow> ('s \<times> 'a) exec) \<Rightarrow> nat \<Rightarrow> 's \<Rightarrow> ('s \<times> 'a list) exec" where
  "pop_n pop 0 s = Inr (s, [])"
| "pop_n pop (Suc n) s =
    (case pop s of Inl e \<Rightarrow> Inl e
     | Inr (s1, x) \<Rightarrow> (case pop_n pop n s1 of Inl e \<Rightarrow> Inl e | Inr (s2, xs) \<Rightarrow> Inr (s2, x # xs)))"

locale bounded_stack =
  fixes ok :: "'s \<Rightarrow> bool" and items :: "'s \<Rightarrow> 'a list" and room :: "'s \<Rightarrow> nat"
    and push :: "'a \<Rightarrow> 's \<Rightarrow> 's" and pop :: "'s \<Rightarrow> ('s \<times> 'a) exec" and norm :: "'a \<Rightarrow> 'a"
  assumes push: "ok s \<Longrightarrow> 0 < room s \<Longrightarrow>
      ok (push x s) \<and> items (push x s) = items s @ [norm x] \<and> Suc (room (push x s)) = room s"
    and pop: "ok s \<Longrightarrow> items s \<noteq> [] \<Longrightarrow>
      \<exists>s'. pop s = Inr (s', last (items s)) \<and> ok s' \<and> items s' = butlast (items s)"
    and pop_empty: "ok s \<Longrightarrow> items s = [] \<Longrightarrow> \<exists>e. pop s = Inl e"
begin

lemma pushes:
  "ok s \<Longrightarrow> length xs \<le> room s \<Longrightarrow>
    ok (fold push xs s) \<and> items (fold push xs s) = items s @ map norm xs"
proof (induction xs arbitrary: s)
  case (Cons x xs)
  from Cons.prems have "ok (push x s)" "items (push x s) = items s @ [norm x]" "length xs \<le> room (push x s)"
    using push [of s x] by auto
  with Cons.IH show ?case by simp
qed simp

lemma pops:
  "ok s \<Longrightarrow> items s = xs @ ys \<Longrightarrow>
    \<exists>s'. pop_n pop (length ys) s = Inr (s', rev ys) \<and> ok s' \<and> items s' = xs"
proof (induction ys arbitrary: s rule: rev_induct)
  case Nil
  then show ?case by simp
next
  case (snoc y ys)
  then obtain s1 where "pop s = Inr (s1, y)" "ok s1" "items s1 = xs @ ys"
    using pop [of s] by (auto simp: butlast_append)
  with snoc.IH [of s1] show ?case by auto
qed

lemma pushes_pops:
  assumes "ok s" "length xs \<le> room s"
  shows "\<exists>s'. pop_n pop (length xs) (fold push xs s) = Inr (s', rev (map norm xs)) \<and> ok s' \<and> items s' = items s"
  using pops [of "fold push xs s" "items s" "map norm xs"] pushes [OF assms] by simp

end

interpretation page_frames: bounded_stack stack_ok frames "\<lambda>st. 2 ^ 30 - 1 - unat (page_ptr st)"
    push_page pop_page page_of
proof unfold_locales
  fix st :: kmem and a
  assume "stack_ok st" "0 < 2 ^ 30 - 1 - unat (page_ptr st)"
  then show "stack_ok (push_page a st) \<and> frames (push_page a st) = frames st @ [page_of a] \<and>
      Suc (2 ^ 30 - 1 - unat (page_ptr (push_page a st))) = 2 ^ 30 - 1 - unat (page_ptr st)"
    using push_page_frames [of st a] by (simp add: push_page_def unat_add_lem [THEN iffD1])
qed (use pop_page_frames pop_page_empty in blast)+

text \<open>
  The stack of free frames is a stack: \<open>n\<close> pages pushed are returned by the next \<open>n\<close> calls of \<open>pop_page\<close>
  in reverse order, rounded down to their page, and leave the frames below untouched; on an empty
  stack \<open>pop_page\<close> panics.
\<close>

theorem page_stack_lifo:
  assumes "stack_ok st" "length as \<le> 2 ^ 30 - 1 - unat (page_ptr st)"
  shows "(\<exists>st'. pop_n pop_page (length as) (fold push_page as st) = Inr (st', rev (map page_of as)) \<and>
      stack_ok st' \<and> frames st' = frames st) \<and>
    (pop_page st = Inl (PANIC ''out of free pages'') \<longleftrightarrow> frames st = [])"
proof
  show "pop_page st = Inl (PANIC ''out of free pages'') \<longleftrightarrow> frames st = []"
    using pop_page_empty [of st] pop_page_frames [OF assms(1)] by force
qed (rule page_frames.pushes_pops [OF assms])

section \<open>Freeing a page\<close>

lemma apart_pages:
  assumes "unat x mod 4096 \<le> 4092" "4 dvd unat b" "page_of x \<noteq> page_of b"
  shows "apart 4 x b"
proof -
  define p q where "p = unat x div 4096" and "q = unat b div 4096"
  obtain r s where "unat x = p * 4096 + r" "r \<le> 4092" "unat b = q * 4096 + s" "s \<le> 4092" 
  proof
    show "unat x = p * 4096 + unat x mod 4096" "unat b = q * 4096 + unat b mod 4096" by (simp_all add: p_def q_def)
    have "4 dvd unat b mod 4096" using assms(2) by (simp add: dvd_mod)
    then show "unat b mod 4096 \<le> 4092" using mod_less_divisor [of 4096 "unat b"] by (auto elim!: dvdE)
  qed (use assms in auto)
  moreover have "p \<noteq> q" using assms(3) by (simp add: p_def q_def word_unat_eq_iff unat_page_of)
  moreover have "p < 2 ^ 20" "q < 2 ^ 20"
    using unat_u32_less [of x] unat_u32_less [of b] by (simp_all add: p_def q_def div_less_iff_less_mult)
  ultimately show ?thesis by (auto simp: apart_def unat_minus_cases)
qed

text \<open>
  \<open>free_page\<close> does not unmap: it writes through the table pointer without masking the permission bits
  that \<open>map_page\<close> left in it, so the entry it clears starts seven bytes too far and the address stays mapped
  to its frame. What it puts on the stack of free frames is the virtual address, not the frame.
\<close>

theorem free_page_keeps_mapping:
  assumes "dir_ok st dir" "dir_entry st dir (low_index a) = page_of t OR 7"
    and "page_ptr st \<le> npages st" "high_index a < 1022"
  shows "get_page a dir (free_page a dir st) = get_page a dir st \<and>
    page_ptr (free_page a dir st) = page_ptr st + 1 \<and>
    rd (free_page a dir st) (slot st (page_ptr st)) = page_of a"
proof -
  let ?t = "page_of t" and ?e = "page_of t + 7 + 4 * high_index a" and ?s = "slot st (page_ptr st)"
  have "?t AND 7 = 0" by (simp add: page_of_def and.assoc)
  then have or7: "?t OR 7 = ?t + 7" by (simp add: disjunctive_add_eq_or)
  have ne: "dir_entry st dir (low_index a) \<noteq> 0" by (simp add: assms(2) or_eq_0_iff)
  have pt: "page_of (dir_entry st dir (low_index a)) = ?t" by (simp add: assms(2) page_of_or)
  note tab = dir_ok_table [OF assms(1) _ ne, simplified pt] and sl = dir_ok_slot [OF assms(1,3)]
  note pg = tables_at_page [OF assms(1), of "low_index a"]
  have h: "unat (high_index a) < 1022" using assms(4) by (simp add: word_less_nat_alt)
  have "unat (7 + 4 * high_index a) = 7 + 4 * unat (high_index a)" using h by (simp add: unat_word_ariths)
  moreover have "unat ?t + (7 + 4 * unat (high_index a)) < 2 ^ 32"
    using h unat_u32_less [of ?t] page_of_aligned [of t] by (auto simp: page_aligned_def elim!: dvdE)
  ultimately have ue: "unat ?e = unat ?t + (7 + 4 * unat (high_index a))"
    by (simp add: add.assoc unat_add_lem [THEN iffD1])
  obtain k where k: "unat ?t = 4096 * k" using page_of_aligned [of t] by (auto simp: page_aligned_def elim!: dvdE)
  have pe: "page_of ?e = ?t" "unat ?e mod 4096 \<le> 4092"
    using h by (simp_all add: word_unat_eq_iff unat_page_of ue k)
  have e: "page_of (?t + 4 * high_index a) = ?t" "4 dvd unat (?t + 4 * high_index a)"
    by (simp_all add: page_of_offset page_offset_aligned)
  have st: "page_of ?s \<noteq> ?t" using tab(4) assms(3) by simp
  have "apart 4 ?e (tables_at dir (low_index a))" "apart 4 ?e ?s"
    using apart_pages [OF pe(2)] pe(1) pg sl tab(2) st by auto
  moreover have "apart 4 ?e (?t + 4 * high_index a)" by (simp add: apart_def)
  ultimately have "rd (wr ?e 0 st) x = rd st x" if "x \<in> {tables_at dir (low_index a), ?s, ?t + 4 * high_index a}" for x
    using that by (auto simp: rd_def wr_def)
  moreover have free: "free_page a dir st = (wr ?s (page_of a) (wr ?e 0 st))\<lparr>page_ptr := page_ptr st + 1\<rparr>"
    using ne by (simp add: free_page_def push_page_def slot_def Let_def assms(2) or7 flip: page_of_def)
  moreover have "?s \<noteq> tables_at dir (low_index a)" "?s \<noteq> ?t + 4 * high_index a"
    using sl pg e st by auto
  ultimately show ?thesis
    using sl pg e pt ne by (simp add: get_page_def Let_def rd_wr)
qed

section \<open>Mapping a page\<close>

text \<open>A small machine: an empty directory at \<open>0x1000\<close> and one free frame.\<close>

definition demo :: kmem where
  "demo = \<lparr>ram = store32 (\<lambda>_. 0) 0x8000 0x30000, placement = 0x10000, kheap = None, memused = 0,
     page_stack = 0x8000, page_ptr = 1, stack_bottom = 0, npages = 1, kernel_dir = 0x1000, current_dir = 0x1000\<rparr>"

lemma load_zero [simp]: "load32 (\<lambda>_. 0) a = 0"
  by (simp add: load32_def)

lemma demo_rd: "4 dvd unat a \<Longrightarrow> rd demo a = (if a = 0x8000 then 0x30000 else 0)"
  by (auto simp: rd_def demo_def aligned_apart)

lemma u32_le_1: "(i :: u32) \<le> 1 \<longleftrightarrow> i = 0 \<or> i = 1"
proof -
  have "unat i \<le> 1 \<longleftrightarrow> unat i = 0 \<or> unat i = 1" by arith
  then show ?thesis by (simp add: word_le_nat_alt word_unat_eq_iff)
qed

lemma demo_page: "page_aligned 0x1000" by (simp add: page_aligned_def)

lemma demo_entry: "i < 1024 \<Longrightarrow> dir_entry demo 0x1000 i = 0"
proof -
  assume "i < 1024"
  then have "page_of (tables_at 0x1000 i) = 0x1000" "4 dvd unat (tables_at 0x1000 i)"
    using demo_page by (simp_all add: tables_at_def page_of_offset page_offset_aligned)
  moreover from this have "tables_at 0x1000 i \<noteq> 0x8000" by (auto simp: page_of_def)
  ultimately show ?thesis by (simp add: demo_rd)
qed

lemma demo_fields [simp]: "placement demo = 0x10000" "page_stack demo = 0x8000" "page_ptr demo = 1"
  "npages demo = 1" "stack_bottom demo = 0"
  by (simp_all add: demo_def)

lemma demo_ok: "dir_ok demo 0x1000"
  by (simp add: dir_ok_def page_aligned_def slot_def u32_le_1 page_of_def demo_entry del: u32_less_1024)

text \<open>The same machine with a table for the first four megabytes.\<close>

definition demo_mapped :: kmem where
  "demo_mapped = wr 0x1000 0x5007 demo"

lemma demo_mapped_entry: "i < 1024 \<Longrightarrow> dir_entry demo_mapped 0x1000 i = (if i = 0 then 0x5007 else 0)"
proof -
  assume i: "i < 1024"
  have "rd (wr (0x1000 + 4 * 0) 0x5007 demo) (0x1000 + 4 * i) = (if i = 0 then 0x5007 else rd demo (0x1000 + 4 * i))"
    using i demo_page by (subst rd_wr_in_page) auto
  then show ?thesis using demo_entry [OF i] by (simp add: demo_mapped_def tables_at_def)
qed

lemma demo_mapped_ok: "dir_ok demo_mapped 0x1000"
  by (simp add: dir_ok_def page_aligned_def slot_def u32_le_1 page_of_def demo_mapped_entry reserved_def
      del: u32_less_1024) (auto simp: demo_mapped_def page_of_def slot_def u32_le_1)

lemma demo_mapped_fields [simp]: "page_stack demo_mapped = 0x8000" "page_ptr demo_mapped = 1"
  "npages demo_mapped = 1"
  by (simp_all add: demo_mapped_def)

theorem free_page_keeps_mapping_witness:
  "get_page 0x2000 0x1000 (free_page 0x2000 0x1000 demo_mapped) = get_page 0x2000 0x1000 demo_mapped \<and>
    rd (free_page 0x2000 0x1000 demo_mapped) 0x8004 = 0x2000"
  using free_page_keeps_mapping [OF demo_mapped_ok, of "0x2000" "0x5000"]
  by (simp add: demo_mapped_entry low_index_def high_index_def page_of_def slot_def)

theorem page_stack_lifo_witness:
  "\<exists>st'. pop_n pop_page (Suc (Suc 0)) (push_page 0x2fff (push_page 0x1004 demo)) = Inr (st', [0x2000, 0x1000])"
  using page_stack_lifo [of demo "[0x1004, 0x2fff]"] by (auto simp: stack_ok_def page_of_def simp del: pop_n.simps)

theorem early_blocks_disjoint_witness:
  "kmalloc_e_seq [(17, 0), (0x1000, 1), (8, 0)] demo = [(0x10000, 17), (0x11000, 0x1000), (0x12000, 8)] \<and>
    sorted_wrt (\<lambda>(a, m) (b, n). unat a + unat m \<le> unat b) (kmalloc_e_seq [(17, 0), (0x1000, 1), (8, 0)] demo)"
proof
  show "kmalloc_e_seq [(17, 0), (0x1000, 1), (8, 0)] demo = [(0x10000, 17), (0x11000, 0x1000), (0x12000, 8)]"
    by (simp add: kmalloc_e_def)
  show "sorted_wrt (\<lambda>(a, m) (b, n). unat a + unat m \<le> unat b) (kmalloc_e_seq [(17, 0), (0x1000, 1), (8, 0)] demo)"
    using early_blocks_disjoint [of demo "[(17, 0), (0x1000, 1), (8, 0)]"] by simp
qed

end
