(* ===== verification/Alloc.thy ===== *)
theory Alloc
  imports Page_Dir
begin

text \<open>
  The kernel heap of \<open>kern/mem/alloc.c\<close>. The heap is an implicit binary tree over a range of words: a
  node of \<open>node_size\<close> words has its header word at its start, and its right half starts \<open>node_size / 2\<close>
  words further. A header holding \<open>KHEAP_MAGIC\<close> is an allocated block.

  \<open>find_free_node\<close> searches and marks; \<open>malloc_f\<close> retries after \<open>expand\<close>, which maps pages for twice the heap
  while \<open>full\<close> is set, so that the page tables it needs come from the early allocator.
\<close>

section \<open>Definitions\<close>

abbreviation (input) KHEAP_MAGIC :: u32 where "KHEAP_MAGIC \<equiv> 0xfee1dead"
abbreviation (input) KHEAP_FREED :: u32 where "KHEAP_FREED \<equiv> 0xbadc0de"
abbreviation (input) KHEAP_MIN_ALLOC :: u32 where "KHEAP_MIN_ALLOC \<equiv> 4"

text \<open>
  The word \<open>s\<close> is an \<open>int\<close> in the source; it is at most \<open>2^31 - 1\<close>, so its signed and unsigned comparisons
  agree. \<open>temp += s\<close> advances by \<open>s\<close> headers of four bytes. The result is the memory and the address of
  the block, or 0.
\<close>

function find_free_node :: "mem \<Rightarrow> u32 \<Rightarrow> u32 \<Rightarrow> u32 \<Rightarrow> u32 \<Rightarrow> mem \<times> u32" where
  "find_free_node m node node_size sz align =
    (let s = node_size div 2; temp = node + 4 * s in
     if s \<le> KHEAP_MIN_ALLOC \<or> (load32 m temp = KHEAP_MAGIC \<and> load32 m node = KHEAP_MAGIC) then (m, 0)
     else
       let (m1, ret) =
         (if sz < s div 2 then
            let (m1, ret) = find_free_node m temp s sz align in
            if ret \<noteq> 0 then (m1, ret) else find_free_node m1 node s sz align
          else (m, 0))
       in if ret \<noteq> 0 then (m1, ret)
          else if load32 m1 temp \<noteq> KHEAP_MAGIC then (store32 m1 temp KHEAP_MAGIC, temp + 4)
          else if load32 m1 node \<noteq> KHEAP_MAGIC then (store32 m1 node KHEAP_MAGIC, node + 4)
          else (m1, 0))"
  by pat_completeness auto
termination
  by (relation "measure (\<lambda>(m, node, node_size, sz, align). unat node_size)")
    (auto simp: unat_div word_le_nat_alt)

declare find_free_node.simps [simp del]

text \<open>\<open>expand\<close>: \<open>map_pages\<close> runs with \<open>full\<close> set, where \<open>kmalloc\<close> is \<open>kmalloc_e\<close>.\<close>

definition expand :: "heap_t \<Rightarrow> kmem \<Rightarrow> (heap_t \<times> kmem) run" where
  "expand heap st =
    (let old_size = hsize heap * 4; new_size = old_size * 2; r = root heap in
     and_then
       (map_pages_with kmalloc_early (r + old_size) (r + new_size + 0x100 + 0x10000) 7 (current_dir st)
          (st\<lparr>kheap := Some (heap\<lparr>full := 1\<rparr>)\<rparr>))
       (\<lambda>st1. let h = heap\<lparr>full := 0, hsize := new_size div 4\<rparr>
              in done_with (h, st1\<lparr>kheap := Some h\<rparr>)))"

text \<open>
  The search and the \<open>while\<close> loop of \<open>malloc_f\<close>: the panic comes after the search of the round in which
  \<open>r_count\<close> has passed 3, whether that search succeeded or not.
\<close>

definition search :: "heap_t \<Rightarrow> u32 \<Rightarrow> u32 \<Rightarrow> kmem \<Rightarrow> kmem \<times> u32" where
  "search heap sz align st =
    (let (m, ret) = find_free_node (ram st) (root heap) (hsize heap) (sz + 4) align in (st\<lparr>ram := m\<rparr>, ret))"

fun malloc_loop :: "nat \<Rightarrow> heap_t \<Rightarrow> u32 \<Rightarrow> u32 \<Rightarrow> kmem \<Rightarrow> u32 \<Rightarrow> (heap_t \<times> kmem \<times> u32) run" where
  "malloc_loop rounds heap sz align st ret =
    (if ret \<noteq> 0 then done_with (heap, st, ret)
     else and_then (expand heap st) (\<lambda>(h1, st1).
       let (st2, ret1) = search h1 sz align st1 in
       case rounds of 0 \<Rightarrow> Some (Inl (PANIC ''well feck''))
       | Suc k \<Rightarrow> malloc_loop k h1 sz align st2 ret1))"

definition malloc_f :: "heap_t \<Rightarrow> u32 \<Rightarrow> u32 \<Rightarrow> kmem \<Rightarrow> (kmem \<times> u32 \<times> u32) run" where
  "malloc_f heap sz align st =
    (let st0 = st\<lparr>memused := memused st + (sz + 4)\<rparr>;
         (st1, ret) = search heap sz align st0
     in and_then (malloc_loop 4 heap sz align st1 ret) (\<lambda>(h, st2, r).
          done_with (st2, r, get_page r (current_dir st2) st2)))"

definition kmalloc :: alloc where
  "kmalloc sz align st =
    (case kheap st of
       Some h \<Rightarrow> if full h = 0 then malloc_f h sz align st else kmalloc_early sz align st
     | None \<Rightarrow> kmalloc_early sz align st)"

text \<open>\<open>free_f\<close>: both failing cases print and panic.\<close>

definition free_f :: "heap_t option \<Rightarrow> u32 \<Rightarrow> kmem \<Rightarrow> kmem exec" where
  "free_f heap ptr st =
    (let p = ptr - 4 in
     case heap of None \<Rightarrow> Inr st
     | Some h \<Rightarrow> if rd st p = KHEAP_MAGIC then Inr (wr p KHEAP_FREED st) else Inl (PANIC ''bad free''))"

definition kfree :: "u32 \<Rightarrow> kmem \<Rightarrow> kmem exec" where
  "kfree ptr st = free_f (kheap st) ptr st"

definition get_memused :: "kmem \<Rightarrow> u32" where
  "get_memused st = memused st"

text \<open>\<open>init_heap\<close>; \<open>sizeof( heap_t )\<close> is 17, the structure is packed.\<close>

definition init_heap :: "u32 \<Rightarrow> u32 \<Rightarrow> kmem \<Rightarrow> (kmem \<times> heap_t) run" where
  "init_heap start sz st =
    and_then (kmalloc 17 0 st) (\<lambda>(st1, a, ph).
      done_with (st1, \<lparr>magics = KHEAP_MAGIC, hsize = sz div 4, used = 0, root = start, full = 0\<rparr>))"

text \<open>The mapping operations of \<open>paging.c\<close> with the kernel's allocator.\<close>

definition map_page :: "u32 \<Rightarrow> u32 \<Rightarrow> u32 \<Rightarrow> kmem \<Rightarrow> kmem run" where
  "map_page = map_page_with kmalloc"

definition map_r_page :: "u32 \<Rightarrow> u32 \<Rightarrow> u32 \<Rightarrow> u32 \<Rightarrow> kmem \<Rightarrow> kmem run" where
  "map_r_page = map_r_page_with kmalloc"

definition rmap_r_page :: "u32 \<Rightarrow> u32 \<Rightarrow> u32 \<Rightarrow> kmem \<Rightarrow> kmem run" where
  "rmap_r_page = rmap_r_page_with kmalloc"

definition map_pages :: "u32 \<Rightarrow> u32 \<Rightarrow> u32 \<Rightarrow> u32 \<Rightarrow> kmem \<Rightarrow> kmem run" where
  "map_pages = map_pages_with kmalloc"

definition map_r_pages :: "u32 \<Rightarrow> u32 \<Rightarrow> u32 \<Rightarrow> u32 \<Rightarrow> u32 \<Rightarrow> kmem \<Rightarrow> kmem run" where
  "map_r_pages start en real = map_r_pages_with kmalloc start real en"

section \<open>Mapping a page\<close>

text \<open>
  The allocator does not matter where the directory has a table. Without one \<open>map_page\<close> gets it from \<open>kmalloc\<close>, which is the
  early allocator until there is a heap.
\<close>

lemma map_page_is_early:
  assumes "kheap st = None \<or> dir_entry st dir (low_index a) \<noteq> 0"
  shows "map_page a perms dir st = map_page_with kmalloc_early a perms dir st"
proof -
  have "kmalloc 4096 1 st = kmalloc_early 4096 1 st" if "kheap st = None" using that by (simp add: kmalloc_def)
  with assms have "ensure_table kmalloc a perms dir st = ensure_table kmalloc_early a perms dir st"
    by (auto simp: ensure_table_def Let_def)
  then show ?thesis by (simp add: map_page_def map_page_with_def)
qed

text \<open>
  C16. Mapping a page, as long as there is no heap or where the directory has a table for the address: \<open>map_page\<close> succeeds while a
  frame is left and keeps the directory well formed; the page gets the top frame, or keeps its own if it was mapped,
  with the permission bits added; the frame leaves the stack; every other page of the directory, whether in the same
  table or not, stays mapped as it was. (A table from the heap does not start at a page, and \<open>map_page\<close> masks its address
  down onto the header of the block; that case is excluded.)
\<close>

theorem map_page_maps:
  assumes "dir_ok st dir" "unat (placement st) + 0x2000 < 2 ^ 32" "perms < 0x1000" "stack_bottom st < page_ptr st"
    and "kheap st = None \<or> dir_entry st dir (low_index a) \<noteq> 0"
  shows "\<exists>st'. map_page a perms dir st = done_with st' \<and> dir_ok st' dir \<and>
    get_page a dir st' = (if get_page a dir st = 0 then top_frame st else get_page a dir st) OR perms \<and>
    page_ptr st' = (if get_page a dir st = 0 then page_ptr st - 1 else page_ptr st) \<and>
    (\<forall>b. page_of b \<noteq> page_of a \<longrightarrow> get_page b dir st' = get_page b dir st)"
  unfolding map_page_is_early [OF assms(5)] by (rule map_page_early [OF assms(1-4), of a]) blast

theorem map_page_maps_witness:
  "\<exists>st'. map_page 0xc0000000 7 0x1000 demo = done_with st' \<and>
    get_page 0xc0000000 0x1000 st' = 0x30007 \<and> page_ptr st' = 0"
proof -
  have g: "get_page 0xc0000000 0x1000 demo = 0" by (simp add: get_page_def Let_def demo_entry)
  have "top_frame demo = 0x30000" by (simp add: top_frame_def slot_def demo_rd)
  moreover have "kheap demo = None" by (simp add: demo_def)
  ultimately show ?thesis
    using map_page_maps [OF demo_ok, of 7 "0xc0000000"] g by auto
qed

section \<open>The search\<close>

text \<open>
  \<open>takes m m' r node n sz\<close>: the search in the tree of \<open>n\<close> words at \<open>node\<close> returned the block \<open>r\<close>.
\<close>

definition takes :: "mem \<Rightarrow> mem \<Rightarrow> u32 \<Rightarrow> u32 \<Rightarrow> u32 \<Rightarrow> u32 \<Rightarrow> bool" where
  "takes m m' r node n sz \<longleftrightarrow>
    (\<exists>k. k < unat n \<and> r = node + 4 * of_nat k + 4 \<and>
      load32 m (node + 4 * of_nat k) \<noteq> KHEAP_MAGIC \<and> m' = store32 m (node + 4 * of_nat k) KHEAP_MAGIC \<and>
      (unat sz \<le> 2 * unat n \<longrightarrow> 4 * k + unat sz \<le> 4 * unat n))"

lemma unat_words:
  fixes node n :: u32
  assumes "unat node + 4 * unat n < 2 ^ 32" "k \<le> unat n"
  shows "unat (node + 4 * of_nat k) = unat node + 4 * k"
proof -
  have "unat ((4 :: u32) * of_nat k) = 4 * k"
    using assms by (simp add: unat_word_ariths unat_of_nat)
  then show ?thesis using assms by (subst unat_add_lem [THEN iffD1]) simp_all
qed

lemma takes_nonzero:
  assumes "takes m m' r node n sz" "unat node + 4 * unat n < 2 ^ 32"
  shows "r \<noteq> 0"
proof -
  from assms(1) obtain k where k: "k < unat n" "r = node + 4 * of_nat (Suc k)"
    by (auto simp: takes_def algebra_simps)
  then have "unat r = unat node + 4 * Suc k" using unat_words [OF assms(2), of "Suc k"] by simp
  then show ?thesis by auto
qed

lemma half_less:
  assumes "4 < (n :: u32) div 2"
  shows "unat (n div 2) = unat n div 2" "4 < unat n div 2" "unat (n div 2 div 2) = unat n div 4"
  using assms by (simp_all add: unat_div word_less_nat_alt div_mult2_eq [symmetric])

lemma of_nat_half: "(of_nat (unat n div 2) :: u32) = n div 2"
proof -
  have "unat n div 2 = unat (n div 2)" by (simp add: unat_div)
  then show ?thesis by simp
qed

lemma takes_left:
  assumes "takes m m' r node (n div 2) sz" "unat sz < unat n div 4"
  shows "takes m m' r node n sz"
proof -
  from assms obtain k where "k < unat n div 2" "r = node + 4 * of_nat k + 4"
    "load32 m (node + 4 * of_nat k) \<noteq> KHEAP_MAGIC" "m' = store32 m (node + 4 * of_nat k) KHEAP_MAGIC"
    "4 * k + unat sz \<le> 4 * (unat n div 2)"
    by (auto simp: takes_def unat_div)
  then show ?thesis unfolding takes_def by (intro exI [of _ k]) auto
qed

lemma takes_right:
  assumes "takes m m' r (node + 4 * (n div 2)) (n div 2) sz" "unat sz < unat n div 4"
  shows "takes m m' r node n sz"
proof -
  let ?h = "unat n div 2"
  from assms obtain k where k: "k < ?h" "r = node + 4 * (n div 2) + 4 * of_nat k + 4"
    "load32 m (node + 4 * (n div 2) + 4 * of_nat k) \<noteq> KHEAP_MAGIC"
    "m' = store32 m (node + 4 * (n div 2) + 4 * of_nat k) KHEAP_MAGIC" "4 * k + unat sz \<le> 4 * ?h"
    by (auto simp: takes_def unat_div)
  have "node + 4 * of_nat (?h + k) = node + 4 * (n div 2) + 4 * of_nat k"
    by (simp add: algebra_simps of_nat_half)
  then show ?thesis unfolding takes_def using k by (intro exI [of _ "?h + k"]) (auto simp only:, auto)
qed

lemma takes_here:
  assumes "unat i < unat n" "load32 m (node + 4 * i) \<noteq> KHEAP_MAGIC"
    and "unat sz \<le> 2 * unat n \<longrightarrow> 4 * unat i + unat sz \<le> 4 * unat n"
  shows "takes m (store32 m (node + 4 * i) KHEAP_MAGIC) (node + 4 * i + 4) node n sz"
  unfolding takes_def using assms by (intro exI [of _ "unat i"]) simp

definition take_here :: "mem \<Rightarrow> u32 \<Rightarrow> u32 \<Rightarrow> mem \<times> u32" where
  "take_here m node n =
    (let t = node + 4 * (n div 2) in
     if load32 m t \<noteq> KHEAP_MAGIC then (store32 m t KHEAP_MAGIC, t + 4)
     else if load32 m node \<noteq> KHEAP_MAGIC then (store32 m node KHEAP_MAGIC, node + 4) else (m, 0))"

lemma takes_fallback:
  assumes "take_here m node n = (m', r)" "4 < n div 2"
    and "\<not> (load32 m (node + 4 * (n div 2)) = KHEAP_MAGIC \<and> load32 m node = KHEAP_MAGIC)"
  shows "takes m m' r node n sz"
proof -
  note h = half_less [OF assms(2)]
  have "2 * (unat n div 2) \<le> unat n" by simp
  then have hf: "unat sz \<le> 2 * unat n \<longrightarrow> 4 * unat (n div 2) + unat sz \<le> 4 * unat n" using h by linarith
  have "unat (n div 2) < unat n" "0 < unat n" using h by auto
  note here = takes_here [OF this(1) _ hf] takes_here [of 0 n m node sz, OF _ _ impI]
  show ?thesis using assms here \<open>0 < unat n\<close> by (auto simp: take_here_def Let_def split: if_splits)
qed

text \<open>The search, once the node is known not to be exhausted.\<close>

lemma find_free_node_unfold:
  assumes "4 < n div 2" "\<not> (load32 m (node + 4 * (n div 2)) = KHEAP_MAGIC \<and> load32 m node = KHEAP_MAGIC)"
  shows "find_free_node m node n sz al =
    (let s = n div 2;
         (m1, ret) = (if sz < s div 2 then
            let (m1, ret) = find_free_node m (node + 4 * s) s sz al in
            if ret \<noteq> 0 then (m1, ret) else find_free_node m1 node s sz al
          else (m, 0))
     in if ret \<noteq> 0 then (m1, ret) else take_here m1 node n)"
proof -
  have "\<not> (n div 2 \<le> 4 \<or> load32 m (node + 4 * (n div 2)) = KHEAP_MAGIC \<and> load32 m node = KHEAP_MAGIC)"
    using assms by (simp add: not_le)
  then show ?thesis
    unfolding find_free_node.simps [of m node n] take_here_def Let_def by (simp only: if_False)
qed

lemma find_free_node_stop:
  "n div 2 \<le> 4 \<or> load32 m (node + 4 * (n div 2)) = KHEAP_MAGIC \<and> load32 m node = KHEAP_MAGIC \<Longrightarrow>
    find_free_node m node n sz al = (m, 0)"
  by (subst find_free_node.simps) (auto simp: Let_def)

lemma find_free_node_spec:
  assumes "find_free_node m node n sz al = (m', r)" "unat node + 4 * unat n < 2 ^ 32"
  shows "(r = 0 \<and> m' = m \<and>
      (n div 2 \<le> 4 \<or> load32 m (node + 4 * (n div 2)) = KHEAP_MAGIC \<and> load32 m node = KHEAP_MAGIC)) \<or>
    (4 < n div 2 \<and> takes m m' r node n sz)"
  using assms
proof (induction m node n sz al arbitrary: m' r rule: find_free_node.induct)
  case (1 m node n sz al)
  let ?s = "n div 2" and ?t = "node + 4 * (n div 2)"
  show ?case
  proof (cases "?s \<le> 4 \<or> load32 m ?t = KHEAP_MAGIC \<and> load32 m node = KHEAP_MAGIC")
    case True
    with "1.prems"(1) find_free_node_stop [OF True] show ?thesis by auto
  next
    case False
    then have s4: "4 < ?s" by (auto simp: not_le)
    note unf = find_free_node_unfold [OF s4, of m node sz al] and h = half_less [OF s4]
    have fb: "take_here m node n = (m', r) \<Longrightarrow> takes m m' r node n sz"
      using takes_fallback s4 False by blast
    show ?thesis
    proof (cases "sz < ?s div 2")
      case small: False
      with fb s4 "1.prems"(1) unf False show ?thesis by (simp add: Let_def)
    next
      case True
      then have sz: "unat sz < unat n div 4" using h by (simp add: word_less_nat_alt)
      obtain m1 r1 where f1: "find_free_node m ?t ?s sz al = (m1, r1)" by force
      obtain m2 r2 where f2: "find_free_node m1 node ?s sz al = (m2, r2)" by force
      have "unat ?t = unat node + 4 * (unat n div 2)"
        using unat_words [OF "1.prems"(2), of "unat n div 2"] by (simp add: of_nat_half)
      then have tb: "unat ?t + 4 * unat ?s < 2 ^ 32" and nb: "unat node + 4 * unat ?s < 2 ^ 32"
        using h "1.prems"(2) by linarith+
      have IH1: "(r1 = 0 \<and> m1 = m) \<or> takes m m1 r1 ?t ?s sz"
        using "1.IH"(1) [OF refl refl _ True f1 tb] False by blast
      have IH2: "r2 = 0 \<and> m2 = m \<or> takes m m2 r2 node ?s sz" if "r1 = 0"
        using "1.IH"(2) [OF refl refl _ True f1 [symmetric] refl, of m2 r2] that nb f2 IH1 False
          takes_nonzero [OF _ tb] by blast
      consider "takes m m1 r1 ?t ?s sz" "r1 \<noteq> 0" | "r1 = 0" "m1 = m" "takes m m2 r2 node ?s sz" "r2 \<noteq> 0"
        | "r1 = 0" "m1 = m" "r2 = 0" "m2 = m"
        using IH1 IH2 takes_nonzero [OF _ tb] takes_nonzero [OF _ nb] by blast
      then show ?thesis
        using "1.prems"(1) unf False True f1 f2 s4 fb takes_right [OF _ sz] takes_left [OF _ sz]
        by cases (simp_all add: Let_def)
    qed
  qed
qed

section \<open>Blocks\<close>

lemma takes_block:
  assumes "takes m m' r node n sz" "unat node + 4 * unat n < 2 ^ 32" "4 dvd unat node"
  shows "4 dvd unat (r - 4)" "unat r = unat (r - 4) + 4" "unat node \<le> unat (r - 4)"
    "unat (r - 4) < unat node + 4 * unat n" "load32 m (r - 4) \<noteq> KHEAP_MAGIC"
    "m' = store32 m (r - 4) KHEAP_MAGIC"
    "unat sz \<le> 2 * unat n \<longrightarrow> unat (r - 4) + unat sz \<le> unat node + 4 * unat n"
proof -
  from assms(1) obtain k where k: "k < unat n" "r = node + 4 * of_nat k + 4"
      "load32 m (node + 4 * of_nat k) \<noteq> KHEAP_MAGIC" "m' = store32 m (node + 4 * of_nat k) KHEAP_MAGIC"
      "unat sz \<le> 2 * unat n \<longrightarrow> 4 * k + unat sz \<le> 4 * unat n"
    by (auto simp: takes_def)
  have r: "r - 4 = node + 4 * of_nat k" "r = node + 4 * of_nat (Suc k)"
    using k(2) by (simp_all add: algebra_simps)
  have u: "unat (r - 4) = unat node + 4 * k" "unat r = unat node + 4 * Suc k"
    using unat_words [OF assms(2), of k] unat_words [OF assms(2), of "Suc k"] k(1) unfolding r by simp_all
  show "4 dvd unat (r - 4)" "unat r = unat (r - 4) + 4" "unat node \<le> unat (r - 4)"
    "unat (r - 4) < unat node + 4 * unat n"
    "unat sz \<le> 2 * unat n \<longrightarrow> unat (r - 4) + unat sz \<le> unat node + 4 * unat n"
    using u k assms(3) by auto
  show "load32 m (r - 4) \<noteq> KHEAP_MAGIC" "m' = store32 m (r - 4) KHEAP_MAGIC" using k r by simp_all
qed

text \<open>
  The search for a free block, on any memory: it fails, and then changes nothing, exactly when the heap
  has at most nine words or both halves of the root are marked; otherwise it returns a block whose
  header was not marked, lies in the heap and is now marked, no other word of memory changes, and a
  request of at most half the heap fits between the block's header and the end of the heap.
\<close>

theorem find_free_node_finds:
  assumes "unat node + 4 * unat n < 2 ^ 32" "4 dvd unat node"
    and "find_free_node m node n sz al = (m', r)"
  shows "(r = 0 \<longleftrightarrow> n div 2 \<le> KHEAP_MIN_ALLOC \<or>
      (load32 m (node + 4 * (n div 2)) = KHEAP_MAGIC \<and> load32 m node = KHEAP_MAGIC)) \<and>
    (if r = 0 then m' = m
     else load32 m (r - 4) \<noteq> KHEAP_MAGIC \<and> load32 m' (r - 4) = KHEAP_MAGIC \<and>
       unat node \<le> unat (r - 4) \<and> unat (r - 4) < unat node + 4 * unat n \<and> 4 dvd unat r \<and>
       (\<forall>b. 4 dvd unat b \<and> b \<noteq> r - 4 \<longrightarrow> load32 m' b = load32 m b) \<and>
       (unat sz \<le> 2 * unat n \<longrightarrow> unat (r - 4) + unat sz \<le> unat node + 4 * unat n))"
proof (cases "r = 0")
  case True
  then show ?thesis using find_free_node_spec [OF assms(3,1)] takes_nonzero [OF _ assms(1)] by auto
next
  case False
  then have *: "4 < n div 2" "takes m m' r node n sz" using find_free_node_spec [OF assms(3,1)] by auto
  note b = takes_block [OF *(2) assms(1,2)]
  have "\<not> (n div 2 \<le> 4 \<or> load32 m (node + 4 * (n div 2)) = KHEAP_MAGIC \<and> load32 m node = KHEAP_MAGIC)"
    using find_free_node_stop [of n m node sz al] assms(3) False by auto
  moreover have "load32 m' c = load32 m c" if "4 dvd unat c" "c \<noteq> r - 4" for c
    using aligned_apart [OF b(1) that(1)] that(2) b(6) by auto
  moreover have "4 dvd unat r" using b(1,2) by simp
  ultimately show ?thesis using False b by simp
qed

theorem find_free_node_finds_witness:
  "snd (find_free_node (\<lambda>_. 0) 0xc0000000 128 20 0) = 0xc0000184 \<and>
    load32 (fst (find_free_node (\<lambda>_. 0) 0xc0000000 128 20 0)) 0xc0000180 = KHEAP_MAGIC \<and>
    load32 (fst (find_free_node (\<lambda>_. 0) 0xc0000000 128 20 0)) 0xc0000100 = 0"
proof -
  have "snd (find_free_node (\<lambda>_. 0) 0xc0000000 128 20 0) = 0xc0000184"
    by (simp add: find_free_node.simps Let_def)
  then show ?thesis
    using find_free_node_finds [of "0xc0000000" 128 "\<lambda>_. 0" 20 0, OF _ _ prod.collapse [symmetric]]
    by simp
qed

section \<open>Live blocks\<close>

text \<open>A block is live while its header is marked.\<close>

definition live :: "kmem \<Rightarrow> u32 set" where
  "live st = {a. 4 dvd unat (a - 4) \<and> rd st (a - 4) = KHEAP_MAGIC}"

definition heap_ok :: "kmem \<Rightarrow> bool" where
  "heap_ok st \<longleftrightarrow> (\<exists>h. kheap st = Some h \<and> 4 dvd unat (root h) \<and> unat (root h) + 4 * unat (hsize h) < 2 ^ 32)"

lemma live_wr:
  assumes "4 dvd unat (a - 4)" 
  shows "live (wr (a - 4) KHEAP_MAGIC st) = insert a (live st)"
    "live (wr (a - 4) KHEAP_FREED st) = live st - {a}"
  using assms by (auto simp: live_def rd_wr split: if_splits)

text \<open>The successful search as a request on the heap.\<close>

definition request :: "u32 \<times> u32 \<Rightarrow> kmem \<Rightarrow> (kmem \<times> u32) option" where
  "request q st =
    (case kheap st of None \<Rightarrow> None
     | Some h \<Rightarrow> (let (st', r) = search h (fst q) (snd q) st in if r = 0 then None else Some (st', r)))"

lemma request_live:
  assumes "heap_ok st" "request q st = Some (st', a)"
  shows "heap_ok st'" "a \<notin> live st" "live st' = insert a (live st)" "4 dvd unat (a - 4)"
proof -
  obtain h where h: "kheap st = Some h" "4 dvd unat (root h)" "unat (root h) + 4 * unat (hsize h) < 2 ^ 32"
    using assms(1) by (auto simp: heap_ok_def)
  obtain m where f: "find_free_node (ram st) (root h) (hsize h) (fst q + 4) (snd q) = (m, a)"
    and st': "st' = st\<lparr>ram := m\<rparr>" and a: "a \<noteq> 0"
    using assms(2) h(1) by (auto simp: request_def search_def split: prod.splits if_splits)
  have "takes (ram st) m a (root h) (hsize h) (fst q + 4)"
    using find_free_node_spec [OF f h(3)] a by auto
  note b = takes_block [OF this h(3,2)]
  then have "st' = wr (a - 4) KHEAP_MAGIC st" by (simp add: st' wr_def)
  with b live_wr [OF b(1)] show "live st' = insert a (live st)" by simp
  show "a \<notin> live st" "4 dvd unat (a - 4)" using b by (simp_all add: live_def rd_def)
  show "heap_ok st'" using assms(1) st' by (simp add: heap_ok_def)
qed

lemma kfree_live:
  assumes "heap_ok st" "4 dvd unat (a - 4)"
  shows "a \<in> live st \<Longrightarrow> \<exists>st'. kfree a st = Inr st' \<and> heap_ok st' \<and> live st' = live st - {a}"
    "a \<notin> live st \<Longrightarrow> kfree a st = Inl (PANIC ''bad free'')"
proof -
  obtain h where h: "kheap st = Some h" using assms(1) by (auto simp: heap_ok_def)
  show "a \<notin> live st \<Longrightarrow> kfree a st = Inl (PANIC ''bad free'')"
    using h assms(2) by (simp add: kfree_def free_f_def live_def)
  assume "a \<in> live st"
  then have "kfree a st = Inr (wr (a - 4) KHEAP_FREED st)"
    using h by (simp add: kfree_def free_f_def live_def)
  then show "\<exists>st'. kfree a st = Inr st' \<and> heap_ok st' \<and> live st' = live st - {a}"
    using live_wr(2) [OF assms(2)] assms(1) by (auto simp: heap_ok_def)
qed

text \<open>The contract of an allocator, and what its users may rely on.\<close>

locale block_allocator =
  fixes ok :: "'s \<Rightarrow> bool" and blocks :: "'s \<Rightarrow> 'a set" and valid :: "'a \<Rightarrow> bool"
    and get :: "'q \<Rightarrow> 's \<Rightarrow> ('s \<times> 'a) option" and release :: "'a \<Rightarrow> 's \<Rightarrow> 's exec"
  assumes get: "ok s \<Longrightarrow> get q s = Some (s', a) \<Longrightarrow>
      ok s' \<and> valid a \<and> a \<notin> blocks s \<and> blocks s' = insert a (blocks s)"
    and release: "ok s \<Longrightarrow> valid a \<Longrightarrow> a \<in> blocks s \<Longrightarrow>
      \<exists>s'. release a s = Inr s' \<and> ok s' \<and> blocks s' = blocks s - {a}"
    and release_bad: "ok s \<Longrightarrow> valid a \<Longrightarrow> a \<notin> blocks s \<Longrightarrow> \<exists>e. release a s = Inl e"
begin

lemma get_release:
  assumes "ok s" "get q s = Some (s1, a)"
  shows "\<exists>s2. release a s1 = Inr s2 \<and> ok s2 \<and> blocks s2 = blocks s \<and> (\<exists>e. release a s2 = Inl e)"
proof -
  from get [OF assms] have g: "ok s1" "valid a" "a \<notin> blocks s" "blocks s1 = insert a (blocks s)" by auto
  then obtain s2 where "release a s1 = Inr s2" "ok s2" "blocks s2 = blocks s"
    using release [of s1 a] by auto
  with g release_bad [of s2 a] show ?thesis by auto
qed

lemma two_gets:
  assumes "ok s" "get q s = Some (s1, a)" "get q' s1 = Some (s2, b)"
  shows "a \<noteq> b"
  using get [OF assms(1,2)] get [of s1 q' s2 b] assms(3) by auto

end

interpretation heap_blocks: block_allocator heap_ok live "\<lambda>a. 4 dvd unat (a - 4)" request kfree
  by unfold_locales (use request_live kfree_live in auto)

text \<open>
  C32. Blocks of the kernel heap: two blocks taken one after the other are different, a block that is
  returned was not live before and is live afterwards, freeing it succeeds and restores the
  set of live blocks, and freeing it a second time panics instead of corrupting the heap.
\<close>

theorem heap_block_lifecycle:
  assumes "heap_ok st" "request q st = Some (st1, a)" "request q' st1 = Some (st2, b)"
  shows "a \<noteq> b \<and> a \<notin> live st \<and> live st1 = insert a (live st) \<and>
    (\<exists>st3. kfree a st1 = Inr st3 \<and> live st3 = live st \<and> kfree a st3 = Inl (PANIC ''bad free''))"
proof -
  note r = request_live [OF assms(1,2)]
  obtain st3 where "kfree a st1 = Inr st3" "heap_ok st3" "live st3 = live st"
    using heap_blocks.get_release [OF assms(1,2)] by blast
  then show ?thesis
    using r heap_blocks.two_gets [OF assms] kfree_live(2) [of st3 a] by auto
qed

text \<open>A heap of 128 words in the machine of \<open>demo\<close>.\<close>

definition demo_heap :: kmem where
  "demo_heap = demo\<lparr>ram := (\<lambda>_. 0), kheap := Some \<lparr>magics = KHEAP_MAGIC, hsize = 128, used = 0, root = 0xc0000000, full = 0\<rparr>\<rparr>"

theorem heap_block_lifecycle_witness:
  "\<exists>st1 st2 st3. request (16, 0) demo_heap = Some (st1, 0xc0000184) \<and> request (16, 0) st1 = Some (st2, 0xc0000104) \<and>
    kfree 0xc0000184 st1 = Inr st3 \<and> kfree 0xc0000184 st3 = Inl (PANIC ''bad free'')"
proof -
  have ok: "heap_ok demo_heap" by (simp add: heap_ok_def demo_heap_def)
  have f1: "find_free_node (\<lambda>_. 0) 0xc0000000 128 20 0 = (store32 (\<lambda>_. 0) 0xc0000180 KHEAP_MAGIC, 0xc0000184)"
    by (simp add: find_free_node.simps Let_def)
  have f2: "snd (find_free_node (store32 (\<lambda>_. 0) 0xc0000180 KHEAP_MAGIC) 0xc0000000 128 20 0) = 0xc0000104"
    by (simp add: find_free_node.simps Let_def aligned_apart)
  from f1 obtain st1 where s1: "request (16, 0) demo_heap = Some (st1, 0xc0000184)"
    "ram st1 = store32 (\<lambda>_. 0) 0xc0000180 KHEAP_MAGIC" "kheap st1 = kheap demo_heap"
    by (simp add: request_def search_def demo_heap_def)
  obtain m2 where "find_free_node (ram st1) 0xc0000000 128 20 0 = (m2, 0xc0000104)"
    using f2 unfolding s1(2) by (metis prod.collapse)
  then have s2: "request (16, 0) st1 = Some (st1\<lparr>ram := m2\<rparr>, 0xc0000104)"
    by (simp add: request_def search_def s1(3)) (simp add: demo_heap_def search_def)
  from heap_block_lifecycle [OF ok s1(1) s2] s1 s2 show ?thesis by blast
qed


section \<open>What the search does not look at\<close>

text \<open>A heap of 256 kilobytes.\<close>

definition demo_heap2 :: kmem where
  "demo_heap2 = demo\<lparr>ram := (\<lambda>_. 0), kheap := Some \<lparr>magics = KHEAP_MAGIC, hsize = 0x10000, used = 0, root = 0xc0000000, full = 0\<rparr>\<rparr>"

lemma demo_heap2_first:
  "find_free_node (\<lambda>_. 0) 0xc0000000 0x10000 0x1fff4 0 = (store32 (\<lambda>_. 0) 0xc0020000 KHEAP_MAGIC, 0xc0020004)"
  by (simp add: find_free_node.simps Let_def)

lemma demo_heap2_second:
  "snd (find_free_node (store32 (\<lambda>_. 0) 0xc0020000 KHEAP_MAGIC) 0xc0000000 0x10000 20 0) = 0xc003ff84"
  by (simp add: find_free_node.simps Let_def aligned_apart)

text \<open>
  The heap hands out overlapping blocks: a block that takes the upper half of the heap does not
  keep the search out of that half, so a small request that follows is served from inside the block,
  while both blocks are live.
\<close>

theorem heap_blocks_overlap:
  "\<exists>st1 st2 a b. request (0x1fff0, 0) demo_heap2 = Some (st1, a) \<and> request (16, 0) st1 = Some (st2, b) \<and>
     a \<in> live st2 \<and> b \<in> live st2 \<and> unat a < unat b - 4 \<and> unat b + 16 \<le> unat a + 0x1fff0"
proof -
  let ?st1 = "demo_heap2\<lparr>ram := store32 (\<lambda>_. 0) 0xc0020000 KHEAP_MAGIC\<rparr>"
  have ok: "heap_ok demo_heap2" by (simp add: heap_ok_def demo_heap2_def)
  have r1: "request (0x1fff0, 0) demo_heap2 = Some (?st1, 0xc0020004)"
    using demo_heap2_first by (simp add: request_def search_def demo_heap2_def)
  obtain m2 where "find_free_node (store32 (\<lambda>_. 0) 0xc0020000 KHEAP_MAGIC) 0xc0000000 0x10000 20 0 = (m2, 0xc003ff84)"
    using demo_heap2_second
    by (cases "find_free_node (store32 (\<lambda>_. 0) 0xc0020000 KHEAP_MAGIC) 0xc0000000 0x10000 20 0") auto
  then have r2: "request (16, 0) ?st1 = Some (?st1\<lparr>ram := m2\<rparr>, 0xc003ff84)"
    by (simp add: request_def search_def demo_heap2_def)
  from request_live [OF ok r1] request_live [OF _ r2] have "0xc0020004 \<in> live (?st1\<lparr>ram := m2\<rparr>)"
    "0xc003ff84 \<in> live (?st1\<lparr>ram := m2\<rparr>)" by auto
  with r1 r2 show ?thesis by fastforce
qed

text \<open>
  The search does not compare the request with the size of the heap: while the upper half of the root
  is not marked, every request that does not descend gets it, whatever its size.
\<close>

theorem heap_oversized_request:
  assumes "4 < n div 2" "n div 2 div 2 \<le> sz" "load32 m (node + 4 * (n div 2)) \<noteq> KHEAP_MAGIC"
  shows "find_free_node m node n sz al =
    (store32 m (node + 4 * (n div 2)) KHEAP_MAGIC, node + 4 * (n div 2) + 4)"
  using find_free_node_unfold [OF assms(1), of m node sz al] assms by (simp add: Let_def take_here_def not_less [symmetric])

theorem heap_oversized_request_witness:
  "snd (find_free_node (\<lambda>_. 0) 0xc0000000 0x100000 0x1000000 0) = 0xc0200004"
  using heap_oversized_request [of "0x100000" "0x1000000" "\<lambda>_. 0" "0xc0000000" 0] by simp

end
