(* ===== verification/Paging.thy ===== *)
theory Paging
  imports Alloc
begin

text \<open>
  Starting paging and copying directories (\<open>kern/mem/paging.c\<close>). \<open>init_paging\<close> fills the stack of free frames,
  maps the kernel and the heap and creates the heap; the main theorem is that it maps the kernel to itself,
  which holds because the frames come off the stack in ascending order, starting at 0.
\<close>

section \<open>Definitions\<close>

text \<open>\<open>cr3\<close> gets the physical address kept in the directory; the model records the directory.\<close>

definition set_page_dir :: "u32 \<Rightarrow> kmem \<Rightarrow> kmem" where
  "set_page_dir dir st = st\<lparr>current_dir := dir\<rparr>"

text \<open>\<open>for ( i = ...; i + PAGE_SIZE > 0; i -= PAGE_SIZE ) push_page( i )\<close>\<close>

partial_function (option) push_frames :: "u32 \<Rightarrow> kmem \<Rightarrow> kmem option" where
  "push_frames i st = (if i + 0x1000 > 0 then push_frames (i - 0x1000) (push_page i st) else Some st)"

text \<open>
  \<open>for ( i = 1; i < 1024; i++ ) kernel_dir->tables[i] = 0\<close>, entry 0 is left as it is. The entry of the page fault handler into
  the table of interrupts (line 290) is \<open>register_interrupt_handler 0xe\<close> of \<open>Interrupts\<close>, on a state of its own.
\<close>

definition clear_tables :: "u32 \<Rightarrow> kmem \<Rightarrow> kmem" where
  "clear_tables dir st = fold (\<lambda>i. wr (tables_at dir (of_nat i)) 0) [1..<1024] st"

definition setup_pool :: "u32 \<Rightarrow> u32 \<Rightarrow> kmem \<Rightarrow> kmem option" where
  "setup_pool mem_lower mem_upper st =
    (let max_mem = (mem_lower + mem_upper) AND 0xfffff000;
         (st1, dir, address) = kmalloc_e 8196 1 st;
         st2 = wr (address_at dir) address (st1\<lparr>kernel_dir := dir\<rparr>);
         n = max_mem div 4;
         (st3, stk, ph) = kmalloc_e (n * 4 + 1) 1 (st2\<lparr>npages := n\<rparr>)
     in map_option (clear_tables dir) (push_frames (max_mem * 1024) (st3\<lparr>page_stack := stk\<rparr>)))"

definition init_paging :: "u32 \<Rightarrow> u32 \<Rightarrow> kmem \<Rightarrow> kmem run" where
  "init_paging mem_lower mem_upper st =
    (case setup_pool mem_lower mem_upper st of None \<Rightarrow> None
     | Some st1 \<Rightarrow>
       (let dir = kernel_dir st1 in
        and_then (map_pages 0 (placement st1 + 0x1000 * 400) 7 dir st1) (\<lambda>st2.
        and_then (map_pages KHEAP_START (KHEAP_START + KHEAP_SIZE + 0x1000) 7 dir st2) (\<lambda>st3.
          let st4 = set_page_dir dir (wr (address_at dir) (rd st3 (address_at dir) OR 7) st3)
          in and_then (init_heap KHEAP_START KHEAP_SIZE st4) (\<lambda>(st5, h).
               done_with (st5\<lparr>kheap := Some h\<rparr>))))))"

text \<open>
  \<open>clone_table\<close> copies the used entries of a table to fresh frames; \<open>copy_page_phys\<close> is assembly and moves the
  contents of the frames, which are not part of this memory. The table is not cleared.
\<close>

fun clone_entries :: "u32 \<Rightarrow> u32 \<Rightarrow> u32 \<Rightarrow> nat \<Rightarrow> kmem \<Rightarrow> kmem exec" where
  "clone_entries src table i 0 st = Inr st"
| "clone_entries src table i (Suc n) st =
    (if rd st (src + 4 * i) = 0 then clone_entries src table (i + 1) n st
     else case pop_page st of Inl e \<Rightarrow> Inl e
       | Inr (st1, f) \<Rightarrow>
           let st2 = wr (table + 4 * i) f st1;
               st3 = wr (table + 4 * i) (rd st2 (table + 4 * i) OR 4 OR 2 OR 1) st2
           in clone_entries src table (i + 1) n st3)"

definition clone_table :: "u32 \<Rightarrow> kmem \<Rightarrow> (kmem \<times> u32 \<times> u32) run" where
  "clone_table src st =
    and_then (kmalloc 4096 1 st) (\<lambda>(st1, table, phys).
      map_option (map_sum id (\<lambda>st2. (st2, table, phys))) (Some (clone_entries src table 0 1024 st1)))"

text \<open>\<open>clone_page_dir\<close> shares the tables of the source directory.\<close>

definition clone_dir_entry :: "u32 \<Rightarrow> u32 \<Rightarrow> nat \<Rightarrow> kmem \<Rightarrow> kmem" where
  "clone_dir_entry src dir i st =
    (if rd st (tables_at src (of_nat i)) = 0 then st
     else let st1 = wr (tables_at dir (of_nat i)) (rd st (tables_at src (of_nat i))) st
          in wr (table_addr_at dir (of_nat i)) (rd st1 (table_addr_at src (of_nat i))) st1)"

definition clone_page_dir :: "u32 \<Rightarrow> kmem \<Rightarrow> kmem \<times> u32" where
  "clone_page_dir src st =
    (let (st1, dir, phys) = kmalloc_e 8196 1 st;
         st2 = st1\<lparr>ram := memset (ram st1) dir 0 8196\<rparr>;
         st3 = wr (address_at dir) (phys + 0x1000) st2
     in (fold (clone_dir_entry src dir) [0..<1024] st3, dir))"

section \<open>Filling the stack of frames\<close>

lemma push_frames_fold:
  "n < 2 ^ 20 - 1 \<Longrightarrow> push_frames (0x1000 * of_nat n) st =
    Some (fold push_page (map (\<lambda>k. 0x1000 * of_nat k) (rev [0..<Suc n])) st)"
proof (induction n arbitrary: st)
  case 0
  show ?case by (subst push_frames.simps, subst push_frames.simps) simp
next
  case (Suc n)
  have "unat ((0 :: u32) + 0x1000 * of_nat (Suc (Suc n))) = unat (0 :: u32) + 4096 * Suc (Suc n)"
    using Suc.prems by (intro unat_advance) simp
  then have "0x1000 * of_nat (Suc n) + 0x1000 > (0 :: u32)"
    by (simp add: word_less_nat_alt algebra_simps)
  moreover have "0x1000 * of_nat (Suc n) - 0x1000 = (0x1000 * of_nat n :: u32)"
    by (simp add: algebra_simps)
  ultimately show ?case
    using Suc.IH Suc.prems by (subst push_frames.simps) (simp add: algebra_simps)
qed

lemma push_page_far:
  assumes "4 dvd unat (page_stack st)" "4 dvd unat b" "b \<noteq> slot st (page_ptr st)"
  shows "rd (push_page a st) b = rd st b"
  using assms by (auto simp: push_page_def slot_def rd_wr dvd4_offset)

lemma push_page_fields [simp]:
  "page_stack (push_page a st) = page_stack st" "page_ptr (push_page a st) = page_ptr st + 1"
  "stack_bottom (push_page a st) = stack_bottom st" "npages (push_page a st) = npages st"
  "placement (push_page a st) = placement st" "kheap (push_page a st) = kheap st"
  "kernel_dir (push_page a st) = kernel_dir st" "current_dir (push_page a st) = current_dir st"
  by (simp_all add: push_page_def)

lemma fold_push_fields:
  "page_stack (fold push_page as st) = page_stack st" "stack_bottom (fold push_page as st) = stack_bottom st"
  "npages (fold push_page as st) = npages st" "placement (fold push_page as st) = placement st"
  "kheap (fold push_page as st) = kheap st" "kernel_dir (fold push_page as st) = kernel_dir st"
  "page_ptr (fold push_page as st) = page_ptr st + of_nat (length as)"
  by (induction as arbitrary: st) (simp_all add: algebra_simps)

lemma fold_push_far:
  assumes "4 dvd unat (page_stack st)" "4 dvd unat b"
    and "\<And>k. k < length as \<Longrightarrow> b \<noteq> slot st (page_ptr st + of_nat k)"
  shows "rd (fold push_page as st) b = rd st b"
  using assms
proof (induction as arbitrary: st)
  case (Cons a as)
  have "slot (push_page a st) = slot st" by (rule slot_cong) simp
  moreover have "b \<noteq> slot st (page_ptr st + 1 + of_nat k)" if "k < length as" for k
    using Cons.prems(3) [of "Suc k"] that by (simp add: algebra_simps)
  ultimately have "rd (fold push_page as (push_page a st)) b = rd (push_page a st) b"
    using Cons.prems by (intro Cons.IH) simp_all
  also have "\<dots> = rd st b"
    using Cons.prems(3) [of 0] Cons.prems(1,2) by (intro push_page_far) simp_all
  finally show ?case by simp
qed simp

section \<open>Before the heap exists\<close>

lemma kmalloc_no_heap: "kheap st = None \<Longrightarrow> kmalloc sz al st = kmalloc_early sz al st"
  by (simp add: kmalloc_def)

lemma map_page_no_heap:
  assumes "kheap st = None"
  shows "map_page_with kmalloc a perms dir st = map_page_with kmalloc_early a perms dir st"
  using assms by (simp add: map_page_with_def ensure_table_def Let_def kmalloc_no_heap cong: if_cong)

lemma ensure_table_kheap:
  "ensure_table kmalloc_early a perms dir st = done_with (st', t) \<Longrightarrow> kheap st' = kheap st"
  by (auto simp: ensure_table_def Let_def kmalloc_early_def kmalloc_e_def and_then_done split: if_splits)

lemma map_page_kheap:
  "map_page_with kmalloc_early a perms dir st = done_with st' \<Longrightarrow> kheap st' = kheap st"
  by (auto simp: map_page_with_def Let_def and_then_done pop_page_def done_with_def [symmetric]
      dest!: ensure_table_kheap split: if_splits sum.splits)


lemma map_pages_no_heap:
  assumes "map_pages_with kmalloc_early a en perms dir st = Some r" "kheap st = None"
  shows "map_pages_with kmalloc a en perms dir st = Some r"
proof -
  have "al = kmalloc_early \<Longrightarrow> kheap st = None \<Longrightarrow> map_pages_with kmalloc a en perms dir st = Some r"
    if "map_pages_with al a en perms dir st = Some r" for al
    using that
  proof (induction rule: map_pages_with.raw_induct [rotated, consumes 1, case_names 1])
    case (1 f al a en perms dir st r)
    show ?case
    proof (cases "a < en")
      case True
      with "1.prems" "1.hyps" consider e where "map_page_with kmalloc_early a perms dir st = Some (Inl e)" "r = Inl e"
        | st1 where "map_page_with kmalloc_early a perms dir st = done_with st1"
          "f al (a + 0x1000) en perms dir st1 = Some r"
        by (auto simp: and_then_def done_with_def split: option.splits sum.splits)
      then show ?thesis
      proof cases
        case 1
        then show ?thesis
          using True "1.prems" by (subst map_pages_with.simps) (simp add: map_page_no_heap)
      next
        case 2
        have "map_pages_with kmalloc (a + 0x1000) en perms dir st1 = Some r"
          using "1.IH" [OF 2(2) \<open>al = kmalloc_early\<close>] map_page_kheap [OF 2(1)] "1.prems" by simp
        then show ?thesis
          using True "1.prems" 2(1) by (subst map_pages_with.simps) (simp add: map_page_no_heap)
      qed
    next
      case False
      then show ?thesis using "1.hyps" by (subst map_pages_with.simps) simp
    qed
  qed
  then show ?thesis using assms by blast
qed

lemma map_pages_kheap:
  "map_pages_with kmalloc_early a en perms dir st = done_with st' \<Longrightarrow> kheap st' = kheap st"
proof -
  have "al = kmalloc_early \<Longrightarrow> r = Inr st' \<Longrightarrow> kheap st' = kheap st"
    if "map_pages_with al a en perms dir st = Some r" for al r
    using that
  proof (induction rule: map_pages_with.raw_induct [rotated, consumes 1, case_names 1])
    case (1 f al a en perms dir st r)
    then show ?case
      by (auto simp: and_then_def done_with_def map_page_kheap [unfolded done_with_def]
          split: option.splits sum.splits if_splits)
  qed
  then show "map_pages_with kmalloc_early a en perms dir st = done_with st' \<Longrightarrow> kheap st' = kheap st"
    by (simp add: done_with_def)
qed

section \<open>The pool and the empty directory\<close>

lemma fold_clear_rd:
  assumes "page_aligned dir" "4 dvd unat b"
  shows "rd (fold (\<lambda>i. wr (tables_at dir (of_nat i)) 0) is st) b =
    (if \<exists>i\<in>set is. b = tables_at dir (of_nat i) then 0 else rd st b)"
proof (induction "is" arbitrary: st)
  case (Cons i "is")
  have "rd (wr (tables_at dir (of_nat i)) 0 st) b = (if b = tables_at dir (of_nat i) then 0 else rd st b)"
    using assms by (auto simp: rd_wr tables_at_dvd)
  then show ?case using Cons.IH by auto
qed simp

lemma fold_clear_fields [simp]:
  "placement (fold (\<lambda>i. wr (tables_at dir (of_nat i)) 0) is st) = placement st"
  "page_stack (fold (\<lambda>i. wr (tables_at dir (of_nat i)) 0) is st) = page_stack st"
  "page_ptr (fold (\<lambda>i. wr (tables_at dir (of_nat i)) 0) is st) = page_ptr st"
  "stack_bottom (fold (\<lambda>i. wr (tables_at dir (of_nat i)) 0) is st) = stack_bottom st"
  "npages (fold (\<lambda>i. wr (tables_at dir (of_nat i)) 0) is st) = npages st"
  "kheap (fold (\<lambda>i. wr (tables_at dir (of_nat i)) 0) is st) = kheap st"
  "kernel_dir (fold (\<lambda>i. wr (tables_at dir (of_nat i)) 0) is st) = kernel_dir st"
  by (induction "is" arbitrary: st) simp_all

lemma clear_tables_entry:
  assumes "page_aligned dir" "i < 1024"
  shows "dir_entry (clear_tables dir st) dir i = (if i = 0 then dir_entry st dir 0 else 0)"
proof (cases "i = 0")
  case True
  have "tables_at dir 0 \<noteq> tables_at dir (of_nat j)" if "1 \<le> j" "j < 1024" for j
  proof -
    have "unat (of_nat j :: u32) = j" using that by simp
    with that have "unat (of_nat j :: u32) \<noteq> 0" by linarith
    then have "(of_nat j :: u32) \<noteq> 0" by (simp only: unsigned_eq_0_iff not_False_eq_True)
    then show ?thesis using assms(1) page_offset_eq [of dir dir 0 "of_nat j"] that
      by (simp add: tables_at_def \<open>unat (of_nat j :: u32) = j\<close>)
  qed
  then show ?thesis
    using True assms by (auto simp: clear_tables_def fold_clear_rd tables_at_dvd)
next
  case False
  then have "unat i \<in> set [1..<1024]" using assms(2) by (simp add: Suc_le_eq unat_gt_0)
  then have "\<exists>j\<in>set [1..<1024]. tables_at dir i = tables_at dir (of_nat j)"
    by (intro bexI [of _ "unat i"]) simp_all
  then show ?thesis using False assms by (simp add: clear_tables_def fold_clear_rd tables_at_dvd)
qed

lemma clear_tables_far:
  assumes "page_aligned dir" "4 dvd unat b" "page_of b \<noteq> dir"
  shows "rd (clear_tables dir st) b = rd st b"
proof -
  have "b \<noteq> tables_at dir (of_nat i)" if "i < 1024" for i
    using assms that page_of_offset [of dir "of_nat i"] by (auto simp: tables_at_def)
  then show ?thesis using assms by (auto simp: clear_tables_def fold_clear_rd)
qed

text \<open>The state \<open>setup_pool\<close> reaches before it pushes the frames.\<close>

definition pool_base :: "u32 \<Rightarrow> kmem \<Rightarrow> kmem" where
  "pool_base n st =
    (let dir = align_up (placement st); stk = align_up (dir + 8196) in
     (wr (address_at dir) dir (st\<lparr>kernel_dir := dir\<rparr>))\<lparr>npages := n, placement := stk + (n * 4 + 1), page_stack := stk\<rparr>)"

lemma max_mem_pages:
  fixes x :: u32
  defines "mm \<equiv> x AND 0xfffff000"
  defines "N \<equiv> unat mm div 4"
  shows "unat mm = 4 * N" "mm * 1024 = 0x1000 * of_nat N" "mm div 4 = of_nat N" "unat (mm div 4) = N" "N < 2 ^ 30 - 1"
proof -
  have "unat mm = unat x div 4096 * 4096" using unat_page_of [of x] by (simp add: mm_def page_of_def)
  then have d: "4096 dvd unat mm" by simp
  then show m: "unat mm = 4 * N" by (auto simp: N_def elim!: dvdE)
  have "mm = of_nat (4 * N)" using m by (metis word_of_nat_eq_iff of_nat_unat ucast_id)
  then show "mm * 1024 = 0x1000 * of_nat N" by (simp add: algebra_simps)
  show u: "unat (mm div 4) = N" by (simp add: unat_div N_def)
  then show "mm div 4 = of_nat N" by (metis word_of_nat_eq_iff of_nat_unat ucast_id)
  show "N < 2 ^ 30 - 1" using d m unat_u32_less [of mm] by (auto elim!: dvdE)
qed

lemma setup_pool_eq:
  assumes "N = unat ((lo + hi) AND 0xfffff000) div 4" "N < 2 ^ 20 - 1"
  shows "setup_pool lo hi st =
    Some (clear_tables (align_up (placement st))
      (fold push_page (map (\<lambda>k. 0x1000 * of_nat k) (rev [0..<Suc N])) (pool_base (of_nat N) st)))"
proof -
  note m = max_mem_pages [of "lo + hi", folded assms(1)]
  show ?thesis
    unfolding setup_pool_def Let_def kmalloc_e_aligned
    by (simp add: m(2,3) push_frames_fold [OF assms(2)] pool_base_def Let_def wr_def)
qed

lemma pool_base_facts:
  fixes st :: kmem and N :: nat
  assumes "unat (placement st) + 0x6000 + 4 * N < 2 ^ 32"
  defines "dir \<equiv> align_up (placement st)" and "st' \<equiv> pool_base (of_nat N) st"
  shows "page_aligned dir" "page_stack st' = align_up (dir + 8196)" "page_aligned (page_stack st')"
    "npages st' = of_nat N" "unat (npages st') = N" "kernel_dir st' = dir"
    "unat dir + 0x2000 < unat (page_stack st')" "unat (placement st') = unat (page_stack st') + 4 * N + 1"
    "unat (placement st') < unat (placement st) + 0x5000 + 4 * N + 1"
    "page_ptr st' = page_ptr st" "stack_bottom st' = stack_bottom st" "kheap st' = kheap st"
    "4 dvd unat b \<Longrightarrow> b \<noteq> address_at dir \<Longrightarrow> rd st' b = rd st b"
    "unat (placement st) \<le> unat (placement st')"
proof -
  have d: "page_aligned dir" "unat (placement st) \<le> unat dir" "unat dir < unat (placement st) + 0x1000"
    using align_up [of "placement st"] assms(1) by (simp_all add: dir_def)
  then show "page_aligned dir" by simp
  have d2: "unat (dir + 8196) = unat dir + 8196" using d assms(1) by (simp add: unat_add_lem [THEN iffD1])
  have s: "page_stack st' = align_up (dir + 8196)" "npages st' = of_nat N"
    "placement st' = page_stack st' + (of_nat N * 4 + 1)"
    by (simp_all add: st'_def pool_base_def Let_def dir_def)
  show "page_stack st' = align_up (dir + 8196)" "npages st' = of_nat N" by (fact s)+
  have u: "page_aligned (page_stack st')" "unat (dir + 8196) \<le> unat (page_stack st')"
    "unat (page_stack st') < unat (dir + 8196) + 0x1000"
    using align_up [of "dir + 8196"] d d2 assms(1) by (simp_all add: s(1))
  then show "page_aligned (page_stack st')" "unat dir + 0x2000 < unat (page_stack st')" using d2 by simp_all
  show N: "unat (npages st') = N" using assms(1) by (simp add: s)
  have "unat (of_nat N * 4 + 1 :: u32) = 4 * N + 1"
    using assms(1) by (simp add: unat_word_ariths unat_of_nat)
  then show p: "unat (placement st') = unat (page_stack st') + 4 * N + 1"
    using u d d2 assms(1) unfolding s(3) by (subst unat_add_lem [THEN iffD1]) simp_all
  show "unat (placement st') < unat (placement st) + 0x5000 + 4 * N + 1" using p u d d2 by simp
  show "unat (placement st) \<le> unat (placement st')" using p u d d2 by simp
  show "kernel_dir st' = dir" "page_ptr st' = page_ptr st" "stack_bottom st' = stack_bottom st" "kheap st' = kheap st"
    by (simp_all add: st'_def pool_base_def Let_def dir_def)
  have "4 dvd unat (address_at dir)" using d by (simp add: address_at_def dvd4_offset [of dir "0x800", simplified] aligned_dvd4)
  then show "4 dvd unat b \<Longrightarrow> b \<noteq> address_at dir \<Longrightarrow> rd st' b = rd st b"
    by (simp add: st'_def pool_base_def Let_def dir_def rd_wr)
qed

text \<open>Slots of the frame stack, in unbounded arithmetic.\<close>

lemma slot_page:
  assumes "page_aligned (page_stack st)" "unat (page_stack st) + 4 * unat k < 2 ^ 32"
  shows "unat (slot st k) = unat (page_stack st) + 4 * unat k" "unat (page_stack st) \<le> unat (page_of (slot st k))"
    "unat (page_of (slot st k)) \<le> unat (page_stack st) + 4 * unat k"
proof -
  show s: "unat (slot st k) = unat (page_stack st) + 4 * unat k"
    using unat_words [of "page_stack st" k "unat k"] assms(2) by (simp add: slot_def)
  show "unat (page_stack st) \<le> unat (page_of (slot st k))"
    using assms(1) by (auto simp: unat_page_of s page_aligned_def elim!: dvdE)
  show "unat (page_of (slot st k)) \<le> unat (page_stack st) + 4 * unat k"
    by (simp add: unat_page_of s [symmetric])
qed


lemma frames_nth:
  assumes "frames st = xs" "stack_bottom st = 0" "k < length xs"
  shows "rd st (slot st (of_nat k)) = xs ! k"
  using assms by (auto simp: frames_def)

text \<open>
  What \<open>init_paging\<close> starts mapping from: frame \<open>N - k\<close> in slot \<open>k\<close> for all \<open>k \<le> N\<close>, and an empty directory.
\<close>

definition pool_ready :: "nat \<Rightarrow> kmem \<Rightarrow> bool" where
  "pool_ready N st \<longleftrightarrow> dir_ok st (kernel_dir st) \<and> stack_bottom st = 0 \<and> page_ptr st = of_nat N + 1 \<and>
     (\<forall>k\<le>N. rd st (slot st (of_nat k)) = 0x1000 * of_nat (N - k)) \<and> (\<forall>b. get_page b (kernel_dir st) st = 0)"

lemma setup_pool_ready:
  assumes "N = unat ((lo + hi) AND 0xfffff000) div 4" "N < 2 ^ 20 - 1"
    and "unat (placement st) + 0x6000 + 4 * N < 2 ^ 32"
    and "page_ptr st = 0" "stack_bottom st = 0" "rd st (align_up (placement st)) = 0"
  obtains st' where "setup_pool lo hi st = Some st'" "pool_ready N st'" "kheap st' = kheap st"
    "unat (placement st') < unat (placement st) + 0x5000 + 4 * N + 1" "unat (placement st) \<le> unat (placement st')"
proof -
  let ?dir = "align_up (placement st)" and ?b = "pool_base (of_nat N) st"
  define fs :: "u32 list" where "fs = map (\<lambda>k. 0x1000 * of_nat k) (rev [0..<Suc N])"
  let ?p = "fold push_page fs ?b"
  let ?st = "clear_tables ?dir ?p"
  note b = pool_base_facts [OF assms(3)]
  note ff = fold_push_fields [of fs ?b]
  have len: "length fs = Suc N" by (simp add: fs_def)
  have flds: "page_stack ?st = page_stack ?b" "npages ?st = of_nat N" "page_ptr ?st = of_nat N + 1"
    "stack_bottom ?st = 0" "placement ?st = placement ?b" "kernel_dir ?st = ?dir" "kheap ?st = kheap st"
    using b ff assms(4,5) len by (simp_all add: clear_tables_def)
  have sl: "slot ?st = slot ?b" "slot ?p = slot ?b" using flds ff(1) by (auto intro!: slot_cong)
  have uN: "unat (of_nat N :: u32) = N" using assms(2) by simp
  have sp: "unat (page_stack ?b) \<le> unat (page_of (slot ?b k))" "unat (page_of (slot ?b k)) < unat (placement ?b)"
    if "k \<le> of_nat N" for k
  proof -
    have k: "unat k \<le> N" using that uN by (simp add: word_le_nat_alt)
    then have "unat (page_stack ?b) + 4 * unat k < 2 ^ 32" using b(8,9) assms(3) by linarith
    from slot_page [OF b(3) this] show "unat (page_stack ?b) \<le> unat (page_of (slot ?b k))"
      "unat (page_of (slot ?b k)) < unat (placement ?b)" using b(8) k by simp_all
  qed
  have d1: "unat (?dir + 0x1000) = unat ?dir + 0x1000"
    using b(1,7) unat_u32_less [of "page_stack ?b"] by (intro unat_next_page) simp_all
  have far: "page_of (slot ?b k) \<noteq> ?dir" "page_of (slot ?b k) \<noteq> ?dir + 0x1000" if "k \<le> of_nat N" for k
    using sp(1) [OF that] b(7) d1 by auto
  have dv: "4 dvd unat (slot ?b k)" for k using b(3) by (simp add: slot_def dvd4_offset aligned_dvd4)
  have le: "of_nat k \<le> (of_nat N :: u32)" if "k \<le> N" for k
    using that assms(2) by (simp add: word_le_nat_alt)
  have ok: "stack_ok ?b" using b assms(4,5) by (simp add: stack_ok_def aligned_dvd4)
  have "frames ?p = frames ?b @ map page_of fs"
    using page_frames.pushes [OF ok, of fs] b(10) assms(2,4) len by simp
  moreover have "frames ?b = []" using b(10) assms(4) by (simp add: frames_def)
  ultimately have fr: "frames ?p = map page_of fs" by simp
  have val: "rd ?st (slot ?st (of_nat k)) = 0x1000 * of_nat (N - k)" if "k \<le> N" for k
  proof -
    have "rd ?st (slot ?st (of_nat k)) = rd ?p (slot ?b (of_nat k))"
      using far(1) [OF le [OF that]] dv b(1) by (simp add: sl clear_tables_far)
    also have "\<dots> = map page_of fs ! k"
      using frames_nth [OF fr, of k] ff(2) b(11) assms(5) that len by (simp add: sl)
    also have "\<dots> = page_of (0x1000 * of_nat (N - k))" using that by (simp add: fs_def rev_nth del: upt_Suc)
    also have "page_aligned ((0 :: u32) + 0x1000 * of_nat (N - k))"
      unfolding page_aligned_def using assms(2) that by (subst unat_advance) simp_all
    then have "page_of (0x1000 * of_nat (N - k)) = (0x1000 * of_nat (N - k) :: u32)" by (simp add: page_of_0_iff)
    finally show ?thesis .
  qed
  have "rd ?p ?dir = rd ?b ?dir"
  proof (rule fold_push_far)
    fix k assume "k < length fs"
    then show "?dir \<noteq> slot ?b (page_ptr ?b + of_nat k)"
      using far(1) [of "of_nat k"] le [of k] len b(1,10) assms(4) page_of_0_iff [of ?dir] by auto
  qed (use b in \<open>simp_all add: aligned_dvd4\<close>)
  also have "\<dots> = 0" using b(13) [of ?dir] b(1) assms(6) by (simp add: aligned_dvd4 address_at_def)
  finally have ent: "dir_entry ?st ?dir i = 0" if "i < 1024" for i
    using clear_tables_entry [OF b(1) that, of ?p] by (simp add: tables_at_def)
  have "dir_ok ?st ?dir"
    using b sp far ent uN assms(2) unfolding dir_ok_def flds sl
    by (simp add: aligned_dvd4 unat_word_ariths del: u32_less_1024)
  moreover have "get_page a ?dir ?st = 0" for a by (simp add: get_page_def Let_def ent)
  ultimately have "pool_ready N ?st" unfolding pool_ready_def flds using val by (simp add: flds)
  then show thesis using that [of ?st] setup_pool_eq [OF assms(1,2), of st, folded fs_def] flds b(9,14) by simp
qed

section \<open>The kernel maps itself\<close>

lemma get_page_fields [simp]:
  "get_page a dir (st\<lparr>kheap := h\<rparr>) = get_page a dir st" "get_page a dir (st\<lparr>placement := p\<rparr>) = get_page a dir st"
  "get_page a dir (st\<lparr>current_dir := d\<rparr>) = get_page a dir st"
  by (simp_all add: get_page_def Let_def)

lemma get_page_wr_address:
  assumes "dir_ok st dir"
  shows "get_page b dir (wr (address_at dir) v st) = get_page b dir st"
proof -
  note d = dir_okD [OF assms]
  have a: "4 dvd unat (address_at dir)" "page_of (address_at dir) = dir + 0x2000"
    using d by (simp_all add: address_at_def aligned_dvd4 page_of_0_iff)
  have "dir + 0x2000 \<noteq> dir" using d(10) by auto
  then have e: "dir_entry (wr (address_at dir) v st) dir i = dir_entry st dir i" if "i < 1024" for i
    using tables_at_page [OF assms that] a by (auto simp: rd_wr)
  show ?thesis
  proof (rule get_page_cong [OF assms])
    fix i j :: u32
    assume ij: "i < 1024" "j < 1024" "dir_entry st dir i \<noteq> 0"
    let ?x = "page_of (dir_entry st dir i) + 4 * j"
    have "page_of ?x = page_of (dir_entry st dir i)" "4 dvd unat ?x"
      using ij by (simp_all add: page_of_offset page_offset_aligned)
    moreover have "page_of (dir_entry st dir i) \<noteq> dir + 0x2000" using dir_ok_table(7) [OF assms ij(1,3)] .
    ultimately show "rd (wr (address_at dir) v st) ?x = rd st ?x" using a by (auto simp: rd_wr)
  qed (simp add: e)
qed

lemma page_of_index:
  "page_of a = 0x1000 * of_nat (unat a div 4096)"
proof -
  have "unat a div 4096 * 4096 \<le> unat a" by simp
  then have "unat ((0 :: u32) + 0x1000 * of_nat (unat a div 4096)) = unat (0 :: u32) + 4096 * (unat a div 4096)"
    using unat_u32_less [of a] by (intro unat_advance) simp
  then show ?thesis by (simp add: word_unat_eq_iff unat_page_of)
qed

lemma identity_from_pool:
  assumes "pool_ready N st" "maps_fresh 0 n 7 (kernel_dir st) st st'" "n \<le> N + 1" "N < 2 ^ 20" "unat a < 4096 * n"
  shows "get_page a (kernel_dir st) st' = page_of a OR 7"
proof -
  let ?i = "unat a div 4096"
  have i: "?i < n" using assms(5) by (simp add: div_less_iff_less_mult)
  have "get_page a (kernel_dir st) st' = get_page (0x1000 * of_nat ?i) (kernel_dir st) st'"
    by (rule get_page_same_page) (simp add: page_of_index [of a, symmetric])
  also have "\<dots> = rd st (slot st (page_ptr st - 1 - of_nat ?i)) OR 7"
    using assms(2) i by (simp add: maps_fresh_def)
  also have "page_ptr st - 1 - of_nat ?i = of_nat (N - ?i)"
    using assms(1,3) i by (simp add: pool_ready_def)
  also have "rd st (slot st (of_nat (N - ?i))) = 0x1000 * of_nat (N - (N - ?i))"
    using assms(1) by (simp add: pool_ready_def)
  also have "N - (N - ?i) = ?i" using i assms(3) by simp
  finally show ?thesis by (simp add: page_of_index [of a])
qed


text \<open>The number of pages from 0 up to an address.\<close>

definition pages_upto :: "u32 \<Rightarrow> nat" where
  "pages_upto en = (unat en + 4095) div 4096"

lemma pages_upto:
  "unat en \<le> 4096 * pages_upto en" "pages_upto en = 0 \<or> 4096 * (pages_upto en - 1) < unat en"
  "4096 * pages_upto en < unat en + 4096"
proof -
  define r where "r = (unat en + 4095) mod 4096"
  have "unat en + 4095 = pages_upto en * 4096 + r" "r < 4096"
    by (simp_all add: pages_upto_def r_def)
  then show "unat en \<le> 4096 * pages_upto en" "4096 * pages_upto en < unat en + 4096"
    "pages_upto en = 0 \<or> 4096 * (pages_upto en - 1) < unat en"
    by (auto simp: diff_mult_distrib2)
qed

lemma map_kernel_pages:
  assumes "pool_ready N st" "N \<le> 0x40000" "pages_upto en + 0x401 \<le> N + 1"
    and "unat (placement st) + 0x2000 * (N + 1) < 2 ^ 32"
  obtains st' where "map_pages_with kmalloc_early 0 en 7 (kernel_dir st) st = done_with st'"
    "maps_fresh 0 (pages_upto en) 7 (kernel_dir st) st st'"
proof -
  have N: "unat (of_nat N + 1 :: u32) = N + 1" using assms(2) by (simp add: unat_word_ariths unat_of_nat)
  have "\<exists>st'. map_pages_with kmalloc_early 0 en 7 (kernel_dir st) st = done_with st' \<and>
      maps_fresh 0 (pages_upto en) 7 (kernel_dir st) st st'"
    by (rule map_pages_fresh)
      (use assms N pages_upto [of en] in \<open>auto simp: pool_ready_def page_aligned_def\<close>)
  then show thesis using that by blast
qed

lemma maps_fresh_pool:
  assumes "maps_fresh a n perms dir st st'"
  shows "dir_ok st' dir" "stack_bottom st' = stack_bottom st" "page_ptr st' = page_ptr st - of_nat n"
    "unat (placement st') \<le> unat (placement st) + 0x2000 * n"
  using assms by (auto simp: maps_fresh_def same_pool_def)

lemma map_heap_pages:
  assumes "pool_ready N st" "N \<le> 0x40000" "n + 0x401 \<le> N + 1"
    and "unat (placement st) + 0x2000 * (N + 1) < 2 ^ 32" "maps_fresh 0 n 7 (kernel_dir st) st st1"
  obtains st2 where "map_pages_with kmalloc_early 0xc0000000 0xc0401000 7 (kernel_dir st) st1 = done_with st2"
    "maps_fresh 0xc0000000 0x401 7 (kernel_dir st) st1 st2"
proof -
  note m = maps_fresh_pool [OF assms(5)]
  have "page_ptr st1 = of_nat (N + 1 - n)" using m(3) assms(1,3) by (simp add: pool_ready_def)
  then have pp: "unat (page_ptr st1) = N + 1 - n" using assms(2) by simp
  have un: "unat ((0xc0000000 :: u32) + 0x1000 * of_nat i) = 0xc0000000 + 4096 * i" if "i < 0x401" for i
    using that by (subst unat_advance) simp_all
  have "get_page (0xc0000000 + 0x1000 * of_nat i) (kernel_dir st) st1 = 0" if i: "i < 0x401" for i
  proof -
    have "page_of (0xc0000000 + 0x1000 * of_nat i) \<noteq> 0 + 0x1000 * of_nat j" if j: "j < n" for j
    proof -
      have "unat ((0 :: u32) + 0x1000 * of_nat j) = unat (0 :: u32) + 4096 * j"
        using j assms(2,3) by (intro unat_advance) simp
      then show ?thesis using un [OF i] j assms(2,3) by (simp add: word_unat_eq_iff unat_page_of)
    qed
    then show ?thesis using assms(1,5) by (simp add: maps_fresh_def pool_ready_def)
  qed
  then have "\<exists>st'. map_pages_with kmalloc_early 0xc0000000 0xc0401000 7 (kernel_dir st) st1 = done_with st' \<and>
      maps_fresh 0xc0000000 0x401 7 (kernel_dir st) st1 st'"
    by (intro map_pages_fresh)
      (use m assms pp in \<open>auto simp: pool_ready_def page_aligned_def\<close>)
  then show thesis using that by blast
qed

lemma kernel_after_heap:
  assumes "maps_fresh 0xc0000000 0x401 7 dir st st'" "unat a < 0xc0000000"
  shows "get_page a dir st' = get_page a dir st"
proof -
  have "page_of a \<noteq> 0xc0000000 + 0x1000 * of_nat i" if "i < 0x401" for i
  proof -
    have "unat ((0xc0000000 :: u32) + 0x1000 * of_nat i) = 0xc0000000 + 4096 * i"
      using that by (subst unat_advance) simp_all
    moreover have "unat (page_of a) \<le> unat a" by (simp add: unat_page_of)
    ultimately show ?thesis using assms(2) by auto
  qed
  then show ?thesis using assms(1) by (simp add: maps_fresh_def)
qed

lemma heap_mapped:
  assumes "maps_fresh 0xc0000000 0x401 7 dir st st'" "0xc0000000 \<le> a" "a < 0xc0401000"
  shows "get_page a dir st' AND 7 = 7"
proof -
  define i where "i = (unat a - 0xc0000000) div 4096"
  have a: "0xc0000000 \<le> unat a" "unat a < 0xc0401000" using assms(2,3) by (simp_all add: word_le_nat_alt word_less_nat_alt)
  then have i: "i < 0x401" by (simp add: i_def div_less_iff_less_mult)
  have u: "unat ((0xc0000000 :: u32) + 0x1000 * of_nat i) = 0xc0000000 + 4096 * i"
    using i by (subst unat_advance) simp_all
  define d where "d = unat a - 0xc0000000"
  have "unat a = d + 786432 * 4096" using a by (simp add: d_def)
  then have "unat a div 4096 = 786432 + i" unfolding i_def d_def [symmetric] by simp
  then have pg: "page_of a = 0xc0000000 + 0x1000 * of_nat i"
    by (simp add: word_unat_eq_iff unat_page_of u)
  have "get_page a dir st' = get_page (page_of a) dir st'" by (rule get_page_same_page) simp
  also have "\<dots> = rd st (slot st (page_ptr st - 1 - of_nat i)) OR 7"
    unfolding pg using assms(1) i by (simp add: maps_fresh_def)
  finally show ?thesis by (auto intro!: bit_eqI simp: bit_simps)
qed

lemma map_pages_lift:
  "map_pages_with kmalloc_early a en perms dir st = done_with st' \<Longrightarrow> kheap st = None \<Longrightarrow>
    map_pages a en perms dir st = done_with st'"
  using map_pages_no_heap [of a en perms dir st "Inr st'"] by (simp add: map_pages_def done_with_def)

lemma init_heap_no_heap:
  "kheap st = None \<Longrightarrow> init_heap start sz st =
    done_with (st\<lparr>placement := placement st + 17\<rparr>,
      \<lparr>magics = KHEAP_MAGIC, hsize = sz div 4, used = 0, root = start, full = 0\<rparr>)"
  by (simp add: init_heap_def kmalloc_no_heap kmalloc_early_def kmalloc_e_def Let_def)

text \<open>
  C2. Starting paging works and maps the kernel to itself. With at most one gigabyte of memory, enough of
  it for the kernel image, the frame stack, 400 spare pages and the heap, and the first word of the new
  directory zero (the code does not clear it), \<open>init_paging\<close> returns; every address below the end of the
  image plus 400 pages is mapped to the frame of the same number, present, writable and for the user;
  every page of the heap is mapped; and the heap is empty, four megabytes at \<open>KHEAP_START\<close>.
\<close>

theorem init_paging_identity:
  assumes "N = unat ((lo + hi) AND 0xfffff000) div 4" "N \<le> 0x40000"
    and "unat (placement st) + 4 * N + 0x598000 \<le> 4096 * N"
    and "kheap st = None" "page_ptr st = 0" "stack_bottom st = 0" "rd st (align_up (placement st)) = 0"
  shows "\<exists>st'. init_paging lo hi st = done_with st' \<and>
    (\<forall>a. unat a < unat (placement st) + 0x190000 \<longrightarrow> get_page a (current_dir st') st' = page_of a OR 7) \<and>
    (\<forall>a. KHEAP_START \<le> a \<and> a < KHEAP_START + KHEAP_SIZE + PAGE_SIZE \<longrightarrow> get_page a (current_dir st') st' AND 7 = 7) \<and>
    kheap st' = Some \<lparr>magics = KHEAP_MAGIC, hsize = 0x100000, used = 0, root = KHEAP_START, full = 0\<rparr>"
proof -
  obtain st1 where s1: "setup_pool lo hi st = Some st1" "pool_ready N st1" "kheap st1 = kheap st"
    "unat (placement st1) < unat (placement st) + 0x5000 + 4 * N + 1" "unat (placement st) \<le> unat (placement st1)"
    by (rule setup_pool_ready [OF assms(1) _ _ assms(5,6,7)]) (use assms(2,3) in auto)
  let ?dir = "kernel_dir st1" and ?en = "placement st1 + 0x1000 * 400"
  have en: "unat ?en = unat (placement st1) + 0x190000"
    using s1(4) assms(2,3) by (simp add: unat_add_lem [THEN iffD1])
  have n: "pages_upto ?en + 0x401 \<le> N + 1" using pages_upto(3) [of ?en] en s1(4) assms(3) by linarith
  have room: "unat (placement st1) + 0x2000 * (N + 1) < 2 ^ 32" using s1(4) assms(2,3) by simp
  obtain st2 where s2: "map_pages_with kmalloc_early 0 ?en 7 ?dir st1 = done_with st2"
    "maps_fresh 0 (pages_upto ?en) 7 ?dir st1 st2"
    by (rule map_kernel_pages [OF s1(2) assms(2) n room])
  obtain st3 where s3: "map_pages_with kmalloc_early 0xc0000000 0xc0401000 7 ?dir st2 = done_with st3"
    "maps_fresh 0xc0000000 0x401 7 ?dir st2 st3"
    by (rule map_heap_pages [OF s1(2) assms(2) n room s2(2)])
  let ?st4 = "set_page_dir ?dir (wr (address_at ?dir) (rd st3 (address_at ?dir) OR 7) st3)"
  let ?h = "\<lparr>magics = KHEAP_MAGIC, hsize = 0x100000, used = 0, root = KHEAP_START, full = 0\<rparr>"
  let ?st' = "?st4\<lparr>placement := placement ?st4 + 17, kheap := Some ?h\<rparr>"
  have kh: "kheap st1 = None" "kheap st2 = None" "kheap st3 = None"
    using s1(3) assms(4) map_pages_kheap [OF s2(1)] map_pages_kheap [OF s3(1)] by simp_all
  have run: "init_paging lo hi st = done_with ?st'"
    using s1(1) map_pages_lift [OF s2(1) kh(1)] map_pages_lift [OF s3(1) kh(2)] kh(3)
    by (simp add: init_paging_def init_heap_no_heap set_page_dir_def Let_def)
  have g: "get_page a (current_dir ?st') ?st' = get_page a ?dir st3" for a
    using get_page_wr_address [OF maps_fresh_pool(1) [OF s3(2)]] by (simp add: set_page_dir_def)
  have "get_page a ?dir st3 = page_of a OR 7" if "unat a < unat (placement st) + 0x190000" for a
  proof -
    have "unat a < 4096 * pages_upto ?en" using that pages_upto(1) [of ?en] en s1(5) by linarith
    moreover from this have "unat a < 0xc0000000" using n assms(2) by linarith
    ultimately show ?thesis
      using identity_from_pool [OF s1(2) s2(2)] kernel_after_heap [OF s3(2)] n assms(2) by simp
  qed
  then show ?thesis using run g heap_mapped [OF s3(2)] by (intro exI [of _ ?st']) simp
qed

text \<open>A machine with 128 megabytes, just started.\<close>

definition boot :: kmem where
  "boot = demo\<lparr>ram := (\<lambda>_. 0), placement := 0x200000, page_ptr := 0, npages := 0\<rparr>"

theorem init_paging_identity_witness:
  "\<exists>st'. init_paging 0 0x20000 boot = done_with st' \<and> get_page 0x100ffc (current_dir st') st' = 0x100007"
proof -
  have b: "placement boot = 0x200000" "kheap boot = None" "page_ptr boot = 0" "stack_bottom boot = 0"
    "rd boot (align_up 0x200000) = 0"
    by (simp_all add: boot_def demo_def rd_def)
  have "unat (0x100ffc :: u32) < unat (placement boot) + 0x190000" by (simp add: b)
  with init_paging_identity [of "0x8000" 0 "0x20000" boot] b show ?thesis
    by (auto simp: page_of_def)
qed

end
