(* ===== verification/Chains.thy ===== *)
theory Chains
  imports Prelude
begin

text \<open>
  Singly linked lists through memory: \<open>chain nx p as\<close> says that following the links \<open>nx\<close> from \<open>p\<close> visits
  exactly the nonzero addresses \<open>as\<close> and ends at 0. The task queue, the message queues and the memory maps
  of a task are such lists.
\<close>

fun chain :: "(u32 \<Rightarrow> u32) \<Rightarrow> u32 \<Rightarrow> u32 list \<Rightarrow> bool" where
  "chain nx p [] \<longleftrightarrow> p = 0"
| "chain nx p (a # as) \<longleftrightarrow> p = a \<and> a \<noteq> 0 \<and> chain nx (nx a) as"

lemma chain_unique: "chain nx p as \<Longrightarrow> chain nx p bs \<Longrightarrow> as = bs"
proof (induction as arbitrary: p bs)
  case Nil
  then show ?case by (cases bs) auto
next
  case (Cons a as)
  then show ?case by (cases bs) auto
qed

lemma chain_suffix: "chain nx p (as @ bs) \<Longrightarrow> bs \<noteq> [] \<Longrightarrow> chain nx (hd bs) bs"
proof (induction as arbitrary: p)
  case Nil
  then show ?case by (cases bs) auto
qed auto

lemma chain_distinct: "chain nx p as \<Longrightarrow> distinct as"
proof (induction as arbitrary: p)
  case (Cons a as)
  have "a \<notin> set as"
  proof
    assume "a \<in> set as"
    then obtain xs ys where as: "as = xs @ a # ys" by (meson split_list)
    with Cons.prems have "chain nx a (a # ys)" using chain_suffix [of nx p "a # xs" "a # ys"] by simp
    then show False using chain_unique [of nx p "a # as" "a # ys"] Cons.prems as by simp
  qed
  with Cons.prems Cons.IH [of "nx a"] show ?case by simp
qed simp

lemma chain_nonzero: "chain nx p as \<Longrightarrow> 0 \<notin> set as"
  by (induction as arbitrary: p) auto

lemma chain_cong: "(\<And>a. a \<in> set as \<Longrightarrow> nx a = nx' a) \<Longrightarrow> chain nx p as = chain nx' p as"
  by (induction as arbitrary: p) auto

lemma chain_hd: "chain nx p as \<Longrightarrow> as \<noteq> [] \<Longrightarrow> hd as = p"
  by (cases as) auto

lemma chain_next: "chain nx p (as @ a # bs) \<Longrightarrow> nx a = (if bs = [] then 0 else hd bs)"
  using chain_suffix [of nx p as "a # bs"] by (cases bs) auto

lemma chain_last: "chain nx p as \<Longrightarrow> as \<noteq> [] \<Longrightarrow> nx (last as) = 0"
  using chain_next [of nx p "butlast as" "last as" "[]"] by simp

lemma chain_append:
  assumes "chain nx p as" "as \<noteq> []" "b \<noteq> 0" "b \<notin> set as" "nx' b = 0"
    and "nx' (last as) = b" "\<And>a. a \<in> set (butlast as) \<Longrightarrow> nx' a = nx a"
  shows "chain nx' p (as @ [b])"
  using assms
proof (induction as arbitrary: p)
  case (Cons a as)
  show ?case
  proof (cases "as = []")
    case True
    with Cons.prems show ?thesis by simp
  next
    case False
    have "chain nx' (nx a) (as @ [b])"
      by (rule Cons.IH) (use Cons.prems False in auto)
    moreover have "nx' a = nx a" using Cons.prems False by simp
    ultimately show ?thesis using Cons.prems by simp
  qed
qed simp

lemma chain_remove:
  assumes "chain nx p (as @ x # y # bs)" "nx' x = nx y" "\<And>a. a \<noteq> x \<Longrightarrow> nx' a = nx a"
  shows "chain nx' p (as @ x # bs)"
proof -
  have x: "x \<notin> set as" "x \<notin> set bs" using chain_distinct [OF assms(1)] by auto
  have "chain nx y (y # bs)" using chain_suffix [of nx p "as @ [x]" "y # bs"] assms(1) by simp
  then have "chain nx (nx y) bs" by simp
  then have "chain nx' (nx' x) bs" using chain_cong [of bs nx nx'] x assms(2,3) by (metis (no_types))
  moreover have "chain nx p (as @ [x] @ y # bs)" using assms(1) by simp
  ultimately show ?thesis
    using x assms(1,3)
  proof (induction as arbitrary: p)
    case (Cons a as)
    then have "nx' a = nx a" by auto
    with Cons show ?case by auto
  qed auto
qed

text \<open>The same with the new links given at every address: \<open>b\<close> is put behind the list \<open>as\<close>.\<close>

definition linked_behind :: "u32 list \<Rightarrow> u32 \<Rightarrow> (u32 \<Rightarrow> u32) \<Rightarrow> u32 \<Rightarrow> u32" where
  "linked_behind as b nx a = (if a = b then 0 else if as \<noteq> [] \<and> a = last as then b else nx a)"

lemma chain_behind:
  assumes "chain nx p as" "b \<noteq> 0" "b \<notin> set as"
  shows "chain (linked_behind as b nx) (if as = [] then b else p) (as @ [b])"
proof (cases "as = []")
  case False
  have d: "distinct as" by (rule chain_distinct [OF assms(1)])
  have b: "x \<noteq> last as" if "x \<in> set (butlast as)" for x
    using d that False by (metis append_butlast_last_id distinct_append disjoint_insert(1) list.simps(15))
  have "chain (linked_behind as b nx) p (as @ [b])"
    by (rule chain_append [OF assms(1) False assms(2,3)])
      (use False b assms(3) in \<open>auto simp: linked_behind_def dest: in_set_butlastD\<close>)
  with False show ?thesis by simp
qed (use assms in \<open>simp add: linked_behind_def\<close>)

lemma chain_behind_other:
  assumes "chain nx q bs" "b \<notin> set bs" "set as \<inter> set bs = {}"
  shows "chain (linked_behind as b nx) q bs"
proof (rule chain_cong [THEN iffD1, OF _ assms(1)])
  fix a
  assume a: "a \<in> set bs"
  then have "a \<noteq> b" using assms(2) by auto
  moreover have "a \<noteq> last as" if "as \<noteq> []" using last_in_set [OF that] a assms(3) by auto
  ultimately show "nx a = linked_behind as b nx a" by (auto simp: linked_behind_def)
qed

text \<open>The same without a word on where the last link leads.\<close>

fun leads :: "(u32 \<Rightarrow> u32) \<Rightarrow> u32 \<Rightarrow> u32 list \<Rightarrow> bool" where
  "leads nx p [] \<longleftrightarrow> True"
| "leads nx p (a # as) \<longleftrightarrow> p = a \<and> a \<noteq> 0 \<and> leads nx (nx a) as"

lemma chain_leads: "chain nx p (as @ [b]) \<Longrightarrow> (\<And>a. a \<in> set as \<Longrightarrow> nx' a = nx a) \<Longrightarrow> leads nx' p (as @ [b])"
  by (induction as arbitrary: p) auto

lemma leads_chain: "leads nx p (as @ [b]) \<Longrightarrow> nx b = 0 \<Longrightarrow> chain nx p (as @ [b])"
  by (induction as arbitrary: p) auto

section \<open>Walks\<close>

text \<open>
  The two loops the kernel runs over its lists: \<open>for ( move = p; move->next; move = move->next )\<close> and the search for the
  first element that satisfies a test, with 0 for none. On a damaged list they need not end.
\<close>

partial_function (option) last_link :: "(u32 \<Rightarrow> u32) \<Rightarrow> u32 \<Rightarrow> u32 option" where
  "last_link nx move = (if nx move \<noteq> 0 then last_link nx (nx move) else Some move)"

partial_function (option) find_link :: "(u32 \<Rightarrow> u32) \<Rightarrow> (u32 \<Rightarrow> bool) \<Rightarrow> u32 \<Rightarrow> u32 option" where
  "find_link nx P move = (if move = 0 then Some 0 else if P move then Some move else find_link nx P (nx move))"

lemma last_link_chain: "chain nx p as \<Longrightarrow> as \<noteq> [] \<Longrightarrow> last_link nx p = Some (last as)"
proof (induction as arbitrary: p)
  case (Cons a as)
  then show ?case by (subst last_link.simps) (cases as; auto)
qed simp

lemma find_link_chain: "chain nx p as \<Longrightarrow> find_link nx P p = Some (case find P as of None \<Rightarrow> 0 | Some a \<Rightarrow> a)"
proof (induction as arbitrary: p)
  case Nil
  then show ?case by (subst find_link.simps) simp
next
  case (Cons a as)
  then show ?case by (subst find_link.simps) auto
qed

lemma chain_from: "chain nx p as \<Longrightarrow> a \<in> set as \<Longrightarrow> \<exists>us. us \<noteq> [] \<and> chain nx a us \<and> last us = last as \<and> set us \<subseteq> set as"
proof -
  assume c: "chain nx p as" and "a \<in> set as"
  then obtain us vs where as: "as = us @ a # vs" by (meson split_list)
  with c have "chain nx a (a # vs)" using chain_suffix [of nx p us "a # vs"] by simp
  with as show ?thesis by (intro exI [of _ "a # vs"]) auto
qed

lemma last_link_from: "chain nx p as \<Longrightarrow> a \<in> set as \<Longrightarrow> last_link nx a = Some (last as)"
  using chain_from [of nx p as a] last_link_chain by fastforce

end
