(* ===== verification/Memmap.thy ===== *)
theory Memmap
  imports Alloc Chains
begin

text \<open>
  The address ranges of a task, \<open>kern/mem/memmap.c\<close>. The maps live in a store by address and are linked
  through \<open>next\<close>; an interval includes its end.
\<close>

record memmap_t =
  m_start :: u32
  m_end :: u32
  m_permissions :: u8
  m_present :: u8
  m_references :: u32
  m_next :: u32

type_synonym memmaps = "u32 \<Rightarrow> memmap_t"

abbreviation (input) MEM_READ :: u8 where "MEM_READ \<equiv> 1"
abbreviation (input) MEM_WRITE :: u8 where "MEM_WRITE \<equiv> 2"
abbreviation (input) MEM_EXEC :: u8 where "MEM_EXEC \<equiv> 4"
abbreviation (input) MEM_USER :: u8 where "MEM_USER \<equiv> 8"

text \<open>\<open>ret\<close> is the block \<open>kmalloc\<close> returned.\<close>

definition memmap_create :: "u32 \<Rightarrow> u32 \<Rightarrow> u32 \<Rightarrow> u8 \<Rightarrow> u8 \<Rightarrow> memmaps \<Rightarrow> memmaps" where
  "memmap_create ret start en permissions present mm =
    mm(ret := \<lparr>m_start = start, m_end = en, m_permissions = permissions, m_present = present,
      m_references = 1, m_next = 0\<rparr>)"

definition memmap_delete :: "u32 \<Rightarrow> kmem \<Rightarrow> kmem exec" where
  "memmap_delete mp st = kfree mp st"

definition memmap_check :: "memmap_t \<Rightarrow> u32 \<Rightarrow> bool" where
  "memmap_check mp address \<longleftrightarrow> address \<ge> m_start mp \<and> address \<le> m_end mp"

partial_function (option) memmaps_check :: "memmaps \<Rightarrow> u32 \<Rightarrow> u32 \<Rightarrow> u32 option" where
  "memmaps_check mm move address =
    (if move = 0 then Some 0
     else if memmap_check (mm move) address then Some move
     else memmaps_check mm (m_next (mm move)) address)"

lemma memmaps_check_chain:
  "chain (\<lambda>a. m_next (mm a)) p as \<Longrightarrow>
    memmaps_check mm p address = Some (case find (\<lambda>a. memmap_check (mm a) address) as of None \<Rightarrow> 0 | Some a \<Rightarrow> a)"
proof (induction as arbitrary: p)
  case Nil
  then show ?case by (subst memmaps_check.simps) simp
next
  case (Cons a as)
  then show ?case by (subst memmaps_check.simps) auto
qed

end
