(* ===== verification/Task.thy ===== *)
theory Task
  imports Memmap
begin

text \<open>
  Tasks and the scheduler, \<open>kern/kern/task/task.c\<close>. The task structures live in a store by address; the
  queue is linked through \<open>next\<close> and starts at \<open>task_queue\<close>. Memory for a task, its stack and its descriptor
  table comes from \<open>kmalloc\<close>; the addresses it returned are arguments of the operations that allocate.

  The loops over the queue are partial functions, because a damaged queue is cyclic. A switch saves the
  registers of the running task and ends in a jump: the result is the new state and where the processor
  resumes. The interrupt flag is no part of the state. The operations begin with \<open>cli\<close> and are taken as a whole;
  \<open>remove_task\<close> ends with \<open>sti\<close>, so that \<open>exit_thread\<close>, \<open>kill_thread\<close> and a handler that removes the running task go on with
  interrupts on. In \<open>exit_thread\<close> a timer tick in that gap does the switch that is about to come anyway; what follows in the
  page fault handler is said there (\<open>Interrupts\<close>).
\<close>

section \<open>State\<close>

record task_t =
  t_eip :: u32
  t_esp :: u32
  t_ebp :: u32
  t_id :: u32
  t_tid :: u32
  t_uid :: u32
  t_gid :: u32
  t_maps :: u32
  t_stack :: u32
  t_brk :: u32
  t_argv :: u32
  t_envp :: u32
  t_ret :: u8
  t_sleep :: u32
  t_status :: u32
  t_time :: u32
  t_last_time :: u32
  t_finished :: bool
  t_waiting :: bool
  t_dir :: u32
  t_next :: u32
  t_prev :: u32
  t_parent :: u32
  t_child :: u32
  t_child_count :: u32
  t_child_status :: u32
  t_msg_buf :: u32
  t_msg_ptr :: u8
  t_msg_count :: u32
  t_sighandle :: "u32 list"
  t_sig_queued :: bool
  t_in_sig :: bool
  t_signal :: u32
  t_old_eip :: u32
  t_root :: u32
  t_cwd :: u32
  t_files :: u32
  t_file_count :: u32
  t_file_highest :: u32

abbreviation (input) S_RUNNING :: u32 where "S_RUNNING \<equiv> 0"
abbreviation (input) S_SLEEPING :: u32 where "S_SLEEPING \<equiv> 1"
abbreviation (input) S_LISTENING :: u32 where "S_LISTENING \<equiv> 2"
abbreviation (input) S_SENDING :: u32 where "S_SENDING \<equiv> 3"
abbreviation (input) KERNEL_STACK_SIZE :: u32 where "KERNEL_STACK_SIZE \<equiv> 0x800"
abbreviation (input) MAX_SIGNALS :: nat where "MAX_SIGNALS \<equiv> 32"

text \<open>What \<open>memset( task, 0, sizeof( task_t ))\<close> leaves.\<close>

definition zero_task :: task_t where
  "zero_task =
    \<lparr>t_eip = 0, t_esp = 0, t_ebp = 0, t_id = 0, t_tid = 0, t_uid = 0, t_gid = 0, t_maps = 0, t_stack = 0,
     t_brk = 0, t_argv = 0, t_envp = 0, t_ret = 0, t_sleep = 0, t_status = 0, t_time = 0, t_last_time = 0,
     t_finished = False, t_waiting = False, t_dir = 0, t_next = 0, t_prev = 0, t_parent = 0, t_child = 0,
     t_child_count = 0, t_child_status = 0, t_msg_buf = 0, t_msg_ptr = 0, t_msg_count = 0,
     t_sighandle = replicate MAX_SIGNALS 0, t_sig_queued = False, t_in_sig = False, t_signal = 0,
     t_old_eip = 0, t_root = 0, t_cwd = 0, t_files = 0, t_file_count = 0, t_file_highest = 0\<rparr>"

record sched =
  tasks :: "u32 \<Rightarrow> task_t"
  maps :: memmaps
  current_task :: u32
  task_queue :: u32
  last_task :: u32
  next_pid :: u32
  tick :: u32
  cpu_dir :: u32
  isr_error_count :: u32

definition upd_task :: "u32 \<Rightarrow> (task_t \<Rightarrow> task_t) \<Rightarrow> sched \<Rightarrow> sched" where
  "upd_task p f s = s\<lparr>tasks := (tasks s)(p := f (tasks s p))\<rparr>"

section \<open>The queue\<close>

text \<open>The walk of \<open>add_task\<close> to the last task.\<close>

partial_function (option) task_tail :: "(u32 \<Rightarrow> task_t) \<Rightarrow> u32 \<Rightarrow> u32 option" where
  "task_tail ts temp = (if t_next (ts temp) \<noteq> 0 then task_tail ts (t_next (ts temp)) else Some temp)"

definition add_task :: "u32 \<Rightarrow> sched \<Rightarrow> sched option" where
  "add_task task s =
    map_option (\<lambda>temp. upd_task temp (\<lambda>t. t\<lparr>t_next := task\<rparr>) s) (task_tail (tasks s) (task_queue s))"

text \<open>The walk of \<open>remove_task\<close>: \<open>while ( move->next && move->next != temp ) move = move->next\<close>.\<close>

partial_function (option) task_before :: "(u32 \<Rightarrow> task_t) \<Rightarrow> u32 \<Rightarrow> u32 \<Rightarrow> u32 option" where
  "task_before ts move temp =
    (if t_next (ts move) \<noteq> 0 \<and> t_next (ts move) \<noteq> temp then task_before ts (t_next (ts move)) temp
     else Some move)"

definition tell_parent :: "u32 \<Rightarrow> sched \<Rightarrow> sched" where
  "tell_parent task s =
    (let p = t_parent (tasks s task);
         s1 = (if t_waiting (tasks s p)
               then upd_task p (\<lambda>t. t\<lparr>t_waiting := False, t_child := t_id (tasks s task)\<rparr>) s else s)
     in if t_child_count (tasks s1 p) \<noteq> 0
        then upd_task p (\<lambda>t. t\<lparr>t_child_count := t_child_count t - 1\<rparr>) s1 else s1)"

definition remove_task :: "u32 \<Rightarrow> sched \<Rightarrow> sched option" where
  "remove_task task s =
    map_option (\<lambda>move. tell_parent task (upd_task move (\<lambda>t. t\<lparr>t_next := t_next (tasks s task)\<rparr>) s))
      (task_before (tasks s) (task_queue s) task)"

partial_function (option) pid_walk :: "(u32 \<Rightarrow> task_t) \<Rightarrow> u32 \<Rightarrow> u32 \<Rightarrow> u32 option" where
  "pid_walk ts temp pid =
    (if temp = 0 then Some 0 else if t_id (ts temp) = pid then Some temp else pid_walk ts (t_next (ts temp)) pid)"

definition get_pid_task :: "u32 \<Rightarrow> sched \<Rightarrow> u32 option" where
  "get_pid_task pid s = pid_walk (tasks s) (task_queue s) pid"

definition getpid :: "sched \<Rightarrow> u32" where
  "getpid s = t_id (tasks s (current_task s))"

section \<open>The scheduler\<close>

text \<open>\<open>while ( temp->sleep )\<close>: put off the sleeping tasks one tick each until one is ready.\<close>

partial_function (option) next_ready :: "(u32 \<Rightarrow> task_t) \<Rightarrow> u32 \<Rightarrow> u32 \<Rightarrow> ((u32 \<Rightarrow> task_t) \<times> u32) option" where
  "next_ready ts queue temp =
    (if t_sleep (ts temp) \<noteq> 0
     then let ts1 = ts(temp := (ts temp)\<lparr>t_sleep := t_sleep (ts temp) - 1\<rparr>);
              n = t_next (ts1 temp)
          in next_ready ts1 queue (if n = 0 then queue else n)
     else Some (ts, temp))"

datatype resume = Returned | Resume u32 u32 u32 | To_Signal u32

text \<open>
  The part of \<open>switch_task\<close> after the next task is chosen. With a signal queued and a handler set,
  \<open>jmp_to_signal\<close> leaves by \<open>iret\<close>, so nothing after it runs.
\<close>

definition enter_task :: "u32 \<Rightarrow> sched \<Rightarrow> sched \<times> resume" where
  "enter_task temp s =
    (let s1 = s\<lparr>current_task := temp\<rparr>;
         s2 = (if last_task s1 \<noteq> 0
               then upd_task (last_task s1) (\<lambda>t. t\<lparr>t_time := t_time t + (tick s1 - t_last_time t)\<rparr>) s1 else s1);
         s3 = (upd_task temp (\<lambda>t. t\<lparr>t_last_time := tick s2, t_status := S_RUNNING\<rparr>) s2)\<lparr>last_task := temp\<rparr>;
         t = tasks s3 temp;
         handler = t_sighandle t ! unat (t_signal t)
     in if t_sig_queued t \<and> \<not> t_in_sig t \<and> handler \<noteq> 0
        then (upd_task temp (\<lambda>t. t\<lparr>t_sig_queued := False, t_in_sig := True, t_old_eip := t_eip t\<rparr>) s3,
              To_Signal handler)
        else (s3\<lparr>cpu_dir := t_dir t,
                isr_error_count := (if isr_error_count s3 \<noteq> 0 then isr_error_count s3 - 1 else 0)\<rparr>,
              Resume (t_eip t) (t_esp t) (t_ebp t)))"

text \<open>\<open>eip\<close>, \<open>esp\<close> and \<open>ebp\<close> are the registers read at the switch.\<close>

definition switch_task :: "u32 \<times> u32 \<times> u32 \<Rightarrow> sched \<Rightarrow> (sched \<times> resume) option" where
  "switch_task regs s =
    (if current_task s = 0 then Some (s, Returned)
     else let (eip, esp, ebp) = regs;
              s1 = upd_task (current_task s) (\<lambda>t. t\<lparr>t_eip := eip, t_esp := esp, t_ebp := ebp\<rparr>) s;
              n = t_next (tasks s1 (current_task s));
              temp = (if n = 0 then task_queue s else n)
          in map_option (\<lambda>(ts, temp). enter_task temp (s1\<lparr>tasks := ts\<rparr>)) (next_ready (tasks s1) (task_queue s) temp))"

definition timer_call :: "u32 \<times> u32 \<times> u32 \<Rightarrow> sched \<Rightarrow> (sched \<times> resume) option" where
  "timer_call regs s = switch_task regs (s\<lparr>tick := tick s + 1\<rparr>)"

definition sleep_thread :: "u32 \<Rightarrow> u32 \<times> u32 \<times> u32 \<Rightarrow> sched \<Rightarrow> (sched \<times> resume) option" where
  "sleep_thread time regs s =
    switch_task regs (upd_task (current_task s) (\<lambda>t. t\<lparr>t_sleep := time, t_status := S_SLEEPING\<rparr>) s)"

definition exit_thread :: "u32 \<times> u32 \<times> u32 \<Rightarrow> sched \<Rightarrow> (sched \<times> resume) option" where
  "exit_thread regs s =
    (case remove_task (current_task s) s of None \<Rightarrow> None | Some s1 \<Rightarrow> switch_task regs s1)"

definition exit_task :: "u32 \<times> u32 \<times> u32 \<Rightarrow> sched \<Rightarrow> (sched \<times> resume) option" where
  "exit_task regs s = exit_thread regs (upd_task (current_task s) (\<lambda>t. t\<lparr>t_finished := True\<rparr>) s)"

definition kill_thread :: "u32 \<Rightarrow> sched \<Rightarrow> (sched \<times> int) option" where
  "kill_thread pid s =
    (case get_pid_task pid s of None \<Rightarrow> None
     | Some temp \<Rightarrow>
         if temp = 0 then Some (s, 1) else map_option (\<lambda>s1. (s1, 0)) (remove_task temp s))"

section \<open>Creating tasks\<close>

text \<open>
  \<open>init_task\<close>, with the addresses of the stack block and of the descriptor table. The contents of the
  stack and of the table are cleared in memory that is not part of this state.
\<close>

definition init_task :: "u32 \<Rightarrow> u32 \<Rightarrow> u32 \<Rightarrow> sched \<Rightarrow> sched" where
  "init_task task stk files s =
    (let par = current_task s in
     (upd_task task (\<lambda>t. t\<lparr>t_eip := 0, t_id := next_pid s, t_next := 0, t_parent := par, t_sleep := 0,
        t_time := 0, t_last_time := tick s, t_dir := cpu_dir s, t_stack := stk + KERNEL_STACK_SIZE,
        t_esp := stk + KERNEL_STACK_SIZE, t_ebp := t_ebp (tasks s par), t_msg_buf := 0, t_tid := 0,
        t_files := files, t_sighandle := replicate MAX_SIGNALS 0, t_msg_ptr := 0, t_msg_count := 0,
        t_file_count := 0, t_cwd := t_cwd (tasks s par), t_root := t_root (tasks s par)\<rparr>) s)
     \<lparr>next_pid := next_pid s + 1\<rparr>)"

definition init_tasking :: "u32 \<Rightarrow> u32 \<Rightarrow> u32 \<Rightarrow> u32 \<Rightarrow> sched \<Rightarrow> sched" where
  "init_tasking task stk files fs_root s =
    s\<lparr>current_task := task, task_queue := task, last_task := task, next_pid := next_pid s + 1,
      tasks := (tasks s)(task := zero_task\<lparr>t_id := next_pid s, t_parent := task, t_dir := cpu_dir s,
        t_stack := stk, t_cwd := fs_root, t_root := fs_root, t_files := files\<rparr>)\<rparr>"

definition create_thread :: "u32 \<Rightarrow> u32 \<Rightarrow> u32 \<Rightarrow> u32 \<Rightarrow> sched \<Rightarrow> (sched \<times> u32) option" where
  "create_thread new_task stk files function s =
    (let s1 = init_task new_task stk files (upd_task new_task (\<lambda>_. zero_task) s);
         c = tasks s1 (current_task s);
         s2 = upd_task new_task (\<lambda>t. t\<lparr>t_maps := t_maps c, t_eip := function, t_argv := t_argv c, t_envp := t_envp c\<rparr>) s1
     in case add_task new_task s2 of None \<Rightarrow> None
        | Some s3 \<Rightarrow>
            let s4 = upd_task (current_task s) (\<lambda>t. t\<lparr>t_child_count := t_child_count t + 1\<rparr>) s3;
                tid = t_tid (tasks s4 (current_task s));
                s5 = upd_task (current_task s) (\<lambda>t. t\<lparr>t_tid := tid + 1\<rparr>) s4;
                s6 = upd_task new_task (\<lambda>t. t\<lparr>t_tid := tid\<rparr>) s5
            in Some (s6, t_id (tasks s6 new_task)))"

section \<open>Waiting and the break\<close>

text \<open>
  \<open>wait\<close> has two halves, before and after the loop that sleeps while \<open>waiting\<close> is set; the loop ends when the
  removal of a child clears the flag. The first half is \<open>Inl\<close> of the status and the result, or \<open>Inr\<close> of the
  state in which the loop starts; the second gives the state, the status and the result.
\<close>

definition wait_begin :: "sched \<Rightarrow> (u32 \<times> u32) + sched" where
  "wait_begin s =
    (if t_child_count (tasks s (current_task s)) = 0 then Inl (1, - 1)
     else Inr (upd_task (current_task s) (\<lambda>t. t\<lparr>t_waiting := True\<rparr>) s))"

definition wait_end :: "sched \<Rightarrow> sched \<times> u32 \<times> u32" where
  "wait_end s =
    (let s1 = upd_task (current_task s) (\<lambda>t. t\<lparr>t_waiting := False, t_child := 0\<rparr>) s
     in (s1, 0, t_child (tasks s1 (current_task s1))))"

text \<open>\<open>sbrk\<close> moves the end of the map that holds the break; without such a map it writes through a null pointer.\<close>

definition sbrk :: "u32 \<Rightarrow> sched \<Rightarrow> (sched \<times> u32) run" where
  "sbrk inc s =
    (let c = tasks s (current_task s); ret = t_brk c in
     case memmaps_check (maps s) (t_maps c) (t_brk c) of None \<Rightarrow> None
     | Some mp \<Rightarrow>
         if mp = 0 then Some (Inl Null_Deref)
         else let s1 = upd_task (current_task s) (\<lambda>t. t\<lparr>t_brk := t_brk t + inc\<rparr>) s
              in done_with (s1\<lparr>maps := (maps s1)(mp := (maps s1 mp)\<lparr>m_end := m_end (maps s1 mp) + inc\<rparr>)\<rparr>, ret))"

end
