(* ===== verification/Task_Queue.thy ===== *)
theory Task_Queue
  imports Task
begin

text \<open>
  The task queue as a process table: \<open>wf_queue s as\<close> says that the queue visits the tasks \<open>as\<close>, that their process
  numbers are distinct and below \<open>next_pid\<close>, and that the running task is one of them. Creating and killing keep
  it, except that killing the first task does not.
\<close>

section \<open>Queue walks\<close>

abbreviation links :: "sched \<Rightarrow> u32 \<Rightarrow> u32" where
  "links s a \<equiv> t_next (tasks s a)"

lemma upd_task_simps [simp]:
  "tasks (upd_task p f s) = (tasks s)(p := f (tasks s p))" "task_queue (upd_task p f s) = task_queue s"
  "current_task (upd_task p f s) = current_task s" "next_pid (upd_task p f s) = next_pid s"
  "last_task (upd_task p f s) = last_task s" "tick (upd_task p f s) = tick s"
  "cpu_dir (upd_task p f s) = cpu_dir s" "maps (upd_task p f s) = maps s"
  "isr_error_count (upd_task p f s) = isr_error_count s"
  by (simp_all add: upd_task_def)

lemma task_tail_chain:
  "chain (\<lambda>a. t_next (ts a)) p as \<Longrightarrow> as \<noteq> [] \<Longrightarrow> task_tail ts p = Some (last as)"
proof (induction as arbitrary: p)
  case (Cons a as)
  then show ?case by (subst task_tail.simps) (cases as; auto)
qed simp

lemma task_before_chain:
  "chain (\<lambda>a. t_next (ts a)) p (as @ x # y # bs) \<Longrightarrow> task_before ts p y = Some x"
proof (induction as arbitrary: p)
  case Nil
  then show ?case by (subst task_before.simps) auto
next
  case (Cons a as)
  have d: "distinct (a # as @ x # y # bs)" using chain_distinct Cons.prems by fastforce
  have "t_next (ts a) = hd (as @ x # y # bs)" using Cons.prems by (cases as) auto
  then have n: "t_next (ts a) \<noteq> 0" "t_next (ts a) \<noteq> y" using Cons.prems d by (cases as; auto)+
  have "chain (\<lambda>a. t_next (ts a)) (t_next (ts a)) (as @ x # y # bs)" using Cons.prems by simp
  from Cons.IH [OF this] n Cons.prems show ?case by (subst task_before.simps) auto
qed

lemma task_before_absent:
  "chain (\<lambda>a. t_next (ts a)) p as \<Longrightarrow> as \<noteq> [] \<Longrightarrow> y \<notin> set (tl as) \<Longrightarrow> y \<noteq> 0 \<Longrightarrow> task_before ts p y = Some (last as)"
proof (induction as arbitrary: p)
  case (Cons a as)
  show ?case
  proof (cases as)
    case Nil
    with Cons.prems show ?thesis by (subst task_before.simps) simp
  next
    case (Cons b bs)
    with Cons.prems Cons.IH [of "t_next (ts a)"] show ?thesis by (subst task_before.simps) auto
  qed
qed simp

lemma pid_walk_chain:
  "chain (\<lambda>a. t_next (ts a)) p as \<Longrightarrow>
    pid_walk ts p pid = Some (case find (\<lambda>a. t_id (ts a) = pid) as of None \<Rightarrow> 0 | Some a \<Rightarrow> a)"
proof (induction as arbitrary: p)
  case Nil
  then show ?case by (subst pid_walk.simps) simp
next
  case (Cons a as)
  then show ?case by (subst pid_walk.simps) auto
qed

section \<open>The task table\<close>

definition wf_queue :: "sched \<Rightarrow> u32 list \<Rightarrow> bool" where
  "wf_queue s as \<longleftrightarrow> chain (links s) (task_queue s) as \<and> as \<noteq> [] \<and> current_task s \<in> set as \<and>
     distinct (map (\<lambda>a. t_id (tasks s a)) as) \<and> (\<forall>a\<in>set as. t_id (tasks s a) < next_pid s)"

lemma get_pid_task_wf:
  assumes "wf_queue s as"
  shows "get_pid_task pid s = Some (case find (\<lambda>a. t_id (tasks s a) = pid) as of None \<Rightarrow> 0 | Some a \<Rightarrow> a)"
  using assms by (simp add: wf_queue_def get_pid_task_def pid_walk_chain)

lemma find_distinct:
  "distinct (map f as) \<Longrightarrow> a \<in> set as \<Longrightarrow> find (\<lambda>x. f x = f a) as = Some a"
  by (induction as) auto

lemma find_Some_mem: "find P xs = Some x \<Longrightarrow> x \<in> set xs \<and> P x"
  by (induction xs) (auto split: if_splits)

lemma get_pid_task_iff:
  assumes "wf_queue s as" "a \<noteq> 0"
  shows "get_pid_task pid s = Some a \<longleftrightarrow> a \<in> set as \<and> t_id (tasks s a) = pid"
proof -
  have d: "distinct (map (\<lambda>a. t_id (tasks s a)) as)" using assms(1) by (simp add: wf_queue_def)
  show ?thesis
    using find_distinct [OF d, of a] assms(2)
    by (auto simp: get_pid_task_wf [OF assms(1)] split: option.splits dest: find_Some_mem)
qed

lemma get_pid_task_0_iff:
  assumes "wf_queue s as"
  shows "get_pid_task pid s = Some 0 \<longleftrightarrow> pid \<notin> (\<lambda>a. t_id (tasks s a)) ` set as"
  using assms chain_nonzero [of "links s" "task_queue s" as]
  by (auto simp: get_pid_task_wf [OF assms] wf_queue_def find_None_iff split: option.splits dest: find_Some_mem)

text \<open>\<open>tell_parent\<close> touches neither links nor identities.\<close>

lemma tell_parent_frame [simp]:
  "t_next (tasks (tell_parent task s) a) = t_next (tasks s a)" "t_id (tasks (tell_parent task s) a) = t_id (tasks s a)"
  "t_sleep (tasks (tell_parent task s) a) = t_sleep (tasks s a)"
  "task_queue (tell_parent task s) = task_queue s" "current_task (tell_parent task s) = current_task s"
  "next_pid (tell_parent task s) = next_pid s"
  by (simp_all add: tell_parent_def Let_def)

text \<open>A task behind the first one leaves the chain, also when it is the one that runs, and keeps its own link.\<close>

lemma remove_task_chain:
  assumes "chain (links s) (task_queue s) (as @ x # y # bs)"
  obtains s' where "remove_task y s = Some s'" "chain (links s') (task_queue s) (as @ x # bs)" "links s' y = links s y"
    "\<And>a. t_id (tasks s' a) = t_id (tasks s a)" "task_queue s' = task_queue s" "current_task s' = current_task s"
    "next_pid s' = next_pid s"
proof -
  let ?s = "tell_parent y (upd_task x (\<lambda>t. t\<lparr>t_next := t_next (tasks s y)\<rparr>) s)"
  have "remove_task y s = Some ?s" using task_before_chain [OF assms] by (simp add: remove_task_def)
  moreover have "chain (links ?s) (task_queue s) (as @ x # bs)" by (rule chain_remove [OF assms]) simp_all
  moreover have "x \<noteq> y" using chain_distinct [OF assms] by auto
  ultimately show thesis using that by auto
qed

lemma remove_task_inner:
  assumes "wf_queue s (as @ x # y # bs)" "current_task s \<noteq> y"
  obtains s' where "remove_task y s = Some s'" "wf_queue s' (as @ x # bs)"
    "\<And>a. t_id (tasks s' a) = t_id (tasks s a)" "task_queue s' = task_queue s" "current_task s' = current_task s"
proof -
  have c: "chain (links s) (task_queue s) (as @ x # y # bs)" using assms(1) by (simp add: wf_queue_def)
  obtain s' where r: "remove_task y s = Some s'" "chain (links s') (task_queue s) (as @ x # bs)"
    "\<And>a. t_id (tasks s' a) = t_id (tasks s a)" "task_queue s' = task_queue s" "current_task s' = current_task s"
    "next_pid s' = next_pid s"
    by (rule remove_task_chain [OF c]) blast
  then show thesis using that [of s'] assms by (auto simp: wf_queue_def)
qed

lemma wf_queueD:
  assumes "wf_queue s as"
  shows "chain (links s) (task_queue s) as" "as \<noteq> []" "current_task s \<in> set as"
    "distinct (map (\<lambda>a. t_id (tasks s a)) as)" "\<And>a. a \<in> set as \<Longrightarrow> t_id (tasks s a) < next_pid s"
    "distinct as" "0 \<notin> set as" "hd as = task_queue s"
  using assms chain_distinct [of "links s" "task_queue s" as] chain_nonzero [of "links s" "task_queue s" as]
    chain_hd [of "links s" "task_queue s" as]
  by (auto simp: wf_queue_def)

lemma wf_queue_cong:
  assumes "wf_queue s as" "task_queue s' = task_queue s" "current_task s' = current_task s" "next_pid s' = next_pid s"
    and "\<And>a. t_next (tasks s' a) = t_next (tasks s a)" "\<And>a. t_id (tasks s' a) = t_id (tasks s a)"
  shows "wf_queue s' as"
  using assms by (simp add: wf_queue_def)

lemma wf_queue_unique: "wf_queue s as \<Longrightarrow> wf_queue s bs \<Longrightarrow> as = bs"
  by (auto simp: wf_queue_def dest: chain_unique)

text \<open>A task that was linked behind the last one with the next number: the queue stays well formed.\<close>

lemma queue_grows:
  assumes "wf_queue s as" "new \<noteq> 0" "new \<notin> set as" "next_pid s < - 1"
    and f: "\<And>a. links s' a = (if a = last as then new else if a = new then 0 else links s a)"
      "\<And>a. t_id (tasks s' a) = (if a = new then next_pid s else t_id (tasks s a))"
    and g: "task_queue s' = task_queue s" "current_task s' = current_task s" "next_pid s' = next_pid s + 1"
  shows "wf_queue s' (as @ [new])" "get_pid_task (next_pid s) s' = Some new"
    "pid \<noteq> next_pid s \<Longrightarrow> get_pid_task pid s' = get_pid_task pid s"
proof -
  note q = wf_queueD [OF assms(1)]
  have "chain (links s') (task_queue s) (as @ [new])"
  proof (rule chain_append [OF q(1,2) assms(2,3)])
    fix a assume "a \<in> set (butlast as)"
    moreover have "distinct (butlast as @ [last as])" using q(2,6) by simp
    ultimately have "a \<noteq> last as" "a \<in> set as" using in_set_butlastD by (auto simp del: append_butlast_last_id)
    then show "links s' a = links s a" using assms(3) by (auto simp: f(1))
  qed (use f q(2) assms(3) in auto)
  moreover have "next_pid s \<noteq> t_id (tasks s x)" if "x \<in> set as" for x using q(5) [OF that] by auto
  then have "distinct (map (\<lambda>a. t_id (tasks s' a)) (as @ [new]))"
    using q(4) assms(3) by (auto simp: f(2) distinct_map inj_on_def)
  moreover have lt: "x < next_pid s + 1" if "x \<le> next_pid s" for x
    using that assms(4) by (simp add: word_less_nat_alt word_le_nat_alt unat_u32_minus_1 unat_add_lem [THEN iffD1])
  ultimately show wf: "wf_queue s' (as @ [new])"
    using q by (auto simp: wf_queue_def f(2) g intro!: lt less_imp_le)
  have fd: "find (\<lambda>a. t_id (tasks s' a) = pid) (as @ [new]) = find (\<lambda>a. t_id (tasks s a) = pid) as"
    if "pid \<noteq> next_pid s" for pid
    using that assms(3) by (induction as) (auto simp: f(2))
  show "get_pid_task pid s' = get_pid_task pid s" if "pid \<noteq> next_pid s"
    by (simp only: get_pid_task_wf [OF wf] get_pid_task_wf [OF assms(1)] fd [OF that])
  show "get_pid_task (next_pid s) s' = Some new" using f(2) [of new] get_pid_task_iff [OF wf assms(2)] by auto
qed

lemma create_thread_steps:
  assumes "wf_queue s as" "new \<noteq> 0" "new \<notin> set as"
  obtains s' where "create_thread new stk files f s = Some (s', next_pid s)"
    "\<And>a. links s' a = (if a = last as then new else if a = new then 0 else links s a)"
    "\<And>a. t_id (tasks s' a) = (if a = new then next_pid s else t_id (tasks s a))"
    "task_queue s' = task_queue s" "current_task s' = current_task s" "next_pid s' = next_pid s + 1"
    "t_eip (tasks s' new) = f" "t_sleep (tasks s' new) = 0" "t_parent (tasks s' new) = current_task s"
proof -
  note q = wf_queueD [OF assms(1)]
  let ?s1 = "init_task new stk files (upd_task new (\<lambda>_. zero_task) s)"
  let ?c = "tasks ?s1 (current_task s)"
  let ?s2 = "upd_task new (\<lambda>t. t\<lparr>t_maps := t_maps ?c, t_eip := f, t_argv := t_argv ?c, t_envp := t_envp ?c\<rparr>) ?s1"
  let ?s4 = "upd_task (current_task s) (\<lambda>t. t\<lparr>t_child_count := t_child_count t + 1\<rparr>)
    (upd_task (last as) (\<lambda>t. t\<lparr>t_next := new\<rparr>) ?s2)"
  let ?tid = "t_tid (tasks ?s4 (current_task s))"
  let ?s' = "upd_task new (\<lambda>t. t\<lparr>t_tid := ?tid\<rparr>) (upd_task (current_task s) (\<lambda>t. t\<lparr>t_tid := ?tid + 1\<rparr>) ?s4)"
  have cn: "current_task s \<noteq> new" "last as \<noteq> new" using q assms(3) by auto
  have l2: "links ?s2 a = (if a = new then 0 else links s a)" for a by (simp add: init_task_def Let_def)
  have c2: "chain (links ?s2) (task_queue s) as"
    using q(1) chain_cong [of as "links s" "links ?s2"] assms(3) l2 by metis
  have q2: "task_queue ?s2 = task_queue s" by (simp add: init_task_def Let_def)
  have "task_tail (tasks ?s2) (task_queue ?s2) = Some (last as)"
    using task_tail_chain [OF c2 q(2)] by (simp only: q2)
  then have "add_task new ?s2 = Some (upd_task (last as) (\<lambda>t. t\<lparr>t_next := new\<rparr>) ?s2)"
    by (simp add: add_task_def)
  then have run: "create_thread new stk files f s = Some (?s', t_id (tasks ?s' new))"
    unfolding create_thread_def Let_def by simp
  show thesis
    by (rule that [of ?s']) (use run cn in \<open>simp_all add: init_task_def Let_def\<close>)
qed

text \<open>
  C29. Creating a thread: for a fresh task structure the call returns, the new task is queued last behind all
  existing ones with the next process number, the table stays well formed, the returned number looks
  up the new task, and every other number looks up what it did before.
\<close>

theorem create_thread_queued:
  assumes "wf_queue s as" "new \<noteq> 0" "new \<notin> set as" "next_pid s < - 1"
  shows "\<exists>s'. create_thread new stk files f s = Some (s', next_pid s) \<and> wf_queue s' (as @ [new]) \<and>
    get_pid_task (next_pid s) s' = Some new \<and>
    (\<forall>pid. pid \<noteq> next_pid s \<longrightarrow> get_pid_task pid s' = get_pid_task pid s) \<and>
    t_eip (tasks s' new) = f \<and> t_sleep (tasks s' new) = 0 \<and> t_parent (tasks s' new) = current_task s"
proof -
  obtain s' where run: "create_thread new stk files f s = Some (s', next_pid s)"
    and f: "\<And>a. links s' a = (if a = last as then new else if a = new then 0 else links s a)"
      "\<And>a. t_id (tasks s' a) = (if a = new then next_pid s else t_id (tasks s a))"
    and g: "task_queue s' = task_queue s" "current_task s' = current_task s" "next_pid s' = next_pid s + 1"
      "t_eip (tasks s' new) = f" "t_sleep (tasks s' new) = 0" "t_parent (tasks s' new) = current_task s"
    using create_thread_steps [OF assms(1-3), of stk files f] by metis
  show ?thesis using run g queue_grows [OF assms f g(1-3)] by blast
qed

section \<open>Killing\<close>

lemma kill_thread_inner:
  assumes "wf_queue s (as @ x # y # bs)" "current_task s \<noteq> y"
  obtains s' where "kill_thread (t_id (tasks s y)) s = Some (s', 0)" "wf_queue s' (as @ x # bs)"
    "\<And>a. t_id (tasks s' a) = t_id (tasks s a)" "task_queue s' = task_queue s" "current_task s' = current_task s"
proof -
  obtain s' where r: "remove_task y s = Some s'" "wf_queue s' (as @ x # bs)"
    "\<And>a. t_id (tasks s' a) = t_id (tasks s a)" "task_queue s' = task_queue s" "current_task s' = current_task s"
    by (rule remove_task_inner [OF assms]) blast
  have y: "y \<noteq> 0" using wf_queueD(7) [OF assms(1)] by auto
  then have "get_pid_task (t_id (tasks s y)) s = Some y" using get_pid_task_iff [OF assms(1)] by simp
  then show thesis using that r y by (simp add: kill_thread_def)
qed

definition pids :: "sched \<Rightarrow> u32 set" where
  "pids s = {pid. \<exists>as a. wf_queue s as \<and> a \<in> set as \<and> pid = t_id (tasks s a)}"

definition pinned :: "sched \<Rightarrow> u32 \<Rightarrow> bool" where
  "pinned s pid \<longleftrightarrow> pid = t_id (tasks s (task_queue s)) \<or> pid = getpid s"

lemma pids_wf: "wf_queue s as \<Longrightarrow> pids s = (\<lambda>a. t_id (tasks s a)) ` set as"
  unfolding pids_def using wf_queue_unique by blast

lemma find_skip: "\<not> P y \<Longrightarrow> find P (xs @ y # ys) = find P (xs @ ys)"
  by (induction xs) auto

text \<open>The lookup in a queue that a task has left.\<close>

lemma get_pid_task_less:
  assumes "wf_queue s (xs @ x # y # bs)" "chain (links s') (task_queue s') (xs @ x # bs)"
    and "\<And>a. t_id (tasks s' a) = t_id (tasks s a)" "pid = t_id (tasks s y)"
  shows "get_pid_task p s' = (if p = pid then Some 0 else get_pid_task p s)"
proof -
  have "pid \<notin> (\<lambda>a. t_id (tasks s a)) ` set (xs @ x # bs)" using wf_queueD(4) [OF assms(1)] assms(4) by auto
  then have "\<forall>a\<in>set (xs @ x # bs). t_id (tasks s a) \<noteq> pid" by blast
  then have "find (\<lambda>a. t_id (tasks s a) = pid) (xs @ x # bs) = None" unfolding find_None_iff by blast
  moreover have "find (\<lambda>a. t_id (tasks s a) = p) (xs @ x # bs) = find (\<lambda>a. t_id (tasks s a) = p) (xs @ x # y # bs)" if "p \<noteq> pid"
    using that assms(4) find_skip [of "\<lambda>a. t_id (tasks s a) = p" y "xs @ [x]" bs] by simp
  moreover have "get_pid_task p s' = Some (case find (\<lambda>a. t_id (tasks s a) = p) (xs @ x # bs) of None \<Rightarrow> 0 | Some a \<Rightarrow> a)"
    using pid_walk_chain [OF assms(2), of p] assms(3) by (simp add: get_pid_task_def)
  ultimately show ?thesis by (simp add: get_pid_task_wf [OF assms(1)])
qed

lemma kill_thread_pids:
  assumes "wf_queue s as" "pid \<in> pids s" "\<not> pinned s pid"
  shows "\<exists>s'. kill_thread pid s = Some (s', 0) \<and> (\<exists>bs. wf_queue s' bs) \<and> get_pid_task pid s' = Some 0 \<and>
    (\<forall>p. p \<noteq> pid \<longrightarrow> get_pid_task p s' = get_pid_task p s)"
proof -
  note q = wf_queueD [OF assms(1)]
  obtain y where y: "y \<in> set as" "pid = t_id (tasks s y)" using assms(2) pids_wf [OF assms(1)] by auto
  have "y \<noteq> hd as" "current_task s \<noteq> y" using assms(3) y q(8) by (auto simp: pinned_def getpid_def)
  then have "y \<in> set (tl as)" using y q(2) by (cases as) auto
  then obtain us bs where "tl as = us @ y # bs" by (meson split_list)
  then have "as = (hd as # us) @ y # bs" using q(2) by (cases as) auto
  then obtain xs x where as: "as = xs @ x # y # bs"
    by (metis append.assoc append_Cons append_Nil list.distinct(1) rev_exhaust)
  obtain s' where k: "kill_thread pid s = Some (s', 0)" "wf_queue s' (xs @ x # bs)"
    "\<And>a. t_id (tasks s' a) = t_id (tasks s a)"
    using kill_thread_inner [of s xs x y bs] assms(1) \<open>current_task s \<noteq> y\<close> as y(2) by metis
  moreover have c: "chain (links s') (task_queue s') (xs @ x # bs)" using wf_queueD(1) [OF k(2)] .
  have "get_pid_task p s' = (if p = pid then Some 0 else get_pid_task p s)" for p
    by (rule get_pid_task_less [OF assms(1) [unfolded as] c k(3) y(2)])
  ultimately show ?thesis using k by auto
qed

locale process_table =
  fixes ok :: "'s \<Rightarrow> bool" and known :: "'s \<Rightarrow> u32 set" and fixed :: "'s \<Rightarrow> u32 \<Rightarrow> bool"
    and look :: "u32 \<Rightarrow> 's \<Rightarrow> u32 option" and del :: "u32 \<Rightarrow> 's \<Rightarrow> ('s \<times> int) option"
  assumes look: "ok s \<Longrightarrow> \<exists>a. look pid s = Some a \<and> (a = 0 \<longleftrightarrow> pid \<notin> known s)"
    and del: "ok s \<Longrightarrow> pid \<in> known s \<Longrightarrow> \<not> fixed s pid \<Longrightarrow>
      \<exists>s'. del pid s = Some (s', 0) \<and> ok s' \<and> look pid s' = Some 0 \<and> (\<forall>p. p \<noteq> pid \<longrightarrow> look p s' = look p s)"
    and del_absent: "ok s \<Longrightarrow> pid \<notin> known s \<Longrightarrow> del pid s = Some (s, 1)"
begin

lemma del_once:
  assumes "ok s" "pid \<in> known s" "\<not> fixed s pid"
  shows "\<exists>s'. del pid s = Some (s', 0) \<and> ok s' \<and> look pid s' = Some 0 \<and> del pid s' = Some (s', 1) \<and>
    (\<forall>p. p \<noteq> pid \<longrightarrow> look p s' = look p s)"
proof -
  obtain s' where d: "del pid s = Some (s', 0)" "ok s'" "look pid s' = Some 0" "\<forall>p. p \<noteq> pid \<longrightarrow> look p s' = look p s"
    using del [OF assms] by blast
  then have "pid \<notin> known s'" using look [OF d(2), of pid] by auto
  with d del_absent [OF d(2), of pid] show ?thesis by blast
qed

end

interpretation task_table: process_table "\<lambda>s. \<exists>as. wf_queue s as" pids pinned get_pid_task kill_thread
proof unfold_locales
  fix s pid
  assume "\<exists>as. wf_queue s as"
  then obtain as where wf: "wf_queue s as" by blast
  show "\<exists>a. get_pid_task pid s = Some a \<and> (a = 0 \<longleftrightarrow> pid \<notin> pids s)"
    using get_pid_task_wf [OF wf, of pid] get_pid_task_0_iff [OF wf, of pid] pids_wf [OF wf] by simp
  assume "pid \<notin> pids s"
  then have "get_pid_task pid s = Some 0" using get_pid_task_0_iff [OF wf] pids_wf [OF wf] by simp
  then show "kill_thread pid s = Some (s, 1)" by (simp add: kill_thread_def)
qed (use kill_thread_pids in blast)

text \<open>
  C30. Killing a process that is neither the first of the queue nor the caller: \<open>kill_thread\<close> returns 0 and keeps the
  queue well formed, its number is then unknown, a second kill reports 1 and changes nothing, and every other number
  leads to the task it led to before. (In the parent the fields that count and announce children change.)
\<close>

theorem kill_thread_removes:
  assumes "wf_queue s as" "pid \<in> pids s" "\<not> pinned s pid"
  shows "\<exists>s'. kill_thread pid s = Some (s', 0) \<and> (\<exists>bs. wf_queue s' bs) \<and> get_pid_task pid s' = Some 0 \<and>
    kill_thread pid s' = Some (s', 1) \<and>
    (\<forall>p. p \<noteq> pid \<longrightarrow> get_pid_task p s' = get_pid_task p s)"
  using task_table.del_once [OF _ assms(2,3)] assms(1) by blast

section \<open>Killing the first task\<close>

lemma pid_walk_closed:
  assumes "p \<in> S" "\<forall>a\<in>S. a \<noteq> 0 \<and> t_id (ts a) \<noteq> pid \<and> t_next (ts a) \<in> S"
  shows "pid_walk ts p pid = None"
proof (rule ccontr)
  assume "pid_walk ts p pid \<noteq> None"
  then obtain r where "pid_walk ts p pid = Some r" by blast
  then have "(\<forall>a\<in>S. a \<noteq> 0 \<and> t_id (ts a) \<noteq> pid \<and> t_next (ts a) \<in> S) \<Longrightarrow> p \<notin> S"
  proof (induction rule: pid_walk.raw_induct [rotated, consumes 1, case_names 1])
    case (1 f ts p pid r)
    show ?case
    proof
      assume "p \<in> S"
      with "1.prems" have "f ts (t_next (ts p)) pid = Some r" "t_next (ts p) \<in> S"
        using "1.hyps" by (auto split: if_splits)
      then show False using "1.IH" [of ts "t_next (ts p)" pid r] "1.prems" by blast
    qed
  qed
  with assms show False by blast
qed

text \<open>
  C38. Killing the first process breaks the queue: \<open>kill_thread\<close> reports success, but the task stays in the
  queue and the last task is linked back into it, so that looking up any unknown process number afterwards
  never returns.
\<close>

theorem kill_first_makes_cycle:
  assumes "wf_queue s (h # b # bs)"
  shows "\<exists>s'. kill_thread (t_id (tasks s h)) s = Some (s', 0) \<and>
    get_pid_task (t_id (tasks s h)) s' = Some h \<and> (\<forall>pid. pid \<notin> pids s \<longrightarrow> get_pid_task pid s' = None)"
proof -
  let ?as = "h # b # bs" and ?l = "last (b # bs)"
  note q = wf_queueD [OF assms]
  have "?l \<in> set (b # bs)" by (rule last_in_set) simp
  then have h: "h \<noteq> 0" "task_queue s = h" "?l \<noteq> h" using q(6,7,8) by auto
  let ?s = "tell_parent h (upd_task ?l (\<lambda>t. t\<lparr>t_next := t_next (tasks s h)\<rparr>) s)"
  have g: "get_pid_task (t_id (tasks s h)) s = Some h" using get_pid_task_iff [OF assms h(1)] by simp
  have "task_before (tasks s) h h = Some ?l"
    using task_before_absent [of "tasks s" h ?as h] q(1,6) h by simp
  then have k: "kill_thread (t_id (tasks s h)) s = Some (?s, 0)"
    using g h by (simp add: kill_thread_def remove_task_def)
  have ids: "t_id (tasks ?s a) = t_id (tasks s a)" for a by simp
  have "t_next (tasks ?s a) \<in> set ?as" if "a \<in> set ?as" for a
  proof (cases "a = ?l")
    case True
    have "t_next (tasks s h) = b" using q(1) by simp
    then show ?thesis using True by simp
  next
    case False
    obtain us vs where u: "?as = us @ a # vs" using \<open>a \<in> set ?as\<close> by (meson split_list)
    have "vs \<noteq> []"
    proof
      assume "vs = []"
      then have "last ?as = a" by (simp only: u last_snoc)
      then show False using False by simp
    qed
    moreover have "chain (links s) (task_queue s) (us @ a # vs)" using q(1) by (simp only: u)
    ultimately have "t_next (tasks s a) = hd vs" using chain_next by force
    then show ?thesis using False u \<open>vs \<noteq> []\<close> by simp
  qed
  then have "get_pid_task pid ?s = None" if "pid \<notin> pids s" for pid
    using that q(7) pids_wf [OF assms] h ids unfolding get_pid_task_def
    by (intro pid_walk_closed [of _ "set ?as"]) auto
  moreover have "get_pid_task (t_id (tasks s h)) ?s = Some h"
    using h unfolding get_pid_task_def by (subst pid_walk.simps) simp
  ultimately show ?thesis using k by blast
qed

section \<open>Examples\<close>

text \<open>Three tasks; the second sleeps.\<close>

definition demo_sched :: sched where
  "demo_sched = \<lparr>tasks = (\<lambda>_. zero_task)
       (0x10 := zero_task\<lparr>t_id := 1, t_next := 0x20, t_parent := 0x10, t_child_count := 2\<rparr>,
        0x20 := zero_task\<lparr>t_id := 2, t_next := 0x30, t_parent := 0x10, t_sleep := 5\<rparr>,
        0x30 := zero_task\<lparr>t_id := 3, t_parent := 0x10, t_eip := 0x1234\<rparr>),
     maps = (\<lambda>_. \<lparr>m_start = 0, m_end = 0, m_permissions = 0, m_present = 0, m_references = 0, m_next = 0\<rparr>),
     current_task = 0x10, task_queue = 0x10, last_task = 0x10, next_pid = 4, tick = 7, cpu_dir = 0x1000,
     isr_error_count = 0\<rparr>"

lemma demo_sched_wf: "wf_queue demo_sched [0x10, 0x20, 0x30]"
  by (simp add: wf_queue_def demo_sched_def zero_task_def)

theorem create_thread_queued_witness:
  "\<exists>s'. create_thread 0x40 0x9000 0xa000 0x5555 demo_sched = Some (s', 4) \<and> get_pid_task 4 s' = Some 0x40 \<and>
    t_eip (tasks s' 0x40) = 0x5555"
proof -
  have n: "next_pid demo_sched = 4" by (simp add: demo_sched_def)
  show ?thesis
    using create_thread_queued [OF demo_sched_wf, of "0x40" "0x9000" "0xa000" "0x5555"] unfolding n by auto
qed

lemma demo_pids: "pids demo_sched = {1, 2, 3}"
  by (simp add: pids_wf [OF demo_sched_wf]) (simp add: demo_sched_def)

theorem kill_thread_removes_witness:
  "\<exists>s'. kill_thread 2 demo_sched = Some (s', 0) \<and> get_pid_task 2 s' = Some 0 \<and> get_pid_task 3 s' \<noteq> Some 0"
proof -
  have np: "\<not> pinned demo_sched 2" by (simp add: pinned_def getpid_def demo_sched_def)
  have "get_pid_task 3 demo_sched \<noteq> Some 0"
    using get_pid_task_0_iff [OF demo_sched_wf, of 3] by (simp add: demo_sched_def)
  then show ?thesis using kill_thread_removes [OF demo_sched_wf _ np] demo_pids by auto
qed

theorem kill_first_makes_cycle_witness:
  "\<exists>s'. kill_thread 1 demo_sched = Some (s', 0) \<and> get_pid_task 9 s' = None"
proof -
  have "t_id (tasks demo_sched 0x10) = 1" by (simp add: demo_sched_def)
  then show ?thesis using kill_first_makes_cycle [OF demo_sched_wf] demo_pids by auto
qed

end
