(* ===== verification/Scheduler.thy ===== *)
theory Scheduler
  imports Task_Queue
begin

text \<open>
  The scheduler: \<open>next_ready\<close> ends on every well-formed queue, since each step reduces a sleep count, and it
  visits the tasks in round-robin order. The lemmas describe \<open>switch_task\<close> as a whole.
\<close>

section \<open>Choosing the next task\<close>

definition after :: "(u32 \<Rightarrow> task_t) \<Rightarrow> u32 \<Rightarrow> u32 \<Rightarrow> u32" where
  "after ts queue a = (if t_next (ts a) = 0 then queue else t_next (ts a))"

lemma after_in_queue:
  assumes "chain (\<lambda>a. t_next (ts a)) queue as" "a \<in> set as"
  shows "after ts queue a \<in> set as"
proof -
  obtain us vs where as: "as = us @ a # vs" using assms(2) by (meson split_list)
  then have "t_next (ts a) = (if vs = [] then 0 else hd vs)" using chain_next assms(1) by force
  moreover have "queue \<in> set as" using assms chain_hd [OF assms(1)] by (cases as) auto
  ultimately show ?thesis using as by (cases vs) (auto simp: after_def)
qed

definition doze :: "u32 \<Rightarrow> (u32 \<Rightarrow> task_t) \<Rightarrow> u32 \<Rightarrow> task_t" where
  "doze a ts = ts(a := (ts a)\<lparr>t_sleep := t_sleep (ts a) - 1\<rparr>)"

lemma doze_simps [simp]:
  "t_next (doze a ts b) = t_next (ts b)" "after (doze a ts) queue b = after ts queue b"
  "t_sleep (doze a ts b) = (if b = a then t_sleep (ts b) - 1 else t_sleep (ts b))"
  by (simp_all add: doze_def after_def)

lemma next_ready_unfold:
  "next_ready ts queue a =
    (if t_sleep (ts a) \<noteq> 0 then next_ready (doze a ts) queue (after ts queue a) else Some (ts, a))"
  by (subst next_ready.simps) (simp add: doze_def after_def Let_def)

definition only_dozed :: "(u32 \<Rightarrow> task_t) \<Rightarrow> (u32 \<Rightarrow> task_t) \<Rightarrow> bool" where
  "only_dozed ts ts' \<longleftrightarrow> (\<forall>a. \<exists>n \<le> t_sleep (ts a). ts' a = (ts a)\<lparr>t_sleep := n\<rparr>)"

lemma only_dozed_doze:
  assumes "t_sleep (ts a) \<noteq> 0" "only_dozed (doze a ts) ts'"
  shows "only_dozed ts ts'"
  unfolding only_dozed_def
proof
  fix b
  obtain n where n: "n \<le> t_sleep (doze a ts b)" "ts' b = (doze a ts b)\<lparr>t_sleep := n\<rparr>"
    using assms(2) unfolding only_dozed_def by blast
  have "t_sleep (ts a) - 1 \<le> t_sleep (ts a)" using assms(1) by (simp add: word_le_nat_alt unat_minus_one)
  then have "n \<le> t_sleep (ts b)" using n(1) by (auto split: if_splits)
  moreover have "ts' b = (ts b)\<lparr>t_sleep := n\<rparr>" using n(2) by (simp add: doze_def)
  ultimately show "\<exists>n \<le> t_sleep (ts b). ts' b = (ts b)\<lparr>t_sleep := n\<rparr>" by blast
qed

lemma next_ready_total:
  assumes "chain (\<lambda>a. t_next (ts a)) queue as" "a \<in> set as"
  shows "\<exists>ts' r. next_ready ts queue a = Some (ts', r) \<and> r \<in> set as \<and> t_sleep (ts' r) = 0 \<and> only_dozed ts ts'"
  using assms
proof (induction "\<Sum>b\<in>set as. unat (t_sleep (ts b))" arbitrary: ts a rule: less_induct)
  case less
  show ?case
  proof (cases "t_sleep (ts a) = 0")
    case True
    then show ?thesis using less.prems by (auto simp: next_ready_unfold only_dozed_def intro: exI [of _ "t_sleep (ts _)"])
  next
    case False
    have "(\<Sum>b\<in>set as. unat (t_sleep (doze a ts b))) < (\<Sum>b\<in>set as. unat (t_sleep (ts b)))"
    proof (rule sum_strict_mono_ex1)
      have "unat (t_sleep (ts a) - 1) < unat (t_sleep (ts a))" using False by (simp add: unat_minus_one unat_gt_0)
      then show "\<forall>b\<in>set as. unat (t_sleep (doze a ts b)) \<le> unat (t_sleep (ts b))"
        "\<exists>b\<in>set as. unat (t_sleep (doze a ts b)) < unat (t_sleep (ts b))"
        using less.prems(2) by auto
    qed simp
    from less.hyps [OF this] obtain ts' r where
      "next_ready (doze a ts) queue (after ts queue a) = Some (ts', r)" "r \<in> set as" "t_sleep (ts' r) = 0"
      "only_dozed (doze a ts) ts'"
      using less.prems after_in_queue [OF less.prems] by (simp, blast)
    then show ?thesis using False only_dozed_doze by (auto simp: next_ready_unfold [of ts])
  qed
qed

text \<open>\<open>visits ts queue a bs\<close>: from \<open>a\<close> the scheduler looks at the tasks \<open>bs\<close> in this order.\<close>

fun visits :: "(u32 \<Rightarrow> task_t) \<Rightarrow> u32 \<Rightarrow> u32 \<Rightarrow> u32 list \<Rightarrow> bool" where
  "visits ts queue a [] \<longleftrightarrow> True"
| "visits ts queue a (b # bs) \<longleftrightarrow> a = b \<and> visits ts queue (after ts queue b) bs"

lemma visits_doze [simp]: "visits (doze c ts) queue a bs = visits ts queue a bs"
  by (induction bs arbitrary: a) auto

lemma visits_chain:
  assumes "chain (\<lambda>a. t_next (ts a)) p bs" "visits ts queue queue cs"
  shows "visits ts queue (if bs = [] then queue else p) (bs @ cs)"
  using assms(1)
proof (induction bs arbitrary: p)
  case Nil
  then show ?case using assms(2) by simp
next
  case (Cons b bs)
  have "after ts queue b = (if bs = [] then queue else t_next (ts b))"
    using Cons.prems by (cases bs) (auto simp: after_def)
  then show ?case using Cons by auto
qed

lemma visits_prefix: "visits ts queue a (bs @ cs) \<Longrightarrow> visits ts queue a bs"
  by (induction bs arbitrary: a) auto

lemma chain_visits: "chain (\<lambda>a. t_next (ts a)) queue as \<Longrightarrow> visits ts queue queue as"
proof -
  assume "chain (\<lambda>a. t_next (ts a)) queue as"
  then have "visits ts queue (if as = [] then queue else queue) (as @ [])" by (rule visits_chain) simp
  then show ?thesis by simp
qed

text \<open>In round-robin order from the successor of \<open>c\<close>: first the tasks behind \<open>c\<close>, then from the front.\<close>

lemma visits_rotation:
  assumes "chain (\<lambda>a. t_next (ts a)) queue (us @ c # vs)"
  shows "visits ts queue (after ts queue c) (vs @ us @ [c])"
proof -
  have "chain (\<lambda>a. t_next (ts a)) c (c # vs)" using chain_suffix [OF assms] by simp
  then have v: "chain (\<lambda>a. t_next (ts a)) (t_next (ts c)) vs" by simp
  have "visits ts queue queue (us @ [c])"
    using chain_visits [OF assms] visits_prefix [of ts queue queue "us @ [c]" vs] by simp
  from visits_chain [OF v this] show ?thesis using v by (cases vs) (auto simp: after_def)
qed

lemma next_ready_first:
  assumes "visits ts queue a (xs @ [r])" "\<forall>x\<in>set xs. t_sleep (ts x) \<noteq> 0" "distinct xs" "t_sleep (ts r) = 0"
  shows "next_ready ts queue a = Some (\<lambda>b. if b \<in> set xs then (ts b)\<lparr>t_sleep := t_sleep (ts b) - 1\<rparr> else ts b, r)"
  using assms
proof (induction xs arbitrary: ts a)
  case Nil
  then show ?case by (simp add: next_ready_unfold)
next
  case (Cons x xs)
  have "x \<noteq> r" using Cons.prems by auto
  have "next_ready (doze x ts) queue (after ts queue x) =
      Some (\<lambda>b. if b \<in> set xs then (doze x ts b)\<lparr>t_sleep := t_sleep (doze x ts b) - 1\<rparr> else doze x ts b, r)"
    by (rule Cons.IH) (use Cons.prems \<open>x \<noteq> r\<close> in auto)
  moreover have "(\<lambda>b. if b \<in> set xs then (doze x ts b)\<lparr>t_sleep := t_sleep (doze x ts b) - 1\<rparr> else doze x ts b) =
      (\<lambda>b. if b \<in> set (x # xs) then (ts b)\<lparr>t_sleep := t_sleep (ts b) - 1\<rparr> else ts b)"
    using Cons.prems(3) by (auto simp: doze_def fun_eq_iff)
  ultimately show ?case using Cons.prems by (simp add: next_ready_unfold [of ts])
qed

section \<open>The switch\<close>

definition save_regs :: "u32 \<times> u32 \<times> u32 \<Rightarrow> sched \<Rightarrow> sched" where
  "save_regs regs s = upd_task (current_task s)
     (\<lambda>t. t\<lparr>t_eip := fst regs, t_esp := fst (snd regs), t_ebp := snd (snd regs)\<rparr>) s"

lemma save_regs_frame [simp]:
  "t_next (tasks (save_regs regs s) a) = t_next (tasks s a)" "t_sleep (tasks (save_regs regs s) a) = t_sleep (tasks s a)"
  "t_id (tasks (save_regs regs s) a) = t_id (tasks s a)"
  "t_msg_buf (tasks (save_regs regs s) a) = t_msg_buf (tasks s a)"
  "t_msg_count (tasks (save_regs regs s) a) = t_msg_count (tasks s a)" "task_queue (save_regs regs s) = task_queue s"
  "current_task (save_regs regs s) = current_task s" "next_pid (save_regs regs s) = next_pid s"
  by (simp_all add: save_regs_def)

lemma switch_task_alt:
  "current_task s \<noteq> 0 \<Longrightarrow> switch_task regs s =
    map_option (\<lambda>(ts, temp). enter_task temp ((save_regs regs s)\<lparr>tasks := ts\<rparr>))
      (next_ready (tasks (save_regs regs s)) (task_queue s) (after (tasks s) (task_queue s) (current_task s)))"
  by (simp add: switch_task_def save_regs_def after_def Let_def split: prod.split)

lemma enter_task_frame [simp]:
  "current_task (fst (enter_task a s)) = a" "task_queue (fst (enter_task a s)) = task_queue s"
  "t_next (tasks (fst (enter_task a s)) b) = t_next (tasks s b)"
  "t_id (tasks (fst (enter_task a s)) b) = t_id (tasks s b)"
  "t_sleep (tasks (fst (enter_task a s)) b) = t_sleep (tasks s b)"
  "t_msg_buf (tasks (fst (enter_task a s)) b) = t_msg_buf (tasks s b)"
  "t_msg_count (tasks (fst (enter_task a s)) b) = t_msg_count (tasks s b)"
  "next_pid (fst (enter_task a s)) = next_pid s" "last_task (fst (enter_task a s)) = a"
  "t_status (tasks (fst (enter_task a s)) a) = S_RUNNING"
  by (simp_all add: enter_task_def Let_def)

lemma switch_task_steps:
  assumes "wf_queue s as"
  obtains s' r where "switch_task regs s = Some (s', r)" "wf_queue s' as" "r \<noteq> Returned"
    "t_sleep (tasks s' (current_task s')) = 0" "t_status (tasks s' (current_task s')) = S_RUNNING"
    "\<And>a. t_sleep (tasks s' a) \<le> t_sleep (tasks s a)" "\<And>a. t_msg_buf (tasks s' a) = t_msg_buf (tasks s a)"
    "\<And>a. t_msg_count (tasks s' a) = t_msg_count (tasks s a)" "\<And>a. t_id (tasks s' a) = t_id (tasks s a)"
proof -
  note q = wf_queueD [OF assms]
  let ?s = "save_regs regs s"
  have c: "chain (links ?s) (task_queue s) as" using q(1) by simp
  have "after (tasks s) (task_queue s) (current_task s) \<in> set as" using after_in_queue [OF q(1,3)] .
  from next_ready_total [OF c this] obtain ts r where n:
    "next_ready (tasks ?s) (task_queue s) (after (tasks s) (task_queue s) (current_task s)) = Some (ts, r)"
    "r \<in> set as" "t_sleep (ts r) = 0" "only_dozed (tasks ?s) ts" by blast
  have d: "\<exists>n \<le> t_sleep (tasks s b). ts b = (tasks ?s b)\<lparr>t_sleep := n\<rparr>" for b
    using n(4) unfolding only_dozed_def by simp
  have ts: "t_next (ts b) = links s b" "t_id (ts b) = t_id (tasks s b)" "t_sleep (ts b) \<le> t_sleep (tasks s b)"
    "t_msg_buf (ts b) = t_msg_buf (tasks s b)" "t_msg_count (ts b) = t_msg_count (tasks s b)" for b
    using d [of b] by auto
  let ?e = "enter_task r (?s\<lparr>tasks := ts\<rparr>)"
  have "switch_task regs s = Some ?e" using q n(1) by (subst switch_task_alt) auto
  moreover have "wf_queue (fst ?e) as" using assms n(2) by (simp add: wf_queue_def ts)
  moreover have "snd ?e \<noteq> Returned" by (simp add: enter_task_def Let_def)
  moreover have "t_sleep (tasks (fst ?e) (current_task (fst ?e))) = 0" using n(3) by simp
  ultimately show thesis using that [of "fst ?e" "snd ?e"] by (simp add: ts)
qed

text \<open>
  C3. The scheduler always finds a task: on a well-formed queue a switch returns however the tasks sleep,
  the task it enters is in the queue, does not sleep and is marked running, the queue with its process
  numbers is unchanged, and no task sleeps longer than before.
\<close>

theorem switch_task_total:
  assumes "wf_queue s as"
  shows "\<exists>s' r. switch_task regs s = Some (s', r) \<and> wf_queue s' as \<and> r \<noteq> Returned \<and>
    t_sleep (tasks s' (current_task s')) = 0 \<and> t_status (tasks s' (current_task s')) = S_RUNNING \<and>
    (\<forall>a. t_sleep (tasks s' a) \<le> t_sleep (tasks s a))"
  by (rule switch_task_steps [OF assms]) blast

lemma switch_task_first:
  assumes "wf_queue s (us @ c # vs)" "current_task s = c" "vs @ us @ [c] = xs @ r # ys"
    and "\<forall>x\<in>set xs. t_sleep (tasks s x) \<noteq> 0" "t_sleep (tasks s r) = 0"
  shows "switch_task regs s = Some (enter_task r ((save_regs regs s)\<lparr>tasks := \<lambda>b. if b \<in> set xs
    then (tasks (save_regs regs s) b)\<lparr>t_sleep := t_sleep (tasks s b) - 1\<rparr> else tasks (save_regs regs s) b\<rparr>))"
proof -
  note q = wf_queueD [OF assms(1)]
  let ?s = "save_regs regs s"
  have c: "chain (\<lambda>a. t_next (tasks ?s a)) (task_queue s) (us @ c # vs)" using q(1) by simp
  have "visits (tasks ?s) (task_queue s) (after (tasks ?s) (task_queue s) c) ((xs @ [r]) @ ys)"
    using visits_rotation [OF c] assms(3) by simp
  then have v: "visits (tasks ?s) (task_queue s) (after (tasks s) (task_queue s) c) (xs @ [r])"
    using visits_prefix by (fastforce simp: after_def)
  have "distinct (vs @ us @ [c])" using q(6) by auto
  then have "distinct xs" by (simp only: assms(3)) simp
  let ?ts = "\<lambda>b. if b \<in> set xs then (tasks ?s b)\<lparr>t_sleep := t_sleep (tasks ?s b) - 1\<rparr> else tasks ?s b"
  have "next_ready (tasks ?s) (task_queue s) (after (tasks s) (task_queue s) c) = Some (?ts, r)"
    by (rule next_ready_first [OF v]) (use assms(4,5) \<open>distinct xs\<close> in auto)
  then show ?thesis using q assms(2) by (subst switch_task_alt) (auto cong: if_cong)
qed

text \<open>
  C21. The scheduler is round robin: with the queue \<open>us @ c # vs\<close> and \<open>c\<close> running, the candidates are \<open>vs\<close>, then
  \<open>us\<close>, then \<open>c\<close> itself; the first one that does not sleep is entered, and each one passed over has its sleep
  count reduced by exactly one while every other count stays.
\<close>

theorem switch_task_round_robin:
  assumes "wf_queue s (us @ c # vs)" "current_task s = c" "vs @ us @ [c] = xs @ r # ys"
    and "\<forall>x\<in>set xs. t_sleep (tasks s x) \<noteq> 0" "t_sleep (tasks s r) = 0"
  shows "\<exists>s' w. switch_task regs s = Some (s', w) \<and> current_task s' = r \<and>
    (\<forall>a. t_sleep (tasks s' a) = t_sleep (tasks s a) - (if a \<in> set xs then 1 else 0))"
  unfolding switch_task_first [OF assms] by (simp add: prod_eq_iff)

theorem switch_task_total_witness:
  "\<exists>s' r. switch_task (1, 2, 3) demo_sched = Some (s', r) \<and> t_sleep (tasks s' (current_task s')) = 0"
  using switch_task_total [OF demo_sched_wf, of "(1, 2, 3)"] by blast

theorem switch_task_round_robin_witness:
  "\<exists>s' w. switch_task (1, 2, 3) demo_sched = Some (s', w) \<and> current_task s' = 0x30 \<and> t_sleep (tasks s' 0x20) = 4"
proof -
  have "wf_queue demo_sched ([] @ 0x10 # [0x20, 0x30])" using demo_sched_wf by simp
  moreover have d: "current_task demo_sched = 0x10" "t_sleep (tasks demo_sched 0x20) = 5" "t_sleep (tasks demo_sched 0x30) = 0"
    by (simp_all add: demo_sched_def zero_task_def)
  ultimately show ?thesis
    using switch_task_round_robin [of demo_sched "[]" "0x10" "[0x20, 0x30]" "[0x20]" "0x30" "[0x10]" "(1, 2, 3)"]
    by (auto simp: d)
qed

end
