(* ===== verification/Ipc.thy ===== *)
theory Ipc
  imports Scheduler
begin

text \<open>
  Messages between processes, \<open>kern/kern/ipc/ipc.c\<close>. A message is copied into a block from \<open>kmalloc\<close>, which is
  an argument here, and linked behind the messages of the receiver; messages live in a store by address.

  The mailboxes are first-in first-out queues as long as senders pass messages whose \<open>next\<close> is 0; \<open>send_msg\<close>
  copies that field too, and \<open>stray_next\<close> shows what a nonzero one does. The senders of the repository leave it as it is
  in a local variable.
\<close>

section \<open>Definitions\<close>

record ipc_msg_t =
  msg_type :: u32
  sender :: u32
  seq :: u32
  msg_next :: u32
  msg_data :: "u8 list"

type_synonym msgs = "u32 \<Rightarrow> ipc_msg_t"

definition msg_lookup_table :: "string list" where
  "msg_lookup_table = [''nullstatus'', ''acknowledge'', ''no block'', ''block'', ''string'', ''exit'', ''end'']"

abbreviation (input) MSG_END :: u32 where "MSG_END \<equiv> 7"

text \<open>\<open>MSG_NULL\<close> to \<open>MSG_END\<close> in the order of the enumeration.\<close>

definition msg_kinds :: "string list" where
  "msg_kinds = [''MSG_NULL'', ''MSG_STATUS'', ''MSG_ACK'', ''MSG_NO_BLOCK'', ''MSG_BLOCK'', ''MSG_STRING'', ''MSG_EXIT'', ''MSG_END'']"

definition msg_lookup :: "u32 \<Rightarrow> string exec" where
  "msg_lookup index =
    (if index < MSG_END
     then if unat index < length msg_lookup_table then Inr (msg_lookup_table ! unat index) else Inl Out_Of_Bounds
     else Inr ''unknown'')"

partial_function (option) msg_tail :: "msgs \<Rightarrow> u32 \<Rightarrow> u32 option" where
  "msg_tail m ptr = (if msg_next (m ptr) \<noteq> 0 then msg_tail m (msg_next (m ptr)) else Some ptr)"

definition send_msg :: "u32 \<Rightarrow> ipc_msg_t \<Rightarrow> u32 \<Rightarrow> sched \<times> msgs \<Rightarrow> ((sched \<times> msgs) \<times> int) option" where
  "send_msg pid buf msg sm =
    (let (s, m) = sm in
     case get_pid_task pid s of None \<Rightarrow> None
     | Some temp \<Rightarrow>
         if temp = 0 then Some ((s, m), 1)
         else let ptr = t_msg_buf (tasks s temp); m1 = m(msg := buf);
                  count = upd_task temp (\<lambda>t. t\<lparr>t_msg_count := t_msg_count t + 1\<rparr>)
              in if ptr = 0
                 then Some ((count (upd_task temp (\<lambda>t. t\<lparr>t_msg_buf := msg\<rparr>) s), m1), 0)
                 else case msg_tail m1 ptr of None \<Rightarrow> None
                   | Some p \<Rightarrow> Some ((count s, m1(p := (m1 p)\<lparr>msg_next := msg\<rparr>)), 0))"

text \<open>
  \<open>get_msg\<close> reads \<open>msg_buf\<close> with interrupts on, before the loop turns them off: other tasks can run in between. The
  first part gives what was read, \<open>get_msg_from\<close> is the rest, with \<open>temp\<close> the task that is running again. The result of the rest: the state,
  the copied message if there was one with the block that goes back to the heap by \<open>kfree\<close>, where the processor
  went if there was none, and the value returned. The loop condition \<open>blocking && !ret\<close> is false after the first round in either case: with a
  message the loop is left by \<open>break\<close>, without one \<open>ret\<close> is 1. The \<open>PANIC\<close> comes after \<open>cli\<close>, so its \<open>hlt\<close> is not left.
\<close>

definition read_msg_buf :: "sched \<Rightarrow> u32" where
  "read_msg_buf s = t_msg_buf (tasks s (current_task s))"

definition get_msg_from :: "u32 \<Rightarrow> u32 \<Rightarrow> u32 \<times> u32 \<times> u32 \<Rightarrow> sched \<times> msgs \<Rightarrow>
    ((sched \<times> msgs) \<times> (ipc_msg_t \<times> u32) option \<times> resume \<times> int) run" where
  "get_msg_from msg blocking regs sm =
    (let (s, m) = sm; temp = current_task s in
     if t_msg_count (tasks s temp) \<noteq> 0 then
       (if msg = 0 then Some (Inl (PANIC ''Caught null pointer in get_msg()''))
        else done_with ((upd_task temp (\<lambda>t. t\<lparr>t_msg_count := t_msg_count t - 1, t_msg_buf := msg_next (m msg)\<rparr>) s, m),
               Some (m msg, t_msg_buf (tasks s temp)), Returned, 0))
     else case switch_task regs (upd_task temp (\<lambda>t. t\<lparr>t_status := S_LISTENING\<rparr>) s) of None \<Rightarrow> None
       | Some (s1, r) \<Rightarrow> done_with ((s1, m), None, r, 1))"

definition get_msg :: "u32 \<Rightarrow> u32 \<times> u32 \<times> u32 \<Rightarrow> sched \<times> msgs \<Rightarrow>
    ((sched \<times> msgs) \<times> (ipc_msg_t \<times> u32) option \<times> resume \<times> int) run" where
  "get_msg blocking regs sm = get_msg_from (read_msg_buf (fst sm)) blocking regs sm"

section \<open>Mailboxes\<close>

lemma msg_tail_chain:
  "chain (\<lambda>a. msg_next (m a)) p as \<Longrightarrow> as \<noteq> [] \<Longrightarrow> msg_tail m p = Some (last as)"
proof (induction as arbitrary: p)
  case (Cons a as)
  then show ?case by (subst msg_tail.simps) (cases as; auto)
qed simp

text \<open>
  \<open>mail_ok s m as boxes\<close>: the messages waiting for each task \<open>p\<close> of the queue are those at \<open>boxes p\<close>, counted in the
  task, and no message waits for two tasks.
\<close>

definition mail_ok :: "sched \<Rightarrow> msgs \<Rightarrow> u32 list \<Rightarrow> (u32 \<Rightarrow> u32 list) \<Rightarrow> bool" where
  "mail_ok s m as boxes \<longleftrightarrow> wf_queue s as \<and>
    (\<forall>p. if p \<in> set as then chain (\<lambda>a. msg_next (m a)) (t_msg_buf (tasks s p)) (boxes p) \<and>
            unat (t_msg_count (tasks s p)) = length (boxes p) else boxes p = []) \<and>
    (\<forall>p q. p \<noteq> q \<longrightarrow> set (boxes p) \<inter> set (boxes q) = {})"

definition letters_of :: "msgs \<Rightarrow> (u32 \<Rightarrow> u32 list) \<Rightarrow> u32 \<Rightarrow> ipc_msg_t list" where
  "letters_of m boxes p = map (\<lambda>b. (m b)\<lparr>msg_next := 0\<rparr>) (boxes p)"

lemma mail_okD:
  assumes "mail_ok s m as boxes" "p \<in> set as"
  shows "chain (\<lambda>a. msg_next (m a)) (t_msg_buf (tasks s p)) (boxes p)"
    "unat (t_msg_count (tasks s p)) = length (boxes p)"
  using assms by (auto simp: mail_ok_def)

lemma mail_ok_wf: "mail_ok s m as boxes \<Longrightarrow> wf_queue s as"
  by (simp add: mail_ok_def)

text \<open>What a send does, whatever \<open>next\<close> the sender passes.\<close>

lemma send_msg_links:
  assumes ok: "mail_ok s m as boxes" and p: "p \<in> set as" "pid = t_id (tasks s p)"
    and new: "a \<noteq> 0" "\<And>q. a \<notin> set (boxes q)"
    and room: "length (boxes p) < 2 ^ 32 - 1"
  obtains s' m' where "send_msg pid buf a (s, m) = Some ((s', m'), 0)"
    "wf_queue s' as" "current_task s' = current_task s"
    "\<And>b. (m' b)\<lparr>msg_next := 0\<rparr> = (if b = a then buf else m b)\<lparr>msg_next := 0\<rparr>" "msg_next (m' a) = msg_next buf"
    "\<And>q. t_id (tasks s' q) = t_id (tasks s q)"
    "leads (\<lambda>b. msg_next (m' b)) (t_msg_buf (tasks s' p)) (boxes p @ [a])"
    "\<And>q. q \<noteq> p \<Longrightarrow> q \<in> set as \<Longrightarrow> chain (\<lambda>b. msg_next (m' b)) (t_msg_buf (tasks s' q)) (boxes q)"
    "\<And>q. q \<in> set as \<Longrightarrow> unat (t_msg_count (tasks s' q)) = length ((boxes(p := boxes p @ [a])) q)"
proof -
  note wf = mail_ok_wf [OF ok]
  have p0: "p \<noteq> 0" using wf_queueD(7) [OF wf] p(1) by auto
  have g: "get_pid_task pid s = Some p" using get_pid_task_iff [OF wf p0] p by simp
  note c = mail_okD [OF ok p(1)]
  let ?bs = "boxes p" and ?ptr = "t_msg_buf (tasks s p)"
  let ?m' = "\<lambda>b. if b = a then buf else if ?bs \<noteq> [] \<and> b = last ?bs then (m b)\<lparr>msg_next := a\<rparr> else m b"
  have an: "a \<notin> set ?bs" using new(2) by blast
  have m1: "chain (\<lambda>b. msg_next ((m(a := buf)) b)) ?ptr ?bs"
    by (rule chain_cong [THEN iffD1, OF _ c(1)]) (use an in auto)
  obtain s' where s': "send_msg pid buf a (s, m) = Some ((s', ?m'), 0)"
    and box: "\<And>q. t_msg_buf (tasks s' q) = (if q = p \<and> ?bs = [] then a else t_msg_buf (tasks s q))"
    and count: "\<And>q. t_msg_count (tasks s' q) = (if q = p then t_msg_count (tasks s q) + 1 else t_msg_count (tasks s q))"
    and wf': "wf_queue s' as" and cur: "current_task s' = current_task s"
    and ids: "\<And>q. t_id (tasks s' q) = t_id (tasks s q)"
  proof (cases "?bs = []")
    case True
    then have "?ptr = 0" using c(1) by simp
    then show thesis
      using that [of "upd_task p (\<lambda>t. t\<lparr>t_msg_count := t_msg_count t + 1\<rparr>) (upd_task p (\<lambda>t. t\<lparr>t_msg_buf := a\<rparr>) s)"]
        g p0 True wf_queue_cong [OF wf]
      by (simp add: send_msg_def fun_upd_def cong: if_cong)
  next
    case False
    then have "?ptr \<noteq> 0" using c(1) by (cases ?bs) auto
    moreover have "msg_tail (m(a := buf)) ?ptr = Some (last ?bs)" by (rule msg_tail_chain [OF m1 False])
    moreover have "last ?bs \<noteq> a" using False an by auto
    ultimately have "send_msg pid buf a (s, m) =
        Some ((upd_task p (\<lambda>t. t\<lparr>t_msg_count := t_msg_count t + 1\<rparr>) s, ?m'), 0)"
      using g p0 False by (simp add: send_msg_def) (auto simp: fun_eq_iff)
    then show thesis using that False wf_queue_cong [OF wf] by simp
  qed
  have tail: "last ?bs \<notin> set (boxes q)" if "q \<noteq> p" "?bs \<noteq> []" for q
    using ok that last_in_set [of ?bs] unfolding mail_ok_def by (metis disjoint_iff)
  let ?nx = "\<lambda>b. if b = a then 0 else msg_next (?m' b)"
  have "chain ?nx (t_msg_buf (tasks s' p)) (?bs @ [a])"
  proof (cases "?bs = []")
    case False
    have d: "distinct ?bs" by (rule chain_distinct [OF c(1)])
    have b: "x \<noteq> last ?bs" if "x \<in> set (butlast ?bs)" for x
      using d that False by (metis append_butlast_last_id distinct_append disjoint_insert(1) list.simps(15))
    have "last ?bs \<noteq> a" using False an by auto
    then have "chain ?nx ?ptr (?bs @ [a])"
      using False b an by (intro chain_append [OF c(1) False new(1) an]) (auto dest: in_set_butlastD)
    with False box show ?thesis by presburger
  qed (use new box in simp)
  then have led: "leads (\<lambda>b. msg_next (?m' b)) (t_msg_buf (tasks s' p)) (?bs @ [a])"
    by (rule chain_leads) (use an in auto)
  have others: "chain (\<lambda>b. msg_next (?m' b)) (t_msg_buf (tasks s' q)) (boxes q)" if "q \<noteq> p" "q \<in> set as" for q
    unfolding box using that mail_okD(1) [OF ok that(2)]
    by (simp only: simp_thms if_False) (rule chain_cong [THEN iffD1], use tail new(2) in auto)
  have "unat (t_msg_count (tasks s p) + 1) = length ?bs + 1"
    using c(2) room unat_add_lem [of "t_msg_count (tasks s p)" 1, THEN iffD1] by simp
  then have counts: "unat (t_msg_count (tasks s' q)) = length ((boxes(p := ?bs @ [a])) q)" if "q \<in> set as" for q
    using count mail_okD(2) [OF ok that] by auto
  show thesis by (rule that [OF s' wf' cur _ _ ids led others counts]) simp_all
qed

lemma send_msg_append:
  assumes ok: "mail_ok s m as boxes" and p: "p \<in> set as" "pid = t_id (tasks s p)"
    and new: "a \<noteq> 0" "\<And>q. a \<notin> set (boxes q)" and nx: "msg_next buf = 0"
    and room: "length (boxes p) < 2 ^ 32 - 1"
  obtains s' m' where "send_msg pid buf a (s, m) = Some ((s', m'), 0)"
    "mail_ok s' m' as (boxes(p := boxes p @ [a]))" "current_task s' = current_task s"
    "\<And>b. (m' b)\<lparr>msg_next := 0\<rparr> = (if b = a then buf else (m b)\<lparr>msg_next := 0\<rparr>)"
    "\<And>q. t_id (tasks s' q) = t_id (tasks s q)"
proof -
  obtain s' m' where s': "send_msg pid buf a (s, m) = Some ((s', m'), 0)" "wf_queue s' as" "current_task s' = current_task s"
    "\<And>b. (m' b)\<lparr>msg_next := 0\<rparr> = (if b = a then buf else m b)\<lparr>msg_next := 0\<rparr>" "msg_next (m' a) = msg_next buf"
    "\<And>q. t_id (tasks s' q) = t_id (tasks s q)" "leads (\<lambda>b. msg_next (m' b)) (t_msg_buf (tasks s' p)) (boxes p @ [a])"
    "\<And>q. q \<noteq> p \<Longrightarrow> q \<in> set as \<Longrightarrow> chain (\<lambda>b. msg_next (m' b)) (t_msg_buf (tasks s' q)) (boxes q)"
    "\<And>q. q \<in> set as \<Longrightarrow> unat (t_msg_count (tasks s' q)) = length ((boxes(p := boxes p @ [a])) q)"
    by (rule send_msg_links [OF ok p new room, where buf = buf]) blast
  have "chain (\<lambda>b. msg_next (m' b)) (t_msg_buf (tasks s' p)) (boxes p @ [a])"
    using leads_chain [OF s'(7)] s'(5) nx by simp
  then have "mail_ok s' m' as (boxes(p := boxes p @ [a]))"
    using ok s'(2,8,9) p(1) new(2) unfolding mail_ok_def by auto
  moreover have "(m' b)\<lparr>msg_next := 0\<rparr> = (if b = a then buf else (m b)\<lparr>msg_next := 0\<rparr>)" for b
    using s'(4) [of b] nx by (cases "b = a") auto
  ultimately show thesis using that s'(1,3,6) by blast
qed

lemma get_msg_from_pops:
  assumes ok: "mail_ok s m as boxes" and box: "boxes (current_task s) = a # rest"
  obtains s' where "get_msg_from a blocking regs (s, m) = done_with ((s', m), Some (m a, a), Returned, 0)"
    "mail_ok s' m as (boxes(current_task s := rest))" "current_task s' = current_task s"
proof -
  let ?c = "current_task s"
  note wf = mail_ok_wf [OF ok]
  have c: "?c \<in> set as" by (rule wf_queueD(3) [OF wf])
  note d = mail_okD [OF ok c, unfolded box]
  have n: "unat (t_msg_count (tasks s ?c)) = Suc (length rest)" using d(2) by simp
  then have n0: "t_msg_count (tasks s ?c) \<noteq> 0" by auto
  have nm: "unat (t_msg_count (tasks s ?c) - 1) = length rest" using n n0 by (simp add: unat_minus_one)
  let ?s' = "upd_task ?c (\<lambda>t. t\<lparr>t_msg_count := t_msg_count t - 1, t_msg_buf := msg_next (m a)\<rparr>) s"
  have "get_msg_from a blocking regs (s, m) = done_with ((?s', m), Some (m a, a), Returned, 0)"
    using d n0 by (simp add: get_msg_from_def)
  moreover have "wf_queue ?s' as" by (rule wf_queue_cong [OF wf]) auto
  then have "mail_ok ?s' m as (boxes(?c := rest))"
    using ok c d nm box unfolding mail_ok_def by (auto; fastforce)
  ultimately show thesis using that by simp
qed

lemma read_msg_buf_box:
  assumes "mail_ok s m as boxes"
  shows "read_msg_buf s = (case boxes (current_task s) of [] \<Rightarrow> 0 | a # rest \<Rightarrow> a)"
  using mail_okD(1) [OF assms wf_queueD(3) [OF mail_ok_wf [OF assms]]]
  by (cases "boxes (current_task s)") (simp_all add: read_msg_buf_def)

lemma get_msg_pops:
  assumes ok: "mail_ok s m as boxes" and box: "boxes (current_task s) = a # rest"
  obtains s' where "get_msg blocking regs (s, m) = done_with ((s', m), Some (m a, a), Returned, 0)"
    "mail_ok s' m as (boxes(current_task s := rest))" "current_task s' = current_task s"
  using get_msg_from_pops [OF ok box, of blocking regs] read_msg_buf_box [OF ok] box by (auto simp: get_msg_def)

lemma mail_ok_cong:
  assumes "mail_ok s m as boxes" "wf_queue s' as" "\<And>a. t_msg_buf (tasks s' a) = t_msg_buf (tasks s a)"
    "\<And>a. t_msg_count (tasks s' a) = t_msg_count (tasks s a)"
  shows "mail_ok s' m as boxes"
  using assms unfolding mail_ok_def by metis

lemma mail_ok_switch:
  assumes "mail_ok s m as boxes"
  obtains s' r where "switch_task regs s = Some (s', r)" "mail_ok s' m as boxes" "r \<noteq> Returned"
  using switch_task_steps [OF mail_ok_wf [OF assms], of regs] mail_ok_cong [OF assms] by metis

lemma get_msg_from_waits:
  assumes ok: "mail_ok s m as boxes" and box: "boxes (current_task s) = []"
  obtains s' r where "get_msg_from msg blocking regs (s, m) = done_with ((s', m), None, r, 1)" "mail_ok s' m as boxes" "r \<noteq> Returned"
proof -
  let ?c = "current_task s"
  let ?s = "upd_task ?c (\<lambda>t. t\<lparr>t_status := S_LISTENING\<rparr>) s"
  have "wf_queue ?s as" by (rule wf_queue_cong [OF mail_ok_wf [OF ok]]) auto
  then have "mail_ok ?s m as boxes" by (rule mail_ok_cong [OF ok]) auto
  then obtain s' r where "switch_task regs ?s = Some (s', r)" "mail_ok s' m as boxes" "r \<noteq> Returned"
    by (rule mail_ok_switch)
  moreover have "t_msg_count (tasks s ?c) = 0"
    using mail_okD(2) [OF ok wf_queueD(3) [OF mail_ok_wf [OF ok]]] box by (simp add: unsigned_eq_0_iff)
  ultimately show thesis using that by (simp add: get_msg_from_def)
qed

lemma get_msg_waits:
  assumes ok: "mail_ok s m as boxes" and box: "boxes (current_task s) = []"
  obtains s' r where "get_msg blocking regs (s, m) = done_with ((s', m), None, r, 1)" "mail_ok s' m as boxes" "r \<noteq> Returned"
  by (rule get_msg_from_waits [OF ok box, of "read_msg_buf s" blocking regs]) (auto simp: get_msg_def intro: that)

text \<open>
  The race: when the box was empty as \<open>msg_buf\<close> was read and a message has come before the interrupts go off, the call
  panics although a message waits.
\<close>

lemma get_msg_race:
  assumes "mail_ok s m as boxes" "boxes (current_task s) \<noteq> []"
  shows "get_msg_from 0 blocking regs (s, m) = Some (Inl (PANIC ''Caught null pointer in get_msg()''))"
proof -
  have "unat (t_msg_count (tasks s (current_task s))) \<noteq> 0"
    using assms mail_okD(2) [OF assms(1) wf_queueD(3) [OF mail_ok_wf [OF assms(1)]]] by simp
  then have "t_msg_count (tasks s (current_task s)) \<noteq> 0" by auto
  then show ?thesis by (simp add: get_msg_from_def)
qed

text \<open>
  A message sent to an empty box with a nonzero \<open>next\<close> leaves, once it has been taken, a box whose count is 0 and whose
  first message is at that address.
\<close>

lemma stray_next:
  assumes "mail_ok s m as boxes" "p = current_task s" "boxes p = []" "a \<noteq> 0" "\<And>q. a \<notin> set (boxes q)"
  shows "\<exists>x y. send_msg (t_id (tasks s p)) buf a (s, m) = Some (x, 0) \<and>
    get_msg blocking regs x = done_with (y, Some (buf, a), Returned, 0) \<and>
    t_msg_count (tasks (fst y) p) = 0 \<and> t_msg_buf (tasks (fst y) p) = msg_next buf"
proof -
  note wf = mail_ok_wf [OF assms(1)]
  have p: "p \<in> set as" "p \<noteq> 0" using wf_queueD(3,7) [OF wf] assms(2) by auto
  have g: "get_pid_task (t_id (tasks s p)) s = Some p" using get_pid_task_iff [OF wf p(2)] p(1) by simp
  have "t_msg_buf (tasks s p) = 0" "unat (t_msg_count (tasks s p)) = 0" using mail_okD [OF assms(1) p(1)] assms(3) by simp_all
  then have "t_msg_buf (tasks s p) = 0" "t_msg_count (tasks s p) = 0" by (simp_all add: unat_eq_0)
  note empty = this
  let ?s1 = "upd_task p (\<lambda>t. t\<lparr>t_msg_count := t_msg_count t + 1\<rparr>) (upd_task p (\<lambda>t. t\<lparr>t_msg_buf := a\<rparr>) s)" and ?m1 = "m(a := buf)"
  let ?s2 = "upd_task p (\<lambda>t. t\<lparr>t_msg_count := t_msg_count t - 1, t_msg_buf := msg_next buf\<rparr>) ?s1"
  have "send_msg (t_id (tasks s p)) buf a (s, m) = Some ((?s1, ?m1), 0)" using g p(2) empty by (simp add: send_msg_def)
  moreover have "get_msg blocking regs (?s1, ?m1) = done_with ((?s2, ?m1), Some (buf, a), Returned, 0)"
    using assms(2,4) empty by (simp add: get_msg_def get_msg_from_def read_msg_buf_def Let_def)
  moreover have "t_msg_count (tasks ?s2 p) = 0" "t_msg_buf (tasks ?s2 p) = msg_next buf" using empty by simp_all
  ultimately show ?thesis by (intro exI [of _ "(?s1, ?m1)"] exI [of _ "(?s2, ?m1)"]) (simp only: fst_conv simp_thms)
qed

lemma mail_ok_unique: "mail_ok s m as boxes \<Longrightarrow> mail_ok s m bs boxes' \<Longrightarrow> as = bs \<and> boxes = boxes'"
proof -
  assume a: "mail_ok s m as boxes" "mail_ok s m bs boxes'"
  have e: "as = bs" by (rule wf_queue_unique [OF mail_ok_wf [OF a(1)] mail_ok_wf [OF a(2)]])
  have "boxes p = boxes' p" for p
    using a chain_unique [of "\<lambda>a. msg_next (m a)" "t_msg_buf (tasks s p)" "boxes p" "boxes' p"] unfolding e mail_ok_def
    by (cases "p \<in> set bs") auto
  with e show ?thesis by auto
qed

section \<open>Delivery\<close>

text \<open>The interface of a post office: what a letter put into a box and one taken out do to the boxes.\<close>

locale post_office =
  fixes holds :: "'s \<Rightarrow> ('k \<Rightarrow> 'm list) \<Rightarrow> bool" and put :: "'k \<Rightarrow> 'm \<Rightarrow> 's \<Rightarrow> 's \<Rightarrow> bool"
    and take_out :: "'k \<Rightarrow> 'm \<Rightarrow> 's \<Rightarrow> 's \<Rightarrow> bool" and idle :: "'s \<Rightarrow> 's \<Rightarrow> bool"
  assumes put: "holds x q \<Longrightarrow> put k l x y \<Longrightarrow> holds y (q(k := q k @ [l]))"
    and take_out: "holds x q \<Longrightarrow> take_out k l x y \<Longrightarrow> \<exists>r. q k = l # r \<and> holds y (q(k := r))"
    and idle: "holds x q \<Longrightarrow> idle x y \<Longrightarrow> holds y q"
begin

definition accounted :: "('k \<times> 'm) list \<Rightarrow> ('k \<times> 'm) list \<Rightarrow> 's \<Rightarrow> bool" where
  "accounted sent got x \<longleftrightarrow> (\<exists>q. holds x q \<and> (\<forall>k. filter (\<lambda>e. fst e = k) sent = filter (\<lambda>e. fst e = k) got @ map (Pair k) (q k)))"

lemma accounted_start: "holds x (\<lambda>_. []) \<Longrightarrow> accounted [] [] x"
  unfolding accounted_def by (intro exI [of _ "\<lambda>_. []"]) simp

lemma accounted_put: "accounted sent got x \<Longrightarrow> put k l x y \<Longrightarrow> accounted (sent @ [(k, l)]) got y"
proof -
  assume a: "accounted sent got x" "put k l x y"
  then obtain q where "holds x q" "\<And>j. filter (\<lambda>e. fst e = j) sent = filter (\<lambda>e. fst e = j) got @ map (Pair j) (q j)"
    unfolding accounted_def by blast
  with put [OF _ a(2)] show ?thesis
    unfolding accounted_def by (intro exI [of _ "q(k := q k @ [l])"]) auto
qed

lemma accounted_take: "accounted sent got x \<Longrightarrow> take_out k l x y \<Longrightarrow> accounted sent (got @ [(k, l)]) y"
proof -
  assume a: "accounted sent got x" "take_out k l x y"
  then obtain q where q: "holds x q" "\<And>j. filter (\<lambda>e. fst e = j) sent = filter (\<lambda>e. fst e = j) got @ map (Pair j) (q j)"
    unfolding accounted_def by blast
  from take_out [OF q(1) a(2)] obtain r where "q k = l # r" "holds y (q(k := r))" by blast
  with q(2) show ?thesis unfolding accounted_def by (intro exI [of _ "q(k := r)"]) auto
qed

lemma accounted_idle: "accounted sent got x \<Longrightarrow> idle x y \<Longrightarrow> accounted sent got y"
  unfolding accounted_def using idle by blast

end

text \<open>
  The state of the message system: the tasks, the messages, and for each task that is inside \<open>get_msg\<close>, before the
  interrupts are off, what it has read as \<open>msg_buf\<close>. That is 0 or the first of the messages waiting for it.
\<close>

type_synonym post = "(sched \<times> msgs) \<times> (u32 \<Rightarrow> u32 option)"

definition mail_holds :: "post \<Rightarrow> (u32 \<Rightarrow> ipc_msg_t list) \<Rightarrow> bool" where
  "mail_holds x q \<longleftrightarrow> (\<exists>as boxes. mail_ok (fst (fst x)) (snd (fst x)) as boxes \<and> q = letters_of (snd (fst x)) boxes \<and>
     (\<forall>p b. snd x p = Some b \<longrightarrow> b = 0 \<or> (\<exists>rest. boxes p = b # rest)))"

definition mail_room :: "u32 \<Rightarrow> u32 \<Rightarrow> sched \<times> msgs \<Rightarrow> bool" where
  "mail_room p a x \<longleftrightarrow> a \<noteq> 0 \<and> (\<forall>as boxes. mail_ok (fst x) (snd x) as boxes \<longrightarrow>
     p \<in> set as \<and> (\<forall>q. a \<notin> set (boxes q)) \<and> length (boxes p) < 2 ^ 32 - 1)"

text \<open>
  The steps: a send, with interrupts off throughout, of a message whose \<open>next\<close> is 0; the end of a receive that gets a message;
  and the steps that move no message, which are the begin of a receive, its end without a message, and a switch.
\<close>

definition mail_put :: "u32 \<Rightarrow> ipc_msg_t \<Rightarrow> post \<Rightarrow> post \<Rightarrow> bool" where
  "mail_put p l x y \<longleftrightarrow> msg_next l = 0 \<and> snd y = snd x \<and>
     (\<exists>a. mail_room p a (fst x) \<and> send_msg (t_id (tasks (fst (fst x)) p)) l a (fst x) = Some (fst y, 0))"

definition mail_take :: "u32 \<Rightarrow> ipc_msg_t \<Rightarrow> post \<Rightarrow> post \<Rightarrow> bool" where
  "mail_take p l x y \<longleftrightarrow> p = current_task (fst (fst x)) \<and> snd y = (snd x)(p := None) \<and>
    (\<exists>msg blocking regs buf a r. snd x p = Some msg \<and>
      get_msg_from msg blocking regs (fst x) = done_with (fst y, Some (buf, a), r, 0) \<and> l = buf\<lparr>msg_next := 0\<rparr>)"

definition mail_idle :: "post \<Rightarrow> post \<Rightarrow> bool" where
  "mail_idle x y \<longleftrightarrow> (let c = current_task (fst (fst x)) in
    (snd x c = None \<and> fst y = fst x \<and> snd y = (snd x)(c := Some (read_msg_buf (fst (fst x))))) \<or>
    (\<exists>msg blocking regs r. snd x c = Some msg \<and> get_msg_from msg blocking regs (fst x) = done_with (fst y, None, r, 1) \<and>
       snd y = (snd x)(c := None)) \<or>
    (\<exists>regs r. switch_task regs (fst (fst x)) = Some (fst (fst y), r) \<and> snd (fst y) = snd (fst x) \<and> snd y = snd x))"

lemma letters_of_upd:
  "(\<And>b. (m' b)\<lparr>msg_next := 0\<rparr> = (if b = a then l else (m b)\<lparr>msg_next := 0\<rparr>)) \<Longrightarrow> (\<And>q. a \<notin> set (boxes q)) \<Longrightarrow>
    letters_of m' (boxes(p := boxes p @ [a])) = (letters_of m boxes)(p := letters_of m boxes p @ [l])"
  by (auto simp: letters_of_def fun_eq_iff)

lemma get_msg_from_none:
  assumes "mail_ok s m as boxes" "get_msg_from msg blocking regs (s, m) = done_with (y, None, r, 1)"
  shows "mail_ok (fst y) m as boxes \<and> snd y = m"
proof (cases "boxes (current_task s)")
  case Nil
  then show ?thesis using get_msg_from_waits [OF assms(1), of msg blocking regs] assms(2) by fastforce
next
  case (Cons a rest)
  then have "unat (t_msg_count (tasks s (current_task s))) = Suc (length rest)"
    using mail_okD(2) [OF assms(1) wf_queueD(3) [OF mail_ok_wf [OF assms(1)]]] by simp
  then have "t_msg_count (tasks s (current_task s)) \<noteq> 0" by auto
  then show ?thesis using assms(2) by (simp add: get_msg_from_def done_with_def Let_def split: if_splits)
qed

lemma get_msg_from_some:
  assumes "mail_ok s m as boxes" "get_msg_from msg blocking regs (s, m) = done_with (y, Some (buf, b), r, 0)"
    and "msg = 0 \<or> (\<exists>rest. boxes (current_task s) = msg # rest)"
  obtains rest where "boxes (current_task s) = msg # rest" "mail_ok (fst y) m as (boxes(current_task s := rest))" "snd y = m"
    "buf = m msg"
proof (cases "boxes (current_task s)")
  case Nil
  then show ?thesis using get_msg_from_waits [OF assms(1), of msg blocking regs] assms(2) by fastforce
next
  case (Cons a rest)
  then have "msg = a" using assms get_msg_race [OF assms(1), of blocking regs] by (auto simp: done_with_def)
  then show ?thesis using get_msg_from_pops [OF assms(1) Cons, of blocking regs] assms(2) Cons that by fastforce
qed

interpretation mailboxes: post_office mail_holds mail_put mail_take mail_idle
proof
  fix x y :: post and q and p :: u32 and l
  assume "mail_holds x q" "mail_put p l x y"
  then obtain as boxes a where ok: "mail_ok (fst (fst x)) (snd (fst x)) as boxes" "q = letters_of (snd (fst x)) boxes"
    and rd: "\<And>p b. snd x p = Some b \<Longrightarrow> b = 0 \<or> (\<exists>rest. boxes p = b # rest)" "snd y = snd x"
    and l: "msg_next l = 0" "mail_room p a (fst x)" "send_msg (t_id (tasks (fst (fst x)) p)) l a (fst x) = Some (fst y, 0)"
    by (auto simp: mail_holds_def mail_put_def)
  then have r: "p \<in> set as" "a \<noteq> 0" "\<And>q. a \<notin> set (boxes q)" "length (boxes p) < 2 ^ 32 - 1"
    by (auto simp: mail_room_def)
  let ?boxes = "boxes(p := boxes p @ [a])"
  obtain s' m' where "send_msg (t_id (tasks (fst (fst x)) p)) l a (fst (fst x), snd (fst x)) = Some ((s', m'), 0)"
    "mail_ok s' m' as ?boxes" "\<And>b. (m' b)\<lparr>msg_next := 0\<rparr> = (if b = a then l else (snd (fst x) b)\<lparr>msg_next := 0\<rparr>)"
    by (rule send_msg_append [OF ok(1) r(1) refl r(2,3) l(1) r(4)]) blast
  moreover have "b = 0 \<or> (\<exists>rest. ?boxes k = b # rest)" if "snd x k = Some b" for k b using rd(1) [OF that] by auto
  ultimately show "mail_holds y (q(p := q p @ [l]))"
    using l(3) letters_of_upd [of m' a l "snd (fst x)" boxes p] r(3) ok(2) rd(2)
    unfolding mail_holds_def by (intro exI [of _ as] exI [of _ ?boxes]) simp
next
  fix x y :: post and q and p :: u32 and l
  assume "mail_holds x q" "mail_take p l x y"
  then obtain as boxes msg blocking regs buf b r where ok: "mail_ok (fst (fst x)) (snd (fst x)) as boxes" "q = letters_of (snd (fst x)) boxes"
    and rd: "\<And>p b. snd x p = Some b \<Longrightarrow> b = 0 \<or> (\<exists>rest. boxes p = b # rest)"
    and p: "p = current_task (fst (fst x))" "snd y = (snd x)(p := None)" "snd x p = Some msg"
    and l: "get_msg_from msg blocking regs (fst (fst x), snd (fst x)) = done_with (fst y, Some (buf, b), r, 0)" "l = buf\<lparr>msg_next := 0\<rparr>"
    by (auto simp: mail_holds_def mail_take_def)
  obtain rest where t: "boxes p = msg # rest" "mail_ok (fst (fst y)) (snd (fst x)) as (boxes(p := rest))" "snd (fst y) = snd (fst x)"
    "buf = snd (fst x) msg" using get_msg_from_some [OF ok(1) l(1)] rd [OF p(3)] p(1) by metis
  let ?q = "letters_of (snd (fst x)) (boxes(p := rest))"
  have "?q = q(p := ?q p)" by (auto simp: ok(2) letters_of_def fun_eq_iff)
  moreover have "mail_holds y ?q"
    unfolding mail_holds_def using t(2,3) rd p(2) by (intro exI [of _ as] exI [of _ "boxes(p := rest)"]) auto
  ultimately show "\<exists>r. q p = l # r \<and> mail_holds y (q(p := r))"
    using t(1,4) l(2) ok(2) by (intro exI [of _ "?q p"]) (simp add: letters_of_def)
next
  fix x y :: post and q
  assume "mail_holds x q" "mail_idle x y"
  then obtain as boxes where ok: "mail_ok (fst (fst x)) (snd (fst x)) as boxes" "q = letters_of (snd (fst x)) boxes"
    and rd: "\<And>p b. snd x p = Some b \<Longrightarrow> b = 0 \<or> (\<exists>rest. boxes p = b # rest)"
    by (auto simp: mail_holds_def)
  let ?c = "current_task (fst (fst x))"
  consider (begins) "fst y = fst x" "snd y = (snd x)(?c := Some (read_msg_buf (fst (fst x))))"
    | (ends) msg blocking regs r where "get_msg_from msg blocking regs (fst (fst x), snd (fst x)) = done_with (fst y, None, r, 1)"
        "snd y = (snd x)(?c := None)"
    | (switch) regs r where "switch_task regs (fst (fst x)) = Some (fst (fst y), r)" "snd (fst y) = snd (fst x)" "snd y = snd x"
    using \<open>mail_idle x y\<close> by (auto simp: mail_idle_def Let_def)
  then have "mail_ok (fst (fst y)) (snd (fst y)) as boxes \<and> snd (fst y) = snd (fst x) \<and>
    (\<forall>p b. snd y p = Some b \<longrightarrow> b = 0 \<or> (\<exists>rest. boxes p = b # rest))"
  proof cases
    case begins
    then show ?thesis using ok(1) rd read_msg_buf_box [OF ok(1)] by (auto split: list.splits)
  next
    case ends
    then show ?thesis using get_msg_from_none [OF ok(1) ends(1)] rd by auto
  next
    case switch
    then show ?thesis using mail_ok_switch [OF ok(1), where regs = regs] rd by fastforce
  qed
  with ok(2) show "mail_holds y q" unfolding mail_holds_def by (intro exI [of _ as] exI [of _ boxes]) metis
qed

text \<open>Runs of the message system, with the letters sent and the letters received, each with its receiver.\<close>

inductive mail_run :: "post \<Rightarrow> (u32 \<times> ipc_msg_t) list \<Rightarrow> (u32 \<times> ipc_msg_t) list \<Rightarrow> post \<Rightarrow> bool"
  for x0 where
  start: "mail_run x0 [] [] x0"
| send: "mail_run x0 sent got x \<Longrightarrow> mail_put p l x y \<Longrightarrow> mail_run x0 (sent @ [(p, l)]) got y"
| receive: "mail_run x0 sent got x \<Longrightarrow> mail_take p l x y \<Longrightarrow> mail_run x0 sent (got @ [(p, l)]) y"
| other: "mail_run x0 sent got x \<Longrightarrow> mail_idle x y \<Longrightarrow> mail_run x0 sent got y"

lemma mail_run_accounted:
  assumes "mail_run x0 sent got x" "mail_holds x0 (\<lambda>_. [])"
  shows "mailboxes.accounted sent got x"
  using assms by induction (auto intro: mailboxes.accounted_start mailboxes.accounted_put mailboxes.accounted_take mailboxes.accounted_idle)

text \<open>
  C5. Messages sent with \<open>next\<close> 0 are neither lost, duplicated, reordered nor misdelivered: in every run of such sends, of
  receives, which other tasks can interrupt after the read of \<open>msg_buf\<close>, and of switches that starts with empty mailboxes,
  what a task has received is exactly the first part of what has been sent to it, in the order of sending, and the rest
  waits for it. That \<open>next\<close> is 0 is not what the senders of the repository see to: they leave it as it is in a local
  variable, and \<open>stray_next\<close> shows what another value does. A run stops at the \<open>PANIC\<close> of \<open>get_msg_race\<close>.
\<close>

theorem ipc_delivers_in_order:
  assumes "mail_run x0 sent got x" "mail_holds x0 (\<lambda>_. [])"
  shows "\<exists>q. mail_holds x q \<and> (\<forall>p. filter (\<lambda>e. fst e = p) sent = filter (\<lambda>e. fst e = p) got @ map (Pair p) (q p))"
  using mail_run_accounted [OF assms] by (simp add: mailboxes.accounted_def)

text \<open>
  \<open>get_msg\<close> never waits for a message, blocking or not: with an empty mailbox it gives the processor away
  once and, when it is resumed, reports 1 with nothing copied.
\<close>

theorem get_msg_never_blocks:
  assumes "mail_ok s m as boxes" "boxes (current_task s) = []"
  shows "\<exists>s' r. get_msg blocking regs (s, m) = done_with ((s', m), None, r, 1) \<and> mail_ok s' m as boxes \<and> r \<noteq> Returned"
  by (rule get_msg_waits [OF assms]) blast

text \<open>
  The labels of the message types are shifted by one: every type from \<open>MSG_STATUS\<close> up to \<open>MSG_EXIT\<close> gets the
  label of its successor, because two of the table's labels have been joined into one; every other number is
  labelled without leaving the table.
\<close>

theorem msg_lookup_shifted:
  "\<exists>label. msg_lookup index = Inr label \<and>
    (if index < MSG_END then label = msg_lookup_table ! unat index else label = ''unknown'') \<and>
    map (\<lambda>n. msg_lookup (of_nat n)) [0..<7] =
      map Inr [''nullstatus'', ''acknowledge'', ''no block'', ''block'', ''string'', ''exit'', ''end''] \<and>
    map (\<lambda>n. msg_kinds ! n) [0..<7] =
      [''MSG_NULL'', ''MSG_STATUS'', ''MSG_ACK'', ''MSG_NO_BLOCK'', ''MSG_BLOCK'', ''MSG_STRING'', ''MSG_EXIT'']"
proof -
  have "unat index < 7" if "index < 7" using that by (simp add: word_less_nat_alt)
  then show ?thesis by (auto simp: msg_lookup_def msg_lookup_table_def msg_kinds_def upt_rec)
qed

section \<open>A concrete mailbox\<close>

definition demo_msg :: "u32 \<Rightarrow> ipc_msg_t" where
  "demo_msg n = \<lparr>msg_type = 5, sender = 1, seq = n, msg_next = 0, msg_data = []\<rparr>"

lemma demo_mail_ok: "mail_ok demo_sched (\<lambda>_. demo_msg 0) [0x10, 0x20, 0x30] (\<lambda>_. [])"
  using demo_sched_wf by (simp add: mail_ok_def) (simp add: demo_sched_def zero_task_def)

lemma demo_mail_holds: "mail_holds ((demo_sched, \<lambda>_. demo_msg 0), \<lambda>_. None) (\<lambda>_. [])"
  unfolding mail_holds_def
  by (intro exI [of _ "[0x10, 0x20, 0x30]"] exI [of _ "\<lambda>_. []"]) (use demo_mail_ok in \<open>simp add: letters_of_def fun_eq_iff\<close>)

text \<open>The first task sends itself a message.\<close>

lemma demo_mail_put: "\<exists>y. mail_put 0x10 (demo_msg 1) ((demo_sched, \<lambda>_. demo_msg 0), \<lambda>_. None) y \<and> current_task (fst (fst y)) = 0x10"
proof -
  have "mail_room 0x10 0x500 (demo_sched, \<lambda>_. demo_msg 0)"
    using mail_ok_unique [OF demo_mail_ok] unfolding mail_room_def by fastforce
  moreover have c: "current_task demo_sched = 0x10" by (simp add: demo_sched_def)
  have "\<exists>s' m'. send_msg (t_id (tasks demo_sched 0x10)) (demo_msg 1) 0x500 (demo_sched, \<lambda>_. demo_msg 0) = Some ((s', m'), 0) \<and>
      current_task s' = 0x10"
    by (rule send_msg_append [OF demo_mail_ok, of "0x10" _ "0x500" "demo_msg 1"]) (use c in \<open>auto simp: demo_msg_def\<close>)
  ultimately show ?thesis unfolding mail_put_def by (auto simp: demo_msg_def)
qed

text \<open>It then begins to receive.\<close>

theorem ipc_delivers_in_order_witness:
  "\<exists>y q. snd y 0x10 \<noteq> None \<and> mail_holds y q \<and> q 0x10 = [demo_msg 1]"
proof -
  let ?x = "((demo_sched, \<lambda>_. demo_msg 0), \<lambda>_. None)"
  obtain x where x: "mail_put 0x10 (demo_msg 1) ?x x" "current_task (fst (fst x)) = 0x10" using demo_mail_put by blast
  let ?y = "(fst x, (snd x)(0x10 := Some (read_msg_buf (fst (fst x)))))"
  have "snd x 0x10 = None" using x(1) by (simp add: mail_put_def)
  then have "mail_idle x ?y" using x(2) by (simp add: mail_idle_def Let_def)
  then have "mail_run ?x ([] @ [(0x10, demo_msg 1)]) [] ?y"
    by (rule mail_run.other [OF mail_run.send [OF mail_run.start x(1)]])
  from ipc_delivers_in_order [OF this demo_mail_holds] obtain q where "mail_holds ?y q"
    "\<forall>p. filter (\<lambda>e. fst e = p) ([] @ [(0x10, demo_msg 1)]) = [] @ map (Pair p) (q p)" by auto
  from this(1) this(2) [rule_format, of "0x10"] have "snd ?y 0x10 \<noteq> None \<and> mail_holds ?y q \<and> q 0x10 = [demo_msg 1]" by auto
  then show ?thesis by blast
qed

theorem get_msg_never_blocks_witness:
  "\<exists>s' r. get_msg 1 (1, 2, 3) (demo_sched, \<lambda>_. demo_msg 0) = done_with ((s', \<lambda>_. demo_msg 0), None, r, 1)"
  using get_msg_never_blocks [OF demo_mail_ok, of 1 "(1, 2, 3)"] by blast

end
