(* ===== verification/Blocks.thy ===== *)
theory Blocks
  imports Bytes
begin

text \<open>
  Blocks of memory by offset: every address is a base plus an offset below \<open>2 ^ 32\<close>, and a routine that writes inside a
  window of offsets leaves the rest of memory as it was. The lemmas say which words and strings survive such writes and
  how far each routine writes.
\<close>

lemma unat_of_nat_diff_32:
  assumes "d < 2 ^ 32" "e < 2 ^ 32"
  shows "unat (of_nat d - of_nat e :: u32) = (if e \<le> d then d - e else 2 ^ 32 + d - e)"
proof (cases "e \<le> d")
  case True
  then have "(of_nat d - of_nat e :: u32) = of_nat (d - e)" by simp
  moreover have "unat (of_nat (d - e) :: u32) = d - e" using assms by simp
  ultimately show ?thesis using True by presburger
next
  case False
  have "(of_nat d - of_nat e :: u32) = of_nat (2 ^ 32 + d) - of_nat e" by simp
  also have "\<dots> = of_nat (2 ^ 32 + d - e)" using assms by (subst of_nat_diff) auto
  finally have "(of_nat d - of_nat e :: u32) = of_nat (2 ^ 32 + d - e)" .
  moreover have "unat (of_nat (2 ^ 32 + d - e) :: u32) = 2 ^ 32 + d - e"
    by (rule unat_of_nat_lt32) (use assms False in simp)
  ultimately show ?thesis using False by presburger
qed

lemma base_offset: "(b :: u32) + of_nat (unat (a - b)) = a"
  by simp

lemma offset_eq_iff: "d < 2 ^ 32 \<Longrightarrow> e < 2 ^ 32 \<Longrightarrow> (b :: u32) + of_nat d = b + of_nat e \<longleftrightarrow> d = e"
  using of_nat_u32_inj [of d e] by simp

section \<open>What is kept\<close>

definition kept :: "mem \<Rightarrow> mem \<Rightarrow> u32 \<Rightarrow> nat \<Rightarrow> nat \<Rightarrow> bool" where
  "kept m m' b lo hi \<longleftrightarrow> (\<forall>d < 2 ^ 32. d < lo \<or> hi \<le> d \<longrightarrow> m' (b + of_nat d) = m (b + of_nat d))"

lemma kept_refl [simp]: "kept m m b lo hi"
  by (simp add: kept_def)

lemma kept_trans: "kept m m1 b lo hi \<Longrightarrow> kept m1 m2 b lo hi \<Longrightarrow> kept m m2 b lo hi"
  by (simp add: kept_def)

lemma kept_mono: "kept m m' b lo hi \<Longrightarrow> lo' \<le> lo \<Longrightarrow> hi \<le> hi' \<Longrightarrow> kept m m' b lo' hi'"
  by (auto simp: kept_def)

lemma kept_byte: "kept m m' b lo hi \<Longrightarrow> d < 2 ^ 32 \<Longrightarrow> d < lo \<or> hi \<le> d \<Longrightarrow> m' (b + of_nat d) = m (b + of_nat d)"
  by (auto simp: kept_def)

definition same_on :: "mem \<Rightarrow> mem \<Rightarrow> u32 \<Rightarrow> nat \<Rightarrow> nat \<Rightarrow> bool" where
  "same_on m m' b lo hi \<longleftrightarrow> (\<forall>d. lo \<le> d \<and> d < hi \<longrightarrow> m' (b + of_nat d) = m (b + of_nat d))"

lemma same_onD: "same_on m m' b lo hi \<Longrightarrow> lo \<le> d \<Longrightarrow> d < hi \<Longrightarrow> m' (b + of_nat d) = m (b + of_nat d)"
  by (simp add: same_on_def)

lemma same_on_trans: "same_on m m1 b lo hi \<Longrightarrow> same_on m1 m2 b lo hi \<Longrightarrow> same_on m m2 b lo hi"
  by (simp add: same_on_def)

lemma same_on_mono: "same_on m m' b lo hi \<Longrightarrow> lo \<le> lo' \<Longrightarrow> hi' \<le> hi \<Longrightarrow> same_on m m' b lo' hi'"
  by (simp add: same_on_def)

lemma kept_same_on: "kept m m' b lo hi \<Longrightarrow> hi' \<le> lo \<or> hi \<le> lo' \<Longrightarrow> hi' \<le> 2 ^ 32 \<Longrightarrow> same_on m m' b lo' hi'"
  by (auto simp: kept_def same_on_def)

lemma same_on_load32:
  assumes "same_on m m' b lo hi" "lo \<le> d" "d + 4 \<le> hi"
  shows "load32 m' (b + of_nat d) = load32 m (b + of_nat d)"
proof -
  have "m' (b + of_nat (d + k)) = m (b + of_nat (d + k))" if "k < 4" for k
    by (rule same_onD [OF assms(1)]) (use assms(2,3) that in auto)
  from this [of 0] this [of 1] this [of 2] this [of 3] show ?thesis
    by (simp add: load32_def ac_simps)
qed

lemma cstr_cong:
  assumes "cstr m p s" "\<And>k. k \<le> length s \<Longrightarrow> m' (p + of_nat k) = m (p + of_nat k)"
  shows "cstr m' p s"
  using assms by (simp add: cstr_iff)

lemma same_on_cstr:
  assumes "same_on m m' b lo hi" "cstr m (b + of_nat d) s" "lo \<le> d" "d + length s < hi"
  shows "cstr m' (b + of_nat d) s"
proof (rule cstr_cong [OF assms(2)])
  fix k assume "k \<le> length s"
  then have "m' (b + of_nat (d + k)) = m (b + of_nat (d + k))" by (intro same_onD [OF assms(1)]) (use assms(3,4) in auto)
  then show "m' (b + of_nat d + of_nat k) = m (b + of_nat d + of_nat k)" by (simp add: add.assoc)
qed

lemma kept_load32:
  assumes "kept m m' b lo hi" "d + 4 \<le> 2 ^ 32" "d + 4 \<le> lo \<or> hi \<le> d"
  shows "load32 m' (b + of_nat d) = load32 m (b + of_nat d)"
  by (rule same_on_load32 [OF kept_same_on [OF assms(1,3,2)]]) simp_all

lemma kept_cstr:
  assumes "kept m m' b lo hi" "cstr m (b + of_nat d) s" "d + length s < 2 ^ 32" "d + length s < lo \<or> hi \<le> d"
  shows "cstr m' (b + of_nat d) s"
  by (rule same_on_cstr [OF kept_same_on [OF assms(1), of "Suc (d + length s)" d] assms(2)]) (use assms(3,4) in auto)

text \<open>Writes to several places.\<close>

definition changed :: "mem \<Rightarrow> mem \<Rightarrow> u32 \<Rightarrow> nat set \<Rightarrow> bool" where
  "changed m m' b X \<longleftrightarrow> (\<forall>d < 2 ^ 32. d \<notin> X \<longrightarrow> m' (b + of_nat d) = m (b + of_nat d))"

lemma changed_refl [simp]: "changed m m b X"
  by (simp add: changed_def)

lemma kept_changed: "kept m m' b lo hi \<Longrightarrow> changed m m' b {lo..<hi}"
  by (auto simp: kept_def changed_def)

lemma changed_trans: "changed m m1 b X \<Longrightarrow> changed m1 m2 b Y \<Longrightarrow> X \<union> Y \<subseteq> Z \<Longrightarrow> changed m m2 b Z"
  unfolding changed_def by (metis UnCI subsetD)

lemma changed_trans3:
  "changed m m1 b X \<Longrightarrow> changed m1 m2 b Y \<Longrightarrow> changed m2 m3 b Z \<Longrightarrow> X \<union> Y \<union> Z \<subseteq> V \<Longrightarrow> changed m m3 b V"
  by (rule changed_trans [OF changed_trans [OF _ _ subset_refl]]) auto

lemma changed_same_on: "changed m m' b X \<Longrightarrow> X \<inter> {lo..<hi} = {} \<Longrightarrow> hi \<le> 2 ^ 32 \<Longrightarrow> same_on m m' b lo hi"
  unfolding changed_def same_on_def by (metis IntI atLeastLessThan_iff emptyE less_le_trans)

lemma kept_upd: "d < 2 ^ 32 \<Longrightarrow> kept m (m(b + of_nat d := v)) b d (Suc d)"
  by (auto simp: kept_def of_nat_u32_inj)

section \<open>What is written\<close>

lemma kept_store32: "d + 4 \<le> 2 ^ 32 \<Longrightarrow> kept m (store32 m (b + of_nat d) v) b d (d + 4)"
proof -
  assume a: "d + 4 \<le> 2 ^ 32"
  have "store32 m (b + of_nat d) v (b + of_nat e) = m (b + of_nat e)" if "e < 2 ^ 32" "e < d \<or> d + 4 \<le> e" for e
    using that a unat_of_nat_diff_32 [of e d] by (intro store32_other) auto
  then show ?thesis by (simp add: kept_def)
qed

lemma memcpy_loop_other: "n \<le> unat (a - d) \<Longrightarrow> memcpy_loop m d s n a = m a"
proof (induction n arbitrary: m d s)
  case (Suc n)
  then have "a \<noteq> d" by auto
  moreover from this have "unat (a - d) = Suc (unat (a - (d + 1)))" by (rule unat_minus_one_add)
  ultimately show ?case using Suc by simp
qed simp

lemma kept_memcpy: "d + unat n \<le> 2 ^ 32 \<Longrightarrow> kept m (memcpy m (b + of_nat d) s n) b d (d + unat n)"
proof -
  assume a: "d + unat n \<le> 2 ^ 32"
  have "memcpy m (b + of_nat d) s n (b + of_nat e) = m (b + of_nat e)" if "e < 2 ^ 32" "e < d \<or> d + unat n \<le> e" for e
  proof (cases "unat n = 0")
    case False
    then have "unat n \<le> unat (b + of_nat e - (b + of_nat d))" using that a unat_of_nat_diff_32 [of e d] by auto
    then show ?thesis by (simp only: memcpy_def memcpy_loop_other)
  qed (simp add: memcpy_def)
  then show ?thesis by (simp add: kept_def)
qed

lemma kept_memset: "d + unat n \<le> 2 ^ 32 \<Longrightarrow> kept m (memset m (b + of_nat d) v n) b d (d + unat n)"
proof -
  assume a: "d + unat n \<le> 2 ^ 32"
  have "memset m (b + of_nat d) v n (b + of_nat e) = m (b + of_nat e)" if "e < 2 ^ 32" "e < d \<or> d + unat n \<le> e" for e
  proof (cases "unat n = 0")
    case False
    then have "\<not> unat (b + of_nat e - (b + of_nat d)) < unat n" using that a unat_of_nat_diff_32 [of e d] by auto
    then show ?thesis by (simp add: memset_apply)
  qed (simp add: memset_apply)
  then show ?thesis by (simp add: kept_def)
qed

text \<open>Copying a string that lies behind the window leaves the string at the destination.\<close>

lemma memcpy_cstr:
  assumes "cstr m (b + of_nat q) s" "d < q" "q + length s < 2 ^ 32"
  shows "cstr (memcpy m (b + of_nat d) (b + of_nat q) (of_nat (length s) + 1)) (b + of_nat d) s"
proof -
  have n: "unat (of_nat (length s) + 1 :: u32) = length s + 1" using unat_of_nat_lt32 [of "length s + 1"] assms(2,3) by (simp add: add.commute)
  have "length s + 1 \<le> unat (b + of_nat d - (b + of_nat q))" using assms(2,3) unat_of_nat_diff_32 [of d q] by simp
  note copy = memcpy_apply [OF disjI2, of "of_nat (length s) + 1" "b + of_nat d" "b + of_nat q" m, unfolded n, OF this]
  have "memcpy m (b + of_nat d) (b + of_nat q) (of_nat (length s) + 1) (b + of_nat d + of_nat k) = m (b + of_nat q + of_nat k)"
    if "k \<le> length s" for k
  proof -
    have "unat (b + of_nat d + of_nat k - (b + of_nat d)) = k" using that assms(2,3) by simp
    then show ?thesis using that by (simp add: copy)
  qed
  then show ?thesis using assms(1) by (simp add: cstr_iff)
qed

end
