(* ===== verification/Process.thy ===== *)
theory Process
  imports Scheduler Blocks
begin

text \<open>
  Creating a process, \<open>create_process\<close> of \<open>kern/kern/task/task.c\<close>: a task with an address range of its own and a stack
  on which the arguments are laid out for the entry point. The state is the task state with the byte memory that holds
  the stack and the strings. The blocks for the task, its stack, its descriptor table and its address range come from
  \<open>kmalloc\<close> and are arguments.
\<close>

section \<open>Operations\<close>

text \<open>\<open>for ( argc = 0; argv[argc]; argc++ )\<close>\<close>

partial_function (option) count_args :: "mem \<Rightarrow> u32 \<Rightarrow> u32 \<Rightarrow> u32 option" where
  "count_args m argv argc = (if load32 m (argv + 4 * argc) \<noteq> 0 then count_args m argv (argc + 1) else Some argc)"

text \<open>The loop that copies the strings below the new table; the rounds left, the memory and the stack pointer.\<close>

fun copy_args :: "u32 \<Rightarrow> u32 \<Rightarrow> u32 \<Rightarrow> nat \<Rightarrow> mem \<Rightarrow> u32 \<Rightarrow> (mem \<times> u32) option" where
  "copy_args argv new_argv i 0 m stack = Some (m, stack)"
| "copy_args argv new_argv i (Suc n) m stack =
    (case strlen m (load32 m (argv + 4 * i)) of None \<Rightarrow> None
     | Some l \<Rightarrow>
         let stack1 = stack - (l + 1);
             m1 = store32 m (new_argv + 4 * i) stack1
         in case strlen m1 (load32 m1 (argv + 4 * i)) of None \<Rightarrow> None
            | Some l1 \<Rightarrow>
                copy_args argv new_argv (i + 1) n
                  (memcpy m1 (load32 m1 (new_argv + 4 * i)) (load32 m1 (argv + 4 * i)) (l1 + 1)) stack1)"

text \<open>\<open>PUSH( stack, data )\<close>\<close>

definition push_word :: "u32 \<Rightarrow> mem \<times> u32 \<Rightarrow> mem \<times> u32" where
  "push_word data ms = (let (m, stack) = ms; stack1 = stack - 4 in (store32 m stack1 data, stack1))"

text \<open>
  The memory and the stack after the arguments are laid out below \<open>stack\<close>, with the address of the new table. The table
  is given \<open>4 * argc + 1\<close> bytes.
\<close>

definition push_args :: "u32 \<Rightarrow> u32 \<Rightarrow> u32 \<Rightarrow> mem \<Rightarrow> (mem \<times> u32 \<times> u32) option" where
  "push_args argv envp stack m =
    (case (if argv \<noteq> 0 then count_args m argv 0 else Some 0) of None \<Rightarrow> None
     | Some argc \<Rightarrow>
         let new_argv = stack - (4 * argc + 1)
         in case copy_args argv new_argv 0 (unat argc) m new_argv of None \<Rightarrow> None
            | Some (m1, stack1) \<Rightarrow>
                let m2 = store32 m1 (new_argv + 4 * argc) 0;
                    (m3, stack3) = push_word argc (push_word new_argv (push_word envp (m2, stack1)))
                in Some (m3, stack3, new_argv))"

definition create_process ::
    "u32 \<Rightarrow> u32 \<Rightarrow> u32 \<Rightarrow> u32 \<Rightarrow> u32 \<Rightarrow> u32 \<Rightarrow> u32 \<Rightarrow> u32 \<Rightarrow> u32 \<Rightarrow> sched \<times> mem \<Rightarrow> (sched \<times> mem) option" where
  "create_process new_task stk files map_blk function argv envp start_addr end_addr sm =
    (let (s, m) = sm;
         s1 = init_task new_task stk files (upd_task new_task (\<lambda>_. zero_task) s);
         m1 = memset m (t_stack (tasks s1 new_task) - KERNEL_STACK_SIZE) 0 KERNEL_STACK_SIZE;
         s2 = s1\<lparr>maps := memmap_create map_blk start_addr end_addr (MEM_READ OR MEM_EXEC OR MEM_USER) 1 (maps s1)\<rparr>;
         s3 = upd_task new_task (\<lambda>t. t\<lparr>t_eip := function, t_maps := map_blk, t_brk := end_addr\<rparr>) s2
     in case push_args argv envp (t_stack (tasks s3 new_task)) m1 of None \<Rightarrow> None
        | Some (m2, stack, new_argv) \<Rightarrow>
            let s4 = upd_task new_task (\<lambda>t. t\<lparr>t_argv := new_argv, t_envp := 0, t_stack := stack, t_esp := stack, t_tid := 0\<rparr>) s3
            in case add_task new_task s4 of None \<Rightarrow> None
               | Some s5 \<Rightarrow> Some (upd_task (current_task s) (\<lambda>t. t\<lparr>t_child_count := t_child_count t + 1\<rparr>) s5, m2))"

section \<open>The stack of a new process\<close>

text \<open>
  \<open>arg_table m argv ps\<close>: the table at \<open>argv\<close> holds the pointers \<open>ps\<close> and ends with a null pointer.
\<close>

definition arg_table :: "mem \<Rightarrow> u32 \<Rightarrow> u32 list \<Rightarrow> bool" where
  "arg_table m argv ps \<longleftrightarrow> (\<forall>i<length ps. load32 m (argv + 4 * of_nat i) = ps ! i \<and> ps ! i \<noteq> 0) \<and>
     load32 m (argv + 4 * of_nat (length ps)) = 0"

lemma count_args_table:
  "arg_table m argv ps \<Longrightarrow> i + k = length ps \<Longrightarrow> count_args m argv (of_nat i) = Some (of_nat (length ps))"
proof (induction k arbitrary: i)
  case 0
  then show ?case by (subst count_args.simps) (simp add: arg_table_def)
next
  case (Suc k)
  have "count_args m argv (of_nat (Suc i)) = Some (of_nat (length ps))" by (rule Suc.IH) (use Suc.prems in auto)
  then show ?case using Suc.prems by (subst count_args.simps) (simp add: arg_table_def add.commute)
qed

text \<open>
  Strings and tables that lie wholly outside the window of the new stack, \<open>w\<close> bytes from \<open>b\<close> on.
\<close>

definition beyond :: "u32 \<Rightarrow> nat \<Rightarrow> u32 \<Rightarrow> nat \<Rightarrow> bool" where
  "beyond b w a n \<longleftrightarrow> w \<le> unat (a - b) \<and> unat (a - b) + n < 2 ^ 32"

lemma kept_arg_table:
  assumes "kept m m' b 0 w" "beyond b w argv (4 * length ps + 4)" "arg_table m argv ps"
  shows "arg_table m' argv ps"
proof -
  have "load32 m' (argv + 4 * of_nat i) = load32 m (argv + 4 * of_nat i)" if "i \<le> length ps" for i
  proof -
    have "argv + 4 * of_nat i = b + of_nat (unat (argv - b) + 4 * i)" by simp
    moreover have "load32 m' (b + of_nat (unat (argv - b) + 4 * i)) = load32 m (b + of_nat (unat (argv - b) + 4 * i))"
      by (rule kept_load32 [OF assms(1)]) (use assms(2) that in \<open>auto simp: beyond_def\<close>)
    ultimately show ?thesis by simp
  qed
  then show ?thesis using assms(3) by (auto simp: arg_table_def)
qed

lemma kept_cstr_beyond:
  assumes "kept m m' b 0 w" "beyond b w p (length s)" "cstr m p s"
  shows "cstr m' p s"
  using kept_cstr [OF assms(1), of "unat (p - b)" s] assms(2,3) by (simp add: beyond_def)

text \<open>The bytes the strings from the \<open>i\<close>-th on take.\<close>

definition room :: "u8 list list \<Rightarrow> nat" where
  "room ss = (\<Sum>s\<leftarrow>ss. length s + 1)"

lemma room_simps [simp]: "room [] = 0" "room (s # ss) = length s + 1 + room ss"
  by (simp_all add: room_def)

text \<open>What the copying loop establishes for the arguments from the \<open>i\<close>-th on.\<close>

definition args_at :: "mem \<Rightarrow> u32 \<Rightarrow> nat \<Rightarrow> nat \<Rightarrow> nat \<Rightarrow> u8 list list \<Rightarrow> nat \<Rightarrow> bool" where
  "args_at m b T lo hi ss i \<longleftrightarrow> (\<forall>j. i \<le> j \<and> j < length ss \<longrightarrow>
     (\<exists>u. lo \<le> u \<and> u + length (ss ! j) < hi \<and> load32 m (b + of_nat (T + 4 * j)) = b + of_nat u \<and> cstr m (b + of_nat u) (ss ! j)))"

lemma args_at_mono: "args_at m b T lo hi ss i \<Longrightarrow> lo' \<le> lo \<Longrightarrow> hi \<le> hi' \<Longrightarrow> args_at m b T lo' hi' ss i"
  unfolding args_at_def by (meson le_trans less_le_trans)

lemma same_on_args_at:
  assumes "args_at m b T lo hi ss i" "same_on m m' b lo hi" "same_on m m' b (T + 4 * i) (T + 4 * length ss)"
  shows "args_at m' b T lo hi ss i"
  unfolding args_at_def
proof (intro allI impI)
  fix j assume j: "i \<le> j \<and> j < length ss"
  then obtain u where u: "lo \<le> u" "u + length (ss ! j) < hi" "load32 m (b + of_nat (T + 4 * j)) = b + of_nat u" "cstr m (b + of_nat u) (ss ! j)"
    using assms(1) by (auto simp: args_at_def)
  have "load32 m' (b + of_nat (T + 4 * j)) = load32 m (b + of_nat (T + 4 * j))"
    by (rule same_on_load32 [OF assms(3)]) (use j in auto)
  moreover have "cstr m' (b + of_nat u) (ss ! j)" by (rule same_on_cstr [OF assms(2) u(4,1,2)])
  ultimately show "\<exists>u. lo \<le> u \<and> u + length (ss ! j) < hi \<and> load32 m' (b + of_nat (T + 4 * j)) = b + of_nat u \<and> cstr m' (b + of_nat u) (ss ! j)"
    using u by auto
qed

definition arg_strings :: "mem \<Rightarrow> u32 \<Rightarrow> nat \<Rightarrow> u32 \<Rightarrow> u32 list \<Rightarrow> u8 list list \<Rightarrow> bool" where
  "arg_strings m b w argv ps ss \<longleftrightarrow> arg_table m argv ps \<and> beyond b w argv (4 * length ps + 4) \<and> length ss = length ps \<and>
     (\<forall>i<length ps. cstr m (ps ! i) (ss ! i) \<and> beyond b w (ps ! i) (length (ss ! i)))"

lemma kept_arg_strings:
  assumes "kept m m' b 0 w" "arg_strings m b w argv ps ss"
  shows "arg_strings m' b w argv ps ss"
  using assms kept_arg_table [OF assms(1)] kept_cstr_beyond [OF assms(1)] by (auto simp: arg_strings_def)

lemma copy_args_lays_out:
  assumes "arg_strings m b w argv ps ss" "i + k = length ss" "t \<le> T" "T + 4 * length ss \<le> w" "w < 2 ^ 32" "room (drop i ss) \<le> t"
  shows "\<exists>m' t'. copy_args argv (b + of_nat T) (of_nat i) k m (b + of_nat t) = Some (m', b + of_nat t') \<and>
    t' + room (drop i ss) = t \<and> kept m m' b 0 w \<and> same_on m m' b t (T + 4 * i) \<and> args_at m' b T t' t ss i"
  using assms
proof (induction k arbitrary: i m t)
  case 0
  then show ?case by (auto simp: args_at_def same_on_def)
next
  case (Suc k)
  let ?p = "ps ! i" and ?s = "ss ! i" and ?l = "length (ss ! i)"
  have i: "i < length ss" "i < length ps" "length ps = length ss" using Suc.prems by (auto simp: arg_strings_def)
  then have rm: "room (drop i ss) = ?l + 1 + room (drop (Suc i) ss)" by (simp add: Cons_nth_drop_Suc [symmetric])
  define t1 where "t1 = t - (?l + 1)"
  have t1: "t1 + (?l + 1) = t" "room (drop (Suc i) ss) \<le> t1" "t1 < w" using rm Suc.prems(3,4,6) by (auto simp: t1_def)
  have src: "load32 m' (argv + 4 * of_nat i) = ?p \<and> strlen m' ?p = Some (of_nat ?l) \<and> cstr m' ?p ?s \<and> w \<le> unat (?p - b) \<and> unat (?p - b) + ?l < 2 ^ 32"
    if "arg_strings m' b w argv ps ss" for m'
    using that i by (auto simp: arg_strings_def arg_table_def beyond_def strlen_cstr)
  have st: "b + of_nat t - (of_nat ?l + 1) = b + of_nat t1" using t1(1) by (simp flip: t1(1))
  have tab: "b + of_nat T + 4 * of_nat i = b + of_nat (T + 4 * i)" by simp
  let ?m1 = "store32 m (b + of_nat (T + 4 * i)) (b + of_nat t1)"
  have k1: "kept m ?m1 b (T + 4 * i) (T + 4 * i + 4)" by (rule kept_store32) (use i Suc.prems(4,5) in auto)
  then have k1': "kept m ?m1 b 0 w" by (rule kept_mono) (use i Suc.prems(4) in auto)
  then have a1: "arg_strings ?m1 b w argv ps ss" using kept_arg_strings Suc.prems(1) by blast
  let ?m2 = "memcpy ?m1 (b + of_nat t1) ?p (of_nat ?l + 1)"
  have n: "unat (of_nat ?l + 1 :: u32) = ?l + 1"
    using unat_of_nat_lt32 [of "?l + 1"] t1 Suc.prems(3-5) by (simp add: add.commute)
  have k2: "kept ?m1 ?m2 b t1 t" using kept_memcpy [of t1 "of_nat ?l + 1" ?m1 b ?p] n t1(1) Suc.prems(3-5) by simp
  then have k2': "kept ?m1 ?m2 b 0 w" by (rule kept_mono) (use Suc.prems(3,4) in auto)
  have a2: "arg_strings ?m2 b w argv ps ss" using kept_arg_strings [OF k2' a1] .
  have c2: "cstr ?m2 (b + of_nat t1) ?s"
    using memcpy_cstr [of ?m1 b "unat (?p - b)" ?s t1] src [OF a1] t1(3) by simp
  obtain m' t' where IH: "copy_args argv (b + of_nat T) (of_nat (Suc i)) k ?m2 (b + of_nat t1) = Some (m', b + of_nat t')"
    "t' + room (drop (Suc i) ss) = t1" "kept ?m2 m' b 0 w" "same_on ?m2 m' b t1 (T + 4 * Suc i)" "args_at m' b T t' t1 ss (Suc i)"
    using Suc.IH [OF a2, of "Suc i" t1] Suc.prems(2-5) t1 by auto
  have run: "copy_args argv (b + of_nat T) (of_nat i) (Suc k) m (b + of_nat t) = Some (m', b + of_nat t')"
  proof -
    have "of_nat i + 1 = (of_nat (Suc i) :: u32)" by simp
    moreover have "load32 m (argv + 4 * of_nat i) = ?p" "strlen m ?p = Some (of_nat ?l)" using src [OF Suc.prems(1)] by auto
    moreover have "load32 ?m1 (argv + 4 * of_nat i) = ?p" "strlen ?m1 ?p = Some (of_nat ?l)" using src [OF a1] by auto
    ultimately show ?thesis unfolding copy_args.simps Let_def tab by (simp only: option.case st load_store_same IH(1))
  qed
  have f: "same_on ?m2 m' b t1 (T + 4 * i)" using same_on_mono [OF IH(4)] by simp
  have "same_on m ?m2 b t (T + 4 * i)"
    by (rule same_on_trans [OF kept_same_on [OF k1] kept_same_on [OF k2]]) (use i Suc.prems(4,5) in auto)
  then have same: "same_on m m' b t (T + 4 * i)" using same_on_trans same_on_mono [OF f] t1(1) by auto
  have "load32 m' (b + of_nat (T + 4 * i)) = load32 ?m2 (b + of_nat (T + 4 * i))"
    by (rule same_on_load32 [OF IH(4)]) (use t1 Suc.prems(3) in auto)
  also have "\<dots> = load32 ?m1 (b + of_nat (T + 4 * i))"
    by (rule kept_load32 [OF k2]) (use t1 i Suc.prems(3-5) in auto)
  finally have ld: "load32 m' (b + of_nat (T + 4 * i)) = b + of_nat t1" by simp
  have cs: "cstr m' (b + of_nat t1) ?s" by (rule same_on_cstr [OF IH(4) c2]) (use t1 Suc.prems(3) in auto)
  have "args_at m' b T t' t ss i"
    unfolding args_at_def
  proof (intro allI impI)
    fix j assume j: "i \<le> j \<and> j < length ss"
    show "\<exists>u. t' \<le> u \<and> u + length (ss ! j) < t \<and> load32 m' (b + of_nat (T + 4 * j)) = b + of_nat u \<and> cstr m' (b + of_nat u) (ss ! j)"
    proof (cases "j = i")
      case True
      then show ?thesis using ld cs IH(2) t1(1) by (intro exI [of _ t1]) auto
    next
      case False
      then show ?thesis using args_at_mono [OF IH(5), of t' t] j t1(1) by (auto simp: args_at_def)
    qed
  qed
  then show ?case using run same IH(2,3) rm t1(1) kept_trans [OF kept_trans [OF k1' k2'] IH(3)] by auto
qed

lemma push_word_at:
  assumes "E + 4 \<le> 2 ^ 32"
  shows "push_word v (m, b + of_nat (E + 4)) = (store32 m (b + of_nat E) v, b + of_nat E)"
  by (simp add: push_word_def Let_def)

text \<open>The three words the entry point of the process finds on its stack.\<close>

lemma push_frame:
  assumes "E + 12 \<le> 2 ^ 32"
  shows "\<exists>m'. push_word x (push_word y (push_word z (m, b + of_nat (E + 12)))) = (m', b + of_nat E) \<and> kept m m' b E (E + 12) \<and>
    load32 m' (b + of_nat E) = x \<and> load32 m' (b + of_nat (E + 4)) = y \<and> load32 m' (b + of_nat (E + 8)) = z"
proof -
  let ?m1 = "store32 m (b + of_nat (E + 8)) z" and ?m2 = "store32 (store32 m (b + of_nat (E + 8)) z) (b + of_nat (E + 4)) y"
  let ?m3 = "store32 ?m2 (b + of_nat E) x"
  have k: "kept m ?m1 b (E + 8) (E + 8 + 4)" "kept ?m1 ?m2 b (E + 4) (E + 4 + 4)" "kept ?m2 ?m3 b E (E + 4)"
    by (rule kept_store32, use assms in simp)+
  have "push_word z (m, b + of_nat (E + 12)) = (?m1, b + of_nat (E + 8))"
    using push_word_at [of "E + 8" z m b] assms by (simp add: add.assoc)
  moreover have "push_word y (?m1, b + of_nat (E + 8)) = (?m2, b + of_nat (E + 4))"
    using push_word_at [of "E + 4" y ?m1 b] assms by (simp add: add.assoc)
  moreover have "push_word x (?m2, b + of_nat (E + 4)) = (?m3, b + of_nat E)"
    using push_word_at [of E x ?m2 b] assms by simp
  ultimately have "push_word x (push_word y (push_word z (m, b + of_nat (E + 12)))) = (?m3, b + of_nat E)" by simp
  moreover have "kept m ?m3 b E (E + 12)"
    using kept_trans [OF kept_trans [OF kept_mono [OF k(1)] kept_mono [OF k(2)]] kept_mono [OF k(3)]] by simp
  moreover have "load32 ?m3 (b + of_nat (E + 4)) = load32 ?m2 (b + of_nat (E + 4))"
    by (rule kept_load32 [OF k(3)]) (use assms in auto)
  moreover have "load32 ?m3 (b + of_nat (E + 8)) = load32 ?m2 (b + of_nat (E + 8))"
    by (rule kept_load32 [OF k(3)]) (use assms in auto)
  moreover have "load32 ?m2 (b + of_nat (E + 8)) = load32 ?m1 (b + of_nat (E + 8))"
    by (rule kept_load32 [OF k(2)]) (use assms in auto)
  ultimately show ?thesis by (intro exI [of _ ?m3]) simp
qed

text \<open>
  \<open>starts_with m b esp argv envp ss\<close>: at \<open>b + esp\<close> lie the argument count, the address of a table and \<open>envp\<close>; the table
  holds pointers to the strings \<open>ss\<close> and ends with a null pointer.
\<close>

definition starts_with :: "mem \<Rightarrow> u32 \<Rightarrow> u32 \<Rightarrow> u32 \<Rightarrow> u8 list list \<Rightarrow> bool" where
  "starts_with m esp new_argv envp ss \<longleftrightarrow> load32 m esp = of_nat (length ss) \<and> load32 m (esp + 4) = new_argv \<and> load32 m (esp + 8) = envp \<and>
     (\<forall>j<length ss. cstr m (load32 m (new_argv + 4 * of_nat j)) (ss ! j)) \<and> load32 m (new_argv + 4 * of_nat (length ss)) = 0"

lemma push_args_lays_out:
  assumes "arg_strings m b (S + 3) argv ps ss" "argv \<noteq> 0" "4 * length ss + room ss + 13 \<le> S" "S + 3 < 2 ^ 32"
  shows "\<exists>m'. push_args argv envp (b + of_nat S) m =
      Some (m', b + of_nat (S - (4 * length ss + room ss + 13)), b + of_nat (S - (4 * length ss + 1))) \<and>
    kept m m' b 0 (S + 3) \<and>
    starts_with m' (b + of_nat (S - (4 * length ss + room ss + 13))) (b + of_nat (S - (4 * length ss + 1))) envp ss"
proof -
  let ?n = "length ss" and ?w = "S + 3"
  define T where "T = S - (4 * ?n + 1)"
  define E where "E = S - (4 * ?n + room ss + 13)"
  have T: "T + 4 * ?n + 1 = S" "T + 4 * ?n + 4 = ?w" and E: "E + 12 + room ss = T" using assms(3) by (auto simp: T_def E_def)
  have n: "unat (of_nat ?n :: u32) = ?n" using assms(3,4) by simp
  have "?n = length ps" using assms(1) by (simp add: arg_strings_def)
  then have ct: "count_args m argv 0 = Some (of_nat ?n)"
    using count_args_table [of m argv ps 0 ?n] assms(1) by (simp add: arg_strings_def)
  have na: "b + of_nat S - (4 * of_nat ?n + 1) = b + of_nat T" by (simp flip: T(1))
  obtain m1 t' where c: "copy_args argv (b + of_nat T) (of_nat 0) ?n m (b + of_nat T) = Some (m1, b + of_nat t')"
    "t' + room ss = T" "kept m m1 b 0 ?w" "args_at m1 b T t' T ss 0"
    using copy_args_lays_out [OF assms(1), of 0 ?n T T] T E assms(4) by auto
  then have t': "t' = E + 12" using E by simp
  let ?m2 = "store32 m1 (b + of_nat (T + 4 * ?n)) 0"
  have k2: "kept m1 ?m2 b (T + 4 * ?n) (T + 4 * ?n + 4)" by (rule kept_store32) (use T assms(4) in auto)
  obtain m' where p: "push_word (of_nat ?n) (push_word (b + of_nat T) (push_word envp (?m2, b + of_nat (E + 12)))) = (m', b + of_nat E)"
    "kept ?m2 m' b E (E + 12)" "load32 m' (b + of_nat E) = of_nat ?n" "load32 m' (b + of_nat (E + 4)) = b + of_nat T"
    "load32 m' (b + of_nat (E + 8)) = envp"
    using push_frame [of E "of_nat ?n" "b + of_nat T" envp ?m2 b] E T assms(4) by auto
  have tab: "b + of_nat T + 4 * of_nat j = b + of_nat (T + 4 * j)" for j by simp
  have c1: "copy_args argv (b + of_nat T) 0 ?n m (b + of_nat T) = Some (m1, b + of_nat (E + 12))" using c(1) t' by simp
  have run: "push_args argv envp (b + of_nat S) m = Some (m', b + of_nat E, b + of_nat T)"
    using assms(2) ct p(1) unfolding push_args_def Let_def
    by (simp only: if_True option.case simp_thms na n tab c1 prod.case)
  have "args_at ?m2 b T t' T ss 0"
    by (rule same_on_args_at [OF c(4)]; rule kept_same_on [OF k2]) (use T assms(4) in auto)
  then have a: "args_at m' b T t' T ss 0"
    by (rule same_on_args_at; intro kept_same_on [OF p(2)]) (use t' E T assms(4) in auto)
  have z: "load32 m' (b + of_nat (T + 4 * ?n)) = 0"
    using kept_load32 [OF p(2), of "T + 4 * ?n"] E T assms(4) by (simp del: of_nat_add of_nat_mult)
  have "kept m m' b 0 ?w"
    using kept_trans [OF kept_trans [OF c(3) kept_mono [OF k2]] kept_mono [OF p(2)]] E T by auto
  moreover have "starts_with m' (b + of_nat E) (b + of_nat T) envp ss"
    unfolding starts_with_def tab
  proof (intro conjI allI impI)
    show "cstr m' (load32 m' (b + of_nat (T + 4 * j))) (ss ! j)" if "j < ?n" for j
      using a that by (auto simp: args_at_def simp del: of_nat_add of_nat_mult)
  qed (use p z in \<open>simp_all add: add.assoc\<close>)
  ultimately show ?thesis using run unfolding T_def [symmetric] E_def [symmetric] by blast
qed

section \<open>Creating a process\<close>

lemma arg_strings_memset:
  assumes "arg_strings m stk 0x803 argv ps ss"
  shows "kept m (memset m stk 0 KERNEL_STACK_SIZE) stk 0 0x803" "arg_strings (memset m stk 0 KERNEL_STACK_SIZE) stk 0x803 argv ps ss"
proof -
  show k: "kept m (memset m stk 0 KERNEL_STACK_SIZE) stk 0 0x803"
    using kept_mono [OF kept_memset [of 0 KERNEL_STACK_SIZE m stk 0], of 0 "0x803"] by simp
  show "arg_strings (memset m stk 0 KERNEL_STACK_SIZE) stk 0x803 argv ps ss" by (rule kept_arg_strings [OF k assms])
qed

lemma create_process_steps:
  assumes "wf_queue s as" "new \<noteq> 0" "new \<notin> set as"
    and p: "push_args argv envp (stk + KERNEL_STACK_SIZE) (memset m stk 0 KERNEL_STACK_SIZE) = Some (m', esp, na)"
  obtains s' where "create_process new stk files mb f argv envp lo hi (s, m) = Some (s', m')"
    "\<And>a. links s' a = (if a = last as then new else if a = new then 0 else links s a)"
    "\<And>a. t_id (tasks s' a) = (if a = new then next_pid s else t_id (tasks s a))"
    "task_queue s' = task_queue s" "current_task s' = current_task s" "next_pid s' = next_pid s + 1"
    "t_eip (tasks s' new) = f" "t_esp (tasks s' new) = esp" "t_argv (tasks s' new) = na" "t_maps (tasks s' new) = mb"
    "t_parent (tasks s' new) = current_task s"
    "maps s' = memmap_create mb lo hi (MEM_READ OR MEM_EXEC OR MEM_USER) 1 (maps s)"
proof -
  note q = wf_queueD [OF assms(1)]
  let ?s1 = "init_task new stk files (upd_task new (\<lambda>_. zero_task) s)"
  let ?s2 = "?s1\<lparr>maps := memmap_create mb lo hi (MEM_READ OR MEM_EXEC OR MEM_USER) 1 (maps ?s1)\<rparr>"
  let ?s3 = "upd_task new (\<lambda>t. t\<lparr>t_eip := f, t_maps := mb, t_brk := hi\<rparr>) ?s2"
  let ?s4 = "upd_task new (\<lambda>t. t\<lparr>t_argv := na, t_envp := 0, t_stack := esp, t_esp := esp, t_tid := 0\<rparr>) ?s3"
  let ?s' = "upd_task (current_task s) (\<lambda>t. t\<lparr>t_child_count := t_child_count t + 1\<rparr>)
    (upd_task (last as) (\<lambda>t. t\<lparr>t_next := new\<rparr>) ?s4)"
  have cn: "current_task s \<noteq> new" "last as \<noteq> new" using q assms(3) by auto
  have st: "t_stack (tasks ?s1 new) = stk + KERNEL_STACK_SIZE" "t_stack (tasks ?s3 new) = stk + KERNEL_STACK_SIZE"
    by (simp_all add: init_task_def Let_def)
  have l4: "links ?s4 a = (if a = new then 0 else links s a)" for a by (simp add: init_task_def Let_def)
  have c4: "chain (links ?s4) (task_queue s) as"
    using q(1) chain_cong [of as "links s" "links ?s4"] assms(3) l4 by metis
  have q4: "task_queue ?s4 = task_queue s" by (simp add: init_task_def Let_def)
  have "task_tail (tasks ?s4) (task_queue ?s4) = Some (last as)"
    using task_tail_chain [OF c4 q(2)] by (simp only: q4)
  then have "add_task new ?s4 = Some (upd_task (last as) (\<lambda>t. t\<lparr>t_next := new\<rparr>) ?s4)"
    by (simp add: add_task_def)
  then have run: "create_process new stk files mb f argv envp lo hi (s, m) = Some (?s', m')"
    using p unfolding create_process_def Let_def prod.case st add_diff_cancel_right' by simp
  show thesis
    by (rule that [of ?s']) (use run cn in \<open>simp_all add: init_task_def Let_def\<close>)
qed

lemma create_process_ready:
  assumes "wf_queue s as" "new \<noteq> 0" "new \<notin> set as" "next_pid s < - 1"
    and args: "arg_strings m stk 0x803 argv ps ss" "argv \<noteq> 0" "4 * length ss + room ss + 13 \<le> 0x800"
  obtains s' m' where "create_process new stk files mb f argv envp lo hi (s, m) = Some (s', m')" "wf_queue s' (as @ [new])"
    "get_pid_task (next_pid s) s' = Some new" "\<And>pid. pid \<noteq> next_pid s \<Longrightarrow> get_pid_task pid s' = get_pid_task pid s"
    "t_eip (tasks s' new) = f" "starts_with m' (t_esp (tasks s' new)) (t_argv (tasks s' new)) envp ss"
    "\<And>a. memmap_check (maps s' (t_maps (tasks s' new))) a \<longleftrightarrow> lo \<le> a \<and> a \<le> hi" "kept m m' stk 0 0x803"
proof -
  let ?m1 = "memset m stk 0 KERNEL_STACK_SIZE"
  have "arg_strings ?m1 stk (0x800 + 3) argv ps ss" using arg_strings_memset(2) [OF args(1)] by simp
  from push_args_lays_out [OF this args(2,3), of envp] obtain m' esp na where
    p: "push_args argv envp (stk + KERNEL_STACK_SIZE) ?m1 = Some (m', esp, na)" "kept ?m1 m' stk 0 0x803" "starts_with m' esp na envp ss"
    by auto
  obtain s' where
    run: "create_process new stk files mb f argv envp lo hi (s, m) = Some (s', m')"
    and f: "\<And>a. links s' a = (if a = last as then new else if a = new then 0 else links s a)"
      "\<And>a. t_id (tasks s' a) = (if a = new then next_pid s else t_id (tasks s a))"
    and g: "task_queue s' = task_queue s" "current_task s' = current_task s" "next_pid s' = next_pid s + 1"
    and e: "t_eip (tasks s' new) = f" "t_esp (tasks s' new) = esp" "t_argv (tasks s' new) = na" "t_maps (tasks s' new) = mb"
      "t_parent (tasks s' new) = current_task s" "maps s' = memmap_create mb lo hi (MEM_READ OR MEM_EXEC OR MEM_USER) 1 (maps s)"
    by (rule create_process_steps [OF assms(1-3) p(1), of files mb f lo hi]) (rule that; assumption)
  have "memmap_check (maps s' (t_maps (tasks s' new))) a \<longleftrightarrow> lo \<le> a \<and> a \<le> hi" for a
    by (simp add: e memmap_create_def memmap_check_def)
  moreover have "kept m m' stk 0 0x803" by (rule kept_trans [OF arg_strings_memset(1) [OF args(1)] p(2)])
  ultimately show thesis using that run p(3) e(1-3) queue_grows [OF assms(1-4) f g] by auto
qed

text \<open>
  C6. A new process starts with its arguments: for a fresh task structure and arguments that fit on the stack the call
  returns, the process is queued with the next process number and every other number resolves as before, its address range is the
  given one, and at its stack pointer it finds the number of arguments, a table of pointers to copies of the strings, ended
  by a null pointer, and \<open>envp\<close>. Memory outside the stack block is unchanged, apart from the three bytes behind the block:
  the table is given three bytes too few.
\<close>

theorem create_process_starts:
  assumes "wf_queue s as" "new \<noteq> 0" "new \<notin> set as" "next_pid s < - 1"
    and args: "arg_strings m stk 0x803 argv ps ss" "argv \<noteq> 0" "4 * length ss + room ss + 13 \<le> 0x800"
  shows "\<exists>s' m'. create_process new stk files mb f argv envp lo hi (s, m) = Some (s', m') \<and> wf_queue s' (as @ [new]) \<and>
    get_pid_task (next_pid s) s' = Some new \<and> (\<forall>pid. pid \<noteq> next_pid s \<longrightarrow> get_pid_task pid s' = get_pid_task pid s) \<and>
    t_eip (tasks s' new) = f \<and> starts_with m' (t_esp (tasks s' new)) (t_argv (tasks s' new)) envp ss \<and>
    (\<forall>a. memmap_check (maps s' (t_maps (tasks s' new))) a \<longleftrightarrow> lo \<le> a \<and> a \<le> hi) \<and> kept m m' stk 0 0x803"
  by (rule create_process_ready [OF assms, of files mb f envp lo hi]) blast

definition demo_args :: mem where
  "demo_args = (\<lambda>a. if a = 0x1001 then 0x20 else if a = 0x2000 then 97 else 0)"

lemma demo_arg_strings: "arg_strings demo_args 0x9000 0x803 0x1000 [0x2000] [[97]]"
  by (simp add: arg_strings_def arg_table_def beyond_def demo_args_def load32_def push_bit_eq_mult)

theorem create_process_starts_witness:
  "\<exists>s' m'. create_process 0x40 0x9000 0xa000 0xb000 0x5555 0x1000 0 0x100 0x200 (demo_sched, demo_args) = Some (s', m') \<and>
    get_pid_task 4 s' = Some 0x40 \<and> load32 m' (t_esp (tasks s' 0x40)) = 1"
proof -
  have n: "next_pid demo_sched = 4" by (simp add: demo_sched_def)
  show ?thesis
    using create_process_starts [OF demo_sched_wf, of "0x40", OF _ _ _ demo_arg_strings, of "0xa000" "0xb000" "0x5555" 0 "0x100" "0x200"]
    unfolding n by (auto simp: starts_with_def)
qed

end
