(* ===== verification/Signal.thy ===== *)
theory Signal
  imports Process
begin

text \<open>
  Signals, \<open>kern/kern/ipc/signal.c\<close>. A signal is queued in the task it is sent to and taken up by the scheduler, which
  then leaves for the handler instead of resuming the task. \<open>signal_t\<close> is an unsigned enumeration on this target,
  so the tests \<open>signal < 0\<close> are false and the comparison with \<open>MAX_SIGNALS\<close> is unsigned.
\<close>

section \<open>Definitions\<close>

definition signal_t :: "string list" where
  "signal_t = [''SIGABRT'', ''SIGALRM'', ''SIGBUS'', ''SIGCHLD'', ''SIGCONT'', ''SIGFPE'', ''SIGHUP'', ''SIGILL'', ''SIGINT'',
     ''SIGKILL'', ''SIGPIPE'', ''SIGQUIT'', ''SIGSEGV'', ''SIGSTOP'', ''SIGTERM'', ''SIGTSTP'', ''SIGTTIN'', ''SIGTTOU'',
     ''SIGUSR1'', ''SIGUSR2'', ''SIGPOLL'', ''SIGPROF'', ''SIGSYS'', ''SIGTRAP'', ''SIGURG'', ''SIGVTALRM'', ''SIGXCPU'', ''SIGXFSZ'']"

abbreviation (input) SIGBUS :: u32 where "SIGBUS \<equiv> 2"
abbreviation (input) SIGFPE :: u32 where "SIGFPE \<equiv> 5"
abbreviation (input) SIGILL :: u32 where "SIGILL \<equiv> 7"
abbreviation (input) SIGSEGV :: u32 where "SIGSEGV \<equiv> 12"

lemma signal_values:
  "signal_t ! 2 = ''SIGBUS''" "signal_t ! 5 = ''SIGFPE''" "signal_t ! 7 = ''SIGILL''" "signal_t ! 12 = ''SIGSEGV''"
  by (simp_all add: signal_t_def)

text \<open>The result is the new state, where the processor went and the value returned to the caller.\<close>

definition handle_signal :: "u32 \<Rightarrow> u32 \<Rightarrow> u32 \<times> u32 \<times> u32 \<Rightarrow> sched \<Rightarrow> (sched \<times> resume \<times> int) option" where
  "handle_signal task sig regs s =
    (if sig \<ge> of_nat MAX_SIGNALS then Some (s, Returned, - 1)
     else if t_sig_queued (tasks s task) then Some (s, Returned, - 1)
     else if t_sighandle (tasks s task) ! unat sig = 0 then map_option (\<lambda>s1. (s1, Returned, 0)) (remove_task task s)
     else let s1 = upd_task task (\<lambda>t. t\<lparr>t_sig_queued := True, t_signal := sig\<rparr>) s
          in if current_task s1 = task then map_option (\<lambda>(s2, r). (s2, r, 0)) (sleep_thread 1 regs s1)
             else Some (s1, Returned, 0))"

definition signal :: "u32 \<Rightarrow> u32 \<Rightarrow> sched \<Rightarrow> sched \<times> u32" where
  "signal sig handler s =
    (if sig \<ge> of_nat MAX_SIGNALS then (s, 0)
     else (upd_task (current_task s) (\<lambda>t. t\<lparr>t_sighandle := (t_sighandle t)[unat sig := handler]\<rparr>) s, handler))"

definition sigreturn :: "u32 \<times> u32 \<times> u32 \<Rightarrow> sched \<Rightarrow> (sched \<times> resume \<times> int) option" where
  "sigreturn regs s =
    map_option (\<lambda>(s1, r). (s1, r, 0))
      (switch_task regs (upd_task (current_task s) (\<lambda>t. t\<lparr>t_in_sig := False, t_eip := t_old_eip t\<rparr>) s))"

definition kill :: "u32 \<Rightarrow> u32 \<Rightarrow> u32 \<times> u32 \<times> u32 \<Rightarrow> sched \<Rightarrow> (sched \<times> resume \<times> int) option" where
  "kill pid sig regs s =
    (case get_pid_task pid s of None \<Rightarrow> None
     | Some p \<Rightarrow> if p = 0 then Some (s, Returned, - 1) else handle_signal p sig regs s)"

section \<open>Signal numbers stay in the table\<close>

text \<open>Every task has a handler slot for the signal it records, so the scheduler never reads past the table.\<close>

definition signals_ok :: "sched \<Rightarrow> bool" where
  "signals_ok s \<longleftrightarrow> (\<forall>a. length (t_sighandle (tasks s a)) = MAX_SIGNALS \<and> unat (t_signal (tasks s a)) < MAX_SIGNALS)"

lemma signals_ok_upd:
  assumes "signals_ok s" "\<And>t. length (t_sighandle t) = MAX_SIGNALS \<Longrightarrow> unat (t_signal t) < MAX_SIGNALS \<Longrightarrow>
    length (t_sighandle (f t)) = MAX_SIGNALS \<and> unat (t_signal (f t)) < MAX_SIGNALS"
  shows "signals_ok (upd_task p f s)"
  using assms by (simp add: signals_ok_def)

lemma signals_ok_tell_parent [inv_intros]: "signals_ok s \<Longrightarrow> signals_ok (tell_parent task s)"
  unfolding tell_parent_def Let_def by (auto intro!: signals_ok_upd)

lemma signals_ok_remove [inv_intros]: "signals_ok s \<Longrightarrow> remove_task p s = Some s' \<Longrightarrow> signals_ok s'"
  unfolding remove_task_def by (auto intro!: inv_intros signals_ok_upd)

lemma signals_ok_init_task [inv_intros]: "signals_ok s \<Longrightarrow> signals_ok (init_task p stk files s)"
  by (simp add: init_task_def Let_def signals_ok_def)

lemma signals_ok_enter_task:
  assumes "signals_ok s"
  shows "signals_ok (fst (enter_task p s))"
proof -
  have e: "t_sighandle (tasks (fst (enter_task p s)) a) = t_sighandle (tasks s a)"
    "t_signal (tasks (fst (enter_task p s)) a) = t_signal (tasks s a)" for a
    by (simp_all add: enter_task_def Let_def)
  show ?thesis using assms by (simp add: signals_ok_def e)
qed

lemma next_ready_only_dozed: "next_ready ts queue a = Some x \<Longrightarrow> only_dozed ts (fst x)"
proof (induction rule: next_ready.raw_induct [rotated, consumes 1, case_names 1])
  case (1 f ts queue a x)
  show ?case
  proof (cases "t_sleep (ts a) = 0")
    case True
    with "1.hyps" show ?thesis by (auto simp: only_dozed_def intro: exI [of _ "t_sleep (ts _)"])
  next
    case False
    with "1.hyps" have "f (doze a ts) queue (after ts queue a) = Some x" by (simp add: Let_def doze_def after_def split: if_splits)
    then show ?thesis using "1.IH" only_dozed_doze False by blast
  qed
qed

text \<open>What a switch leaves of every task, whether or not the queue is well formed.\<close>

lemma switch_task_enters:
  assumes "switch_task regs s = Some (s', r)" "current_task s \<noteq> 0"
  obtains ts p where "only_dozed (tasks (save_regs regs s)) ts" "(s', r) = enter_task p ((save_regs regs s)\<lparr>tasks := ts\<rparr>)"
proof -
  from assms obtain x where n: "next_ready (tasks (save_regs regs s)) (task_queue s) (after (tasks s) (task_queue s) (current_task s)) = Some x"
    and e: "(s', r) = enter_task (snd x) ((save_regs regs s)\<lparr>tasks := fst x\<rparr>)"
    by (auto simp: switch_task_alt)
  from that [OF next_ready_only_dozed [OF n] e] show thesis .
qed

lemma signals_ok_switch [inv_intros]:
  assumes "signals_ok s" "switch_task regs s = Some (s', r)"
  shows "signals_ok s'"
proof (cases "current_task s = 0")
  case True
  with assms show ?thesis by (simp add: switch_task_def)
next
  case False
  from switch_task_enters [OF assms(2) False] obtain ts p
    where d: "only_dozed (tasks (save_regs regs s)) ts" and e: "(s', r) = enter_task p ((save_regs regs s)\<lparr>tasks := ts\<rparr>)" .
  have "signals_ok (save_regs regs s)" unfolding save_regs_def using assms(1) by (rule signals_ok_upd) simp
  moreover have "\<exists>n. ts b = (tasks (save_regs regs s) b)\<lparr>t_sleep := n\<rparr>" for b using d unfolding only_dozed_def by blast
  then have "t_sighandle (ts b) = t_sighandle (tasks (save_regs regs s) b)" "t_signal (ts b) = t_signal (tasks (save_regs regs s) b)" for b
    by (metis task_t.surjective task_t.update_convs(14) task_t.select_convs(30), metis task_t.surjective task_t.update_convs(14) task_t.select_convs(33))
  ultimately have "signals_ok ((save_regs regs s)\<lparr>tasks := ts\<rparr>)" by (simp add: signals_ok_def)
  from signals_ok_enter_task [OF this, of p] e show ?thesis by (metis fst_conv)
qed

lemma signals_ok_sleep [inv_intros]: "signals_ok s \<Longrightarrow> sleep_thread n regs s = Some (s', r) \<Longrightarrow> signals_ok s'"
  unfolding sleep_thread_def by (rule signals_ok_switch, rule signals_ok_upd) auto

lemma signals_ok_exit_task [inv_intros]: "signals_ok s \<Longrightarrow> exit_task regs s = Some (s', r) \<Longrightarrow> signals_ok s'"
  using signals_ok_upd [of s "\<lambda>t. t\<lparr>t_finished := True\<rparr>" "current_task s"]
  unfolding exit_task_def exit_thread_def
  by (auto split: option.splits intro: signals_ok_switch signals_ok_remove)

lemma signals_ok_handle_signal [inv_intros]:
  assumes "signals_ok s" "handle_signal p sig regs s = Some (s', r, v)"
  shows "signals_ok s'"
proof -
  have "unat sig < 32" if "sig < 32" using that by (simp add: word_less_nat_alt)
  then have "signals_ok (upd_task p (\<lambda>t. t\<lparr>t_sig_queued := True, t_signal := sig\<rparr>) s)" if "sig < 32"
    using that assms(1) by (intro signals_ok_upd) auto
  with assms show ?thesis
    unfolding handle_signal_def
    by (auto simp: Let_def not_le split: if_splits option.splits intro: signals_ok_remove signals_ok_sleep)
qed

lemma signals_ok_kill [inv_intros]: "signals_ok s \<Longrightarrow> kill pid sig regs s = Some (s', r, v) \<Longrightarrow> signals_ok s'"
  unfolding kill_def by (auto split: option.splits if_splits intro: signals_ok_handle_signal)

lemma signals_ok_signal [inv_intros]: "signals_ok s \<Longrightarrow> signals_ok (fst (signal sig h s))"
  unfolding signal_def by (auto intro!: signals_ok_upd)

lemma signals_ok_sigreturn [inv_intros]: "signals_ok s \<Longrightarrow> sigreturn regs s = Some (s', r, v) \<Longrightarrow> signals_ok s'"
  using signals_ok_upd [of s "\<lambda>t. t\<lparr>t_in_sig := False, t_eip := t_old_eip t\<rparr>" "current_task s"]
  unfolding sigreturn_def by (auto intro: signals_ok_switch)

lemma signals_ok_add_task [inv_intros]: "signals_ok s \<Longrightarrow> add_task p s = Some s' \<Longrightarrow> signals_ok s'"
  unfolding add_task_def by (auto intro!: signals_ok_upd)

lemma signals_ok_create_thread [inv_intros]:
  assumes "signals_ok s" "create_thread new stk files f s = Some (s', v)"
  shows "signals_ok s'"
proof -
  let ?s1 = "init_task new stk files (upd_task new (\<lambda>_. zero_task) s)"
  let ?c = "tasks ?s1 (current_task s)"
  have "signals_ok (upd_task new (\<lambda>_. zero_task) s)" by (rule signals_ok_upd [OF assms(1)]) (simp add: zero_task_def)
  then have "signals_ok ?s1" by (rule signals_ok_init_task)
  then have "signals_ok (upd_task new (\<lambda>t. t\<lparr>t_maps := t_maps ?c, t_eip := f, t_argv := t_argv ?c, t_envp := t_envp ?c\<rparr>) ?s1)"
    by (rule signals_ok_upd) simp
  then show ?thesis
    using assms(2) signals_ok_add_task unfolding create_thread_def
    by (auto simp: Let_def split: option.splits intro!: signals_ok_upd)
qed

lemma signals_ok_create_process [inv_intros]:
  assumes "signals_ok s" "create_process new stk files mb f argv envp lo hi (s, m) = Some (s', m')"
  shows "signals_ok s'"
proof -
  let ?s1 = "init_task new stk files (upd_task new (\<lambda>_. zero_task) s)"
  have "signals_ok (upd_task new (\<lambda>_. zero_task) s)" by (rule signals_ok_upd [OF assms(1)]) (simp add: zero_task_def)
  then have "signals_ok ?s1" by (rule signals_ok_init_task)
  then have "signals_ok (?s1\<lparr>maps := ms\<rparr>)" for ms by (simp add: signals_ok_def)
  then have "signals_ok (upd_task new (\<lambda>t. t\<lparr>t_eip := f, t_maps := mb, t_brk := hi\<rparr>) (?s1\<lparr>maps := ms\<rparr>))" for ms
    by (rule signals_ok_upd) simp
  then have "signals_ok (upd_task new (\<lambda>t. t\<lparr>t_argv := a, t_envp := 0, t_stack := st, t_esp := st, t_tid := 0\<rparr>)
    (upd_task new (\<lambda>t. t\<lparr>t_eip := f, t_maps := mb, t_brk := hi\<rparr>) (?s1\<lparr>maps := ms\<rparr>)))" for a st ms
    by (rule signals_ok_upd) simp
  moreover from assms(2) obtain a st ms s5 where
    "add_task new (upd_task new (\<lambda>t. t\<lparr>t_argv := a, t_envp := 0, t_stack := st, t_esp := st, t_tid := 0\<rparr>)
       (upd_task new (\<lambda>t. t\<lparr>t_eip := f, t_maps := mb, t_brk := hi\<rparr>) (?s1\<lparr>maps := ms\<rparr>))) = Some s5"
    and s': "s' = upd_task (current_task s) (\<lambda>t. t\<lparr>t_child_count := t_child_count t + 1\<rparr>) s5"
    unfolding create_process_def Let_def by (auto split: option.splits prod.splits)
  ultimately have "signals_ok s5" using signals_ok_add_task by blast
  then show ?thesis unfolding s' by (rule signals_ok_upd) simp
qed

text \<open>The steps of the task layer, each one whole operation.\<close>

inductive task_step :: "sched \<Rightarrow> sched \<Rightarrow> bool" where
  timer: "timer_call regs s = Some (s', r) \<Longrightarrow> task_step s s'"
| sleep: "sleep_thread n regs s = Some (s', r) \<Longrightarrow> task_step s s'"
| leave: "exit_task regs s = Some (s', r) \<Longrightarrow> task_step s s'"
| thread: "create_thread new stk files f s = Some (s', v) \<Longrightarrow> task_step s s'"
| process: "create_process new stk files mb f argv envp lo hi (s, m) = Some (s', m') \<Longrightarrow> task_step s s'"
| kill_thread: "kill_thread pid s = Some (s', v) \<Longrightarrow> task_step s s'"
| signal: "task_step s (fst (signal sig h s))"
| kill: "kill pid sig regs s = Some (s', r, v) \<Longrightarrow> task_step s s'"
| sigreturn: "sigreturn regs s = Some (s', r, v) \<Longrightarrow> task_step s s'"

inductive_cases task_stepE: "task_step s s'"

lemma task_step_signals_ok:
  assumes "task_step s s'" "signals_ok s"
  shows "signals_ok s'"
  using assms
proof cases
  case (timer regs r)
  have "signals_ok (s\<lparr>tick := tick s + 1\<rparr>)" using assms(2) by (simp add: signals_ok_def)
  then show ?thesis by (rule signals_ok_switch) (use timer in \<open>simp add: timer_call_def\<close>)
next
  case (kill_thread pid v)
  then show ?thesis using assms(2) unfolding kill_thread_def
    by (auto split: option.splits if_splits intro: signals_ok_remove)
qed (auto intro: inv_intros)

text \<open>
  C28. The scheduler never reads past the table of signal handlers: whatever sequence of timer ticks, sleeps, exits,
  thread and process creations, kills, handler registrations and signal returns runs, with any signal numbers passed by
  programs, every task keeps a table of 32 handlers and a recorded signal below 32.
\<close>

theorem signal_numbers_in_table:
  assumes "task_step\<^sup>*\<^sup>* s s'" "signals_ok s"
  shows "length (t_sighandle (tasks s' a)) = MAX_SIGNALS \<and> unat (t_signal (tasks s' a)) < MAX_SIGNALS"
proof -
  from assms have "signals_ok s'" by induction (auto intro: task_step_signals_ok)
  then show ?thesis by (simp add: signals_ok_def)
qed

section \<open>Delivery and return\<close>

lemma enter_task_signal:
  assumes "t_sig_queued (tasks s p)" "\<not> t_in_sig (tasks s p)" "t_sighandle (tasks s p) ! unat (t_signal (tasks s p)) \<noteq> 0"
  obtains s' where "enter_task p s = (s', To_Signal (t_sighandle (tasks s p) ! unat (t_signal (tasks s p))))"
    "current_task s' = p" "t_old_eip (tasks s' p) = t_eip (tasks s p)" "t_in_sig (tasks s' p)"
    "\<not> t_sig_queued (tasks s' p)" "cpu_dir s' = cpu_dir s"
  by (rule that [of "fst (enter_task p s)"]) (use assms in \<open>auto simp: enter_task_def Let_def\<close>)

text \<open>
  C24. A signal sent to a process with a handler reaches the handler: \<open>kill\<close> reports success, and at the next switch
  that comes to the process it is entered at its handler, with its own instruction pointer kept in \<open>old_eip\<close> and no
  second signal taken up before it returns. The page directory is not switched on that path: the handler starts in
  the address space of the process that ran before.
\<close>

theorem kill_reaches_handler:
  assumes wf: "wf_queue s (us @ c # vs)" and c: "current_task s = c" and p: "vs @ us @ [c] = xs @ p # ys" "p \<noteq> c"
    and sleep: "\<forall>x\<in>set xs. t_sleep (tasks s x) \<noteq> 0" "t_sleep (tasks s p) = 0"
    and sig: "sig < 32" "t_sighandle (tasks s p) ! unat sig = h" "h \<noteq> 0"
    and free: "\<not> t_sig_queued (tasks s p)" "\<not> t_in_sig (tasks s p)"
  shows "\<exists>s1 s2. kill (t_id (tasks s p)) sig regs s = Some (s1, Returned, 0) \<and>
    switch_task regs' s1 = Some (s2, To_Signal h) \<and> current_task s2 = p \<and> t_old_eip (tasks s2 p) = t_eip (tasks s p) \<and>
    t_in_sig (tasks s2 p) \<and> \<not> t_sig_queued (tasks s2 p) \<and> cpu_dir s2 = cpu_dir s"
proof -
  let ?s = "upd_task p (\<lambda>t. t\<lparr>t_sig_queued := True, t_signal := sig\<rparr>) s"
  have "set (vs @ us @ [c]) = set (us @ c # vs)" by auto
  then have pq: "p \<in> set (us @ c # vs)" using p(1) by (metis in_set_conv_decomp)
  then have p0: "p \<noteq> 0" using wf_queueD(7) [OF wf] by auto
  have "get_pid_task (t_id (tasks s p)) s = Some p" using get_pid_task_iff [OF wf p0] pq by simp
  then have k: "kill (t_id (tasks s p)) sig regs s = Some (?s, Returned, 0)"
    using sig free c p(2) p0 by (simp add: kill_def handle_signal_def not_le [symmetric])
  have wf1: "wf_queue ?s (us @ c # vs)" by (rule wf_queue_cong [OF wf]) auto
  have "distinct (vs @ us @ [c])" using wf_queueD(6) [OF wf] by auto
  then have nx: "p \<notin> set xs" unfolding p(1) by auto
  have sl: "\<forall>x\<in>set xs. t_sleep (tasks ?s x) \<noteq> 0" "t_sleep (tasks ?s p) = 0" using sleep by auto
  have c1: "current_task ?s = c" using c by simp
  let ?z = "(save_regs regs' ?s)\<lparr>tasks := \<lambda>b. if b \<in> set xs then (tasks (save_regs regs' ?s) b)\<lparr>t_sleep := t_sleep (tasks ?s b) - 1\<rparr>
    else tasks (save_regs regs' ?s) b\<rparr>"
  have z: "tasks ?z p = (tasks s p)\<lparr>t_sig_queued := True, t_signal := sig\<rparr>" "cpu_dir ?z = cpu_dir s"
    using nx p(2) c by (simp_all add: save_regs_def)
  obtain s2 where "enter_task p ?z = (s2, To_Signal (t_sighandle (tasks ?z p) ! unat (t_signal (tasks ?z p))))"
    "current_task s2 = p" "t_old_eip (tasks s2 p) = t_eip (tasks ?z p)" "t_in_sig (tasks s2 p)"
    "\<not> t_sig_queued (tasks s2 p)" "cpu_dir s2 = cpu_dir ?z"
    by (rule enter_task_signal [of ?z p]) (simp_all only: z, use sig free in simp_all)
  then show ?thesis using k switch_task_first [OF wf1 c1 p(1) sl, of regs'] sig unfolding z by simp
qed

text \<open>
  Returning from a signal handler does not bring the process back to where it was interrupted: \<open>sigreturn\<close> restores
  the saved instruction pointer and then switches, and the switch overwrites it with the registers of \<open>sigreturn\<close> itself.
\<close>

theorem sigreturn_forgets_eip:
  assumes "wf_queue s as"
  shows "\<exists>s' r. sigreturn (eip, esp, ebp) s = Some (s', r, 0) \<and> wf_queue s' as \<and> t_eip (tasks s' (current_task s)) = eip"
proof -
  let ?s = "upd_task (current_task s) (\<lambda>t. t\<lparr>t_in_sig := False, t_eip := t_old_eip t\<rparr>) s"
  have "wf_queue ?s as" by (rule wf_queue_cong [OF assms]) auto
  then obtain s' r where s': "switch_task (eip, esp, ebp) ?s = Some (s', r)" "wf_queue s' as" by (rule switch_task_steps)
  have c: "current_task ?s \<noteq> 0" using wf_queueD(3,7) [OF assms] by auto
  obtain ts p where d: "only_dozed (tasks (save_regs (eip, esp, ebp) ?s)) ts"
    and e: "(s', r) = enter_task p ((save_regs (eip, esp, ebp) ?s)\<lparr>tasks := ts\<rparr>)"
    by (rule switch_task_enters [OF s'(1) c])
  have f: "t_eip (tasks (fst (enter_task p z)) a) = t_eip (tasks z a)" for z a by (simp add: enter_task_def Let_def)
  have "s' = fst (enter_task p ((save_regs (eip, esp, ebp) ?s)\<lparr>tasks := ts\<rparr>))" by (simp add: e [symmetric])
  then have "t_eip (tasks s' a) = t_eip (ts a)" for a by (simp add: f)
  moreover have "\<exists>n. ts (current_task s) = (tasks (save_regs (eip, esp, ebp) ?s) (current_task s))\<lparr>t_sleep := n\<rparr>"
    using d unfolding only_dozed_def by blast
  then have "t_eip (ts (current_task s)) = eip" by (auto simp: save_regs_def)
  ultimately show ?thesis using s' by (simp add: sigreturn_def)
qed

section \<open>Concrete signals\<close>

definition demo_signals :: sched where
  "demo_signals = upd_task 0x30 (\<lambda>t. t\<lparr>t_sighandle := (t_sighandle t)[8 := 0x8000]\<rparr>) demo_sched"

lemma demo_signals_wf: "wf_queue demo_signals [0x10, 0x20, 0x30]"
  unfolding demo_signals_def by (rule wf_queue_cong [OF demo_sched_wf]) auto

lemma demo_signals_facts:
  "current_task demo_signals = 0x10" "t_sleep (tasks demo_signals 0x20) = 5" "t_sleep (tasks demo_signals 0x30) = 0"
  "t_sighandle (tasks demo_signals 0x30) ! 8 = 0x8000" "\<not> t_sig_queued (tasks demo_signals 0x30)"
  "\<not> t_in_sig (tasks demo_signals 0x30)" "t_id (tasks demo_signals 0x30) = 3"
  by (simp_all add: demo_signals_def demo_sched_def zero_task_def)

lemma demo_signals_ok: "signals_ok demo_signals"
  by (simp add: signals_ok_def demo_signals_def demo_sched_def zero_task_def)

theorem signal_numbers_in_table_witness:
  "unat (t_signal (tasks (fst (signal 9 0x7000 (fst (signal 4000 1 demo_signals)))) 0x10)) < 32"
proof -
  have "task_step\<^sup>*\<^sup>* demo_signals (fst (signal 9 0x7000 (fst (signal 4000 1 demo_signals))))"
    by (meson converse_rtranclp_into_rtranclp rtranclp.rtrancl_refl task_step.signal)
  from signal_numbers_in_table [OF this demo_signals_ok] show ?thesis by simp
qed

theorem kill_reaches_handler_witness:
  "\<exists>s1 s2. kill 3 8 (1, 2, 3) demo_signals = Some (s1, Returned, 0) \<and>
    switch_task (4, 5, 6) s1 = Some (s2, To_Signal 0x8000) \<and> t_old_eip (tasks s2 0x30) = 0x1234"
proof -
  have wf: "wf_queue demo_signals ([] @ 0x10 # [0x20, 0x30])" using demo_signals_wf by simp
  have e: "t_eip (tasks demo_signals 0x30) = 0x1234" by (simp add: demo_signals_def demo_sched_def)
  show ?thesis
    using kill_reaches_handler [OF wf, of "[0x20]" "0x30" "[0x10]" 8 "0x8000" "(1, 2, 3)" "(4, 5, 6)"]
    by (simp add: demo_signals_facts e) blast
qed

theorem sigreturn_forgets_eip_witness:
  "\<exists>s' r. sigreturn (0x99, 2, 3) demo_signals = Some (s', r, 0) \<and> t_eip (tasks s' 0x10) = 0x99"
  using sigreturn_forgets_eip [OF demo_signals_wf, of "0x99" 2 3] by (auto simp: demo_signals_facts)

end
