(* ===== verification/Interrupts.thy ===== *)
theory Interrupts
  imports Signal Paging
begin

text \<open>
  Interrupt dispatch and the fault handlers, \<open>kern/kern/isr.c\<close>, the page fault handler of \<open>kern/mem/paging.c\<close> and the
  timer, \<open>kern/kern/timer.c\<close>. The handler table holds code addresses; what the code at an address does is an
  argument of the dispatchers, since any part of the kernel may register a handler. Writes to ports are a trace.
\<close>

section \<open>Dispatch\<close>

record registers_t =
  r_ds :: u32
  r_edi :: u32
  r_esi :: u32
  r_ebp :: u32
  r_esp :: u32
  r_ebx :: u32
  r_edx :: u32
  r_ecx :: u32
  r_eax :: u32
  r_int_no :: u32
  r_err_code :: u32
  r_eip :: u32
  r_cs :: u32
  r_eflags :: u32
  r_useresp :: u32
  r_ss :: u32

type_synonym handlers = "u32 list"

type_synonym 's code = "u32 \<Rightarrow> registers_t \<Rightarrow> 's \<Rightarrow> (registers_t \<times> 's) run"

definition register_interrupt_handler :: "u8 \<Rightarrow> u32 \<Rightarrow> handlers \<Rightarrow> handlers" where
  "register_interrupt_handler n handler hs = hs[unat n := handler]"

definition unregister_interrupt_handler :: "u8 \<Rightarrow> handlers \<Rightarrow> handlers" where
  "unregister_interrupt_handler n hs = hs[unat n := 0]"

text \<open>The flag says that the handler is missing and a message is printed.\<close>

definition isr_handler :: "'s code \<Rightarrow> handlers \<Rightarrow> registers_t \<Rightarrow> 's \<Rightarrow> (registers_t \<times> 's \<times> bool) run" where
  "isr_handler run hs regs s =
    (if unat (r_int_no regs) < length hs
     then let handler = hs ! unat (r_int_no regs)
          in if handler \<noteq> 0 then and_then (run handler regs s) (\<lambda>(regs1, s1). done_with (regs1, s1, False))
             else done_with (regs, s, True)
     else Some (Inl Out_Of_Bounds))"

text \<open>\<open>irq_handler\<close> acknowledges the interrupt at the controllers before it calls the handler.\<close>

definition irq_ack :: "registers_t \<Rightarrow> (u16 \<times> u8) list" where
  "irq_ack regs = (if r_int_no regs \<ge> 40 then [(0xa0, 0x20)] else []) @ [(0x20, 0x20)]"

definition irq_handler :: "'s code \<Rightarrow> handlers \<Rightarrow> registers_t \<Rightarrow> 's \<Rightarrow> (u16 \<times> u8) list \<times> (registers_t \<times> 's) run" where
  "irq_handler run hs regs s =
    (irq_ack regs,
     if unat (r_int_no regs) < length hs
     then let handler = hs ! unat (r_int_no regs)
          in if handler \<noteq> 0 then run handler regs s else done_with (regs, s)
     else Some (Inl Out_Of_Bounds))"

section \<open>Faulting tasks\<close>

abbreviation (input) error_threshold :: u32 where "error_threshold \<equiv> 10"

definition signal_bad_task :: "u32 \<Rightarrow> u32 \<times> u32 \<times> u32 \<Rightarrow> sched \<Rightarrow> (sched \<times> resume) run" where
  "signal_bad_task sig regs s =
    (if current_task s = 0 then done_with (s, Returned)
     else let s1 = s\<lparr>isr_error_count := isr_error_count s + 2\<rparr>
          in if isr_error_count s1 \<ge> error_threshold then Some (Inl (PANIC ''Can not recover from errors, will panic''))
             else if getpid s1 = 1 then Some (Inl (PANIC ''First thread faulted, cannot end.''))
             else case handle_signal (current_task s1) sig regs s1 of None \<Rightarrow> None
                  | Some (s2, r, _) \<Rightarrow> done_with (s2, r))"

definition zero_division_fault :: "u32 \<times> u32 \<times> u32 \<Rightarrow> sched \<Rightarrow> (sched \<times> resume) run" where
  "zero_division_fault = signal_bad_task SIGFPE"

definition invalid_op_fault :: "u32 \<times> u32 \<times> u32 \<Rightarrow> sched \<Rightarrow> (sched \<times> resume) run" where
  "invalid_op_fault = signal_bad_task SIGILL"

definition gen_protect_fault :: "u32 \<times> u32 \<times> u32 \<Rightarrow> sched \<Rightarrow> (sched \<times> resume) run" where
  "gen_protect_fault = signal_bad_task SIGBUS"

definition double_fault :: "sched \<Rightarrow> (sched \<times> resume) run" where
  "double_fault s = Some (Inl (PANIC ''Welp...''))"




section \<open>The timer\<close>

abbreviation (input) PIT_FREQ :: u32 where "PIT_FREQ \<equiv> 1193180"
abbreviation (input) IRQ0 :: u8 where "IRQ0 \<equiv> 32"

text \<open>
  \<open>current_freq\<close> is a variable of its own and \<open>tick\<close> the one the scheduler reads. \<open>init_timer\<close> gives the new
  frequency, the handlers with the address of \<open>timer_call\<close> entered, and the port writes.
\<close>

definition init_timer :: "u32 \<Rightarrow> u32 \<Rightarrow> handlers \<Rightarrow> (u32 \<times> handlers \<times> (u16 \<times> u8) list) exec" where
  "init_timer timer_call_addr freq hs =
    (if freq = 0 then Inl Div_Zero
     else let divisor = PIT_FREQ div freq; l = ucast (divisor AND 0xff) :: u8; h = ucast (drop_bit 8 divisor) AND 0xff :: u8
          in Inr (freq, register_interrupt_handler IRQ0 timer_call_addr hs, [(0x43, 0x36), (0x40, l), (0x40, h)]))"

definition get_uptime :: "u32 \<Rightarrow> sched \<Rightarrow> u32 exec" where
  "get_uptime current_freq s = (if current_freq = 0 then Inl Div_Zero else Inr (tick s div current_freq))"

definition get_tick :: "sched \<Rightarrow> u32" where
  "get_tick s = tick s"

text \<open>The busy wait; \<open>reads n\<close> is the value of \<open>tick\<close> at the \<open>n\<close>-th reading. The result counts the readings that were too early.\<close>

partial_function (option) wait_ticks :: "(nat \<Rightarrow> u32) \<Rightarrow> u32 \<Rightarrow> u32 \<Rightarrow> nat \<Rightarrow> nat option" where
  "wait_ticks reads mark limit n = (if reads n - mark < limit then wait_ticks reads mark limit (Suc n) else Some n)"

definition sleep :: "u32 \<Rightarrow> u32 \<Rightarrow> (nat \<Rightarrow> u32) \<Rightarrow> sched \<Rightarrow> nat option" where
  "sleep current_freq seconds reads s = wait_ticks reads (tick s) (seconds * current_freq) 0"

definition usleep :: "u32 \<Rightarrow> u32 \<Rightarrow> (nat \<Rightarrow> u32) \<Rightarrow> sched \<Rightarrow> nat option" where
  "usleep current_freq useconds reads s = wait_ticks reads (tick s) (useconds * current_freq div 1000) 0"

section \<open>Properties\<close>




lemma wait_ticks_counts:
  "n + d = unat limit \<Longrightarrow> wait_ticks (\<lambda>n. mark + of_nat n) mark limit n = Some (unat limit)"
proof (induction d arbitrary: n)
  case 0
  then have "(of_nat n :: u32) = limit" by auto
  with 0 show ?case by (subst wait_ticks.simps) simp
next
  case (Suc d)
  have "unat (of_nat n :: u32) < unat limit" using Suc.prems unat_u32_less [of limit] by (subst unat_of_nat_lt32) auto
  then have "mark + of_nat n - mark < limit" by (simp add: word_less_nat_alt)
  with Suc.IH [of "Suc n"] Suc.prems show ?case by (subst wait_ticks.simps) auto
qed

text \<open>
  \<open>sleep\<close> ends, also when the tick counter wraps around during the wait: with the counter read once per tick it
  leaves the loop after exactly \<open>seconds * current_freq\<close> ticks, the product taken modulo \<open>2 ^ 32\<close>.
\<close>

theorem sleep_ends:
  "sleep freq seconds (\<lambda>n. tick s + of_nat n) s = Some (unat (seconds * freq))"
  using wait_ticks_counts [of 0 "unat (seconds * freq)" "seconds * freq" "tick s"] by (simp add: sleep_def)

text \<open>
  The bytes sent to the timer chip are the low 16 bits of the divisor \<open>PIT_FREQ / freq\<close>, low byte first, after the
  mode byte, and the handler of the timer interrupt is entered; frequencies below 19 Hz lose the upper bits.
\<close>

lemma init_timer_divisor:
  assumes "freq \<noteq> 0" "length hs = 256"
  shows "\<exists>hs' l h. init_timer addr freq hs = Inr (freq, hs', [(0x43, 0x36), (0x40, l), (0x40, h)]) \<and>
    unat l + 256 * unat h = (1193180 div unat freq) mod 65536 \<and> hs' ! 32 = addr \<and>
    (unat freq \<ge> 19 \<longrightarrow> unat l + 256 * unat h = 1193180 div unat freq)"
proof -
  let ?d = "PIT_FREQ div freq"
  let ?l = "ucast (?d AND 0xff) :: u8" and ?h = "ucast (drop_bit 8 ?d) AND 0xff :: u8"
  have d: "unat ?d = 1193180 div unat freq" by (simp add: unat_div_distrib)
  have m: "(255 :: u32) = mask 8" "(255 :: u8) = - 1" by (simp_all add: mask_eq_exp_minus_1)
  have "?l = ucast ?d" unfolding m by (rule bit_eqI) (auto simp: bit_simps)
  then have l: "unat ?l = unat ?d mod 256" by (simp add: unsigned_ucast_eq take_bit_eq_mod)
  have h: "unat ?h = unat ?d div 256 mod 256"
    unfolding m by (simp add: unsigned_ucast_eq take_bit_eq_mod unsigned_drop_bit_eq drop_bit_eq_div unat_div_distrib)
  have s: "unat ?l + 256 * unat ?h = unat ?d mod 65536" unfolding l h by (simp add: mod_mult2_eq [of _ 256 256, simplified])
  have "1193180 div unat freq \<le> 1193180 div 19" if "unat freq \<ge> 19" using that by (rule div_le_mono2 [rotated]) simp
  then have "1193180 div unat freq < 65536" if "unat freq \<ge> 19" using that by fastforce
  then show ?thesis
    using assms s unfolding d by (auto simp: init_timer_def Let_def register_interrupt_handler_def)
qed

text \<open>An entered handler is what both dispatchers call for its vector; the other vectors are not touched.\<close>

lemma vector_bounds: "unat (ucast (n :: u8) :: u32) = unat n" "unat (n :: u8) < 256"
proof -
  show "unat n < 256" using unsigned_less [of n, where ?'a = nat] by simp
  then show "unat (ucast n :: u32) = unat n" by (simp add: unsigned_ucast_eq take_bit_nat_eq_self)
qed

lemma isr_handler_registered:
  assumes "length hs = 256" "r_int_no regs = ucast n"
  shows "isr_handler run (register_interrupt_handler m h hs) regs s =
    (if n = m then if h \<noteq> 0 then and_then (run h regs s) (\<lambda>(regs1, s1). done_with (regs1, s1, False)) else done_with (regs, s, True)
     else isr_handler run hs regs s)"
  using assms by (auto simp: isr_handler_def register_interrupt_handler_def Let_def nth_list_update vector_bounds word_unat_eq_iff)

lemma irq_handler_registered:
  assumes "length hs = 256" "r_int_no regs = ucast n"
  shows "irq_handler run (register_interrupt_handler m h hs) regs s =
    (if n = m then (irq_ack regs, if h \<noteq> 0 then run h regs s else done_with (regs, s)) else irq_handler run hs regs s)"
  using assms by (auto simp: irq_handler_def register_interrupt_handler_def Let_def nth_list_update vector_bounds word_unat_eq_iff)

lemma unregister_is_register_0: "unregister_interrupt_handler n hs = register_interrupt_handler n 0 hs"
  by (simp add: unregister_interrupt_handler_def register_interrupt_handler_def)

end
