(* ===== verification/Init_Tables.thy ===== *)
theory Init_Tables
  imports Interrupts
begin

text \<open>
  The descriptor tables, \<open>kern/kern/init_tables.c\<close>. Loading the table registers is done in assembly and not modelled;
  the addresses of the stubs \<open>isr0\<close> to \<open>isr80\<close>, which are assembly too, are arguments, as is the address of the task
  state segment.
\<close>

section \<open>Entries\<close>

record gdt_entry_t =
  g_limit_low :: u16
  g_base_low :: u16
  g_base_middle :: u8
  g_access :: u8
  g_granularity :: u8
  g_base_high :: u8

record idt_entry_t =
  i_base_low :: u16
  i_sel :: u16
  i_always0 :: u8
  i_flags :: u8
  i_base_high :: u16

record tss_entry_t =
  ss0 :: u32
  esp0 :: u32
  tss_cs :: u32
  tss_ss :: u32
  tss_ds :: u32
  tss_es :: u32
  tss_fs :: u32
  tss_gs :: u32

definition gdt_entry :: "u32 \<Rightarrow> u32 \<Rightarrow> u8 \<Rightarrow> u8 \<Rightarrow> gdt_entry_t" where
  "gdt_entry base limit access gran =
    \<lparr>g_limit_low = ucast (limit AND 0xffff), g_base_low = ucast (base AND 0xffff),
     g_base_middle = ucast (drop_bit 16 base AND 0xff), g_access = access,
     g_granularity = ucast (drop_bit 16 limit AND 0x0f) OR (gran AND 0xf0), g_base_high = ucast (drop_bit 24 base AND 0xff)\<rparr>"

definition gdt_set_gate :: "nat \<Rightarrow> u32 \<Rightarrow> u32 \<Rightarrow> u8 \<Rightarrow> u8 \<Rightarrow> gdt_entry_t list \<Rightarrow> gdt_entry_t list exec" where
  "gdt_set_gate num base limit access gran gdt =
    (if num < length gdt then Inr (gdt[num := gdt_entry base limit access gran]) else Inl Out_Of_Bounds)"

definition idt_set_gate :: "u8 \<Rightarrow> u32 \<Rightarrow> u16 \<Rightarrow> u8 \<Rightarrow> idt_entry_t list \<Rightarrow> idt_entry_t list" where
  "idt_set_gate num base sel flags idt =
    idt[unat num := \<lparr>i_base_low = ucast (base AND 0xffff), i_sel = sel, i_always0 = 0, i_flags = flags,
      i_base_high = ucast (drop_bit 16 base AND 0xffff)\<rparr>]"

section \<open>Setting up\<close>

text \<open>\<open>sizeof( tss_entry )\<close> is 104.\<close>

definition write_tss :: "u32 \<Rightarrow> nat \<Rightarrow> u16 \<Rightarrow> u32 \<Rightarrow> gdt_entry_t list \<Rightarrow> (gdt_entry_t list \<times> tss_entry_t) exec" where
  "write_tss tss_addr num ss0' esp0' gdt =
    (case gdt_set_gate num tss_addr (tss_addr + 104) 0xe9 0 gdt of Inl e \<Rightarrow> Inl e
     | Inr gdt1 \<Rightarrow> Inr (gdt1, \<lparr>ss0 = ucast ss0', esp0 = esp0', tss_cs = 0x0b, tss_ss = 0x13, tss_ds = 0x13, tss_es = 0x13,
         tss_fs = 0x13, tss_gs = 0x13\<rparr>))"

definition set_kernel_stack :: "u32 \<Rightarrow> tss_entry_t \<Rightarrow> tss_entry_t" where
  "set_kernel_stack stack tss = tss\<lparr>esp0 := stack\<rparr>"

definition exec_bind :: "'a exec \<Rightarrow> ('a \<Rightarrow> 'b exec) \<Rightarrow> 'b exec" where
  "exec_bind r f = (case r of Inl e \<Rightarrow> Inl e | Inr x \<Rightarrow> f x)"

definition init_gdt :: "u32 \<Rightarrow> gdt_entry_t list \<Rightarrow> (gdt_entry_t list \<times> tss_entry_t) exec" where
  "init_gdt tss_addr gdt0 =
    exec_bind (gdt_set_gate 0 0 0 0 0 gdt0) (\<lambda>gdt1.
    exec_bind (gdt_set_gate 1 0 0xffffffff 0x9a 0xcf gdt1) (\<lambda>gdt2.
    exec_bind (gdt_set_gate 2 0 0xffffffff 0x92 0xcf gdt2) (\<lambda>gdt3.
    exec_bind (gdt_set_gate 3 0 0xffffffff 0xfa 0xcf gdt3) (\<lambda>gdt4.
    exec_bind (gdt_set_gate 4 0 0xffffffff 0xf2 0xcf gdt4) (\<lambda>gdt5.
    write_tss tss_addr 5 0x10 0 gdt5)))))"

definition zero_idt :: idt_entry_t where
  "zero_idt = \<lparr>i_base_low = 0, i_sel = 0, i_always0 = 0, i_flags = 0, i_base_high = 0\<rparr>"

text \<open>
  \<open>init_idt\<close> with the stub addresses \<open>isr n\<close> and \<open>irq n\<close>: the port writes that move the interrupts of the two controllers
  to the vectors 32 to 47, and the gates in the order of the source.
\<close>

definition pic_remap :: "(u16 \<times> u8) list" where
  "pic_remap = [(0x20, 0x11), (0xa0, 0x11), (0x21, 0x20), (0xa1, 0x28), (0x21, 0x04), (0xa1, 0x02), (0x21, 0x01), (0xa1, 0x01),
     (0x21, 0x0), (0xa1, 0x0)]"

definition init_idt :: "(nat \<Rightarrow> u32) \<Rightarrow> (nat \<Rightarrow> u32) \<Rightarrow> idt_entry_t list \<times> (u16 \<times> u8) list" where
  "init_idt isr irq =
    (let idt0 = replicate 256 zero_idt;
         idt1 = fold (\<lambda>n. idt_set_gate (of_nat n) (isr n) 0x08 0x8e) [0..<32] idt0;
         idt2 = fold (\<lambda>n. idt_set_gate (of_nat (32 + n)) (irq n) 0x08 0x8e) [0..<16] idt1;
         idt3 = idt_set_gate 0x30 (isr 48) 0x08 0x8e idt2;
         idt4 = idt_set_gate 0x50 (isr 80) 0x08 (0x8e OR 0x60) idt3
     in (idt4, pic_remap))"

text \<open>\<open>init_tables\<close> with the addresses of the fault handlers and of \<open>dump_registers\<close>.\<close>

definition init_tables :: "u32 \<Rightarrow> (nat \<Rightarrow> u32) \<Rightarrow> (nat \<Rightarrow> u32) \<Rightarrow> u32 \<times> u32 \<times> u32 \<times> u32 \<times> u32 \<Rightarrow> gdt_entry_t list \<Rightarrow>
    (gdt_entry_t list \<times> tss_entry_t \<times> idt_entry_t list \<times> handlers \<times> (u16 \<times> u8) list) exec" where
  "init_tables tss_addr isr irq addrs gdt0 =
    exec_bind (init_gdt tss_addr gdt0) (\<lambda>(gdt, tss).
      let (idt, outs) = init_idt isr irq; (zero_div, inv_op, dbl, gen_prot, dump) = addrs;
          hs0 = replicate 256 0;
          hs1 = register_interrupt_handler 0x0 zero_div hs0;
          hs2 = register_interrupt_handler 0x6 inv_op hs1;
          hs3 = register_interrupt_handler 0x8 dbl hs2;
          hs4 = register_interrupt_handler 0xd gen_prot hs3;
          hs5 = register_interrupt_handler 0x30 dump hs4
      in Inr (gdt, tss, idt, hs5, outs))"

section \<open>Properties\<close>

definition gate_target :: "idt_entry_t \<Rightarrow> u32" where
  "gate_target e = ucast (i_base_low e) OR push_bit 16 (ucast (i_base_high e))"

definition gate_ring :: "idt_entry_t \<Rightarrow> nat" where
  "gate_ring e = unat (drop_bit 5 (i_flags e)) mod 4"

definition gate_present :: "idt_entry_t \<Rightarrow> bool" where
  "gate_present e \<longleftrightarrow> bit (i_flags e) 7"

definition idt_entry :: "u32 \<Rightarrow> u16 \<Rightarrow> u8 \<Rightarrow> idt_entry_t" where
  "idt_entry base sel flags = \<lparr>i_base_low = ucast (base AND 0xffff), i_sel = sel, i_always0 = 0, i_flags = flags,
     i_base_high = ucast (drop_bit 16 base AND 0xffff)\<rparr>"

lemma idt_set_gate_alt: "idt_set_gate num base sel flags idt = idt[unat num := idt_entry base sel flags]"
  by (simp add: idt_set_gate_def idt_entry_def)

lemma gate_target_entry [simp]: "gate_target (idt_entry base sel flags) = base"
proof -
  have m: "(65535 :: u32) = mask 16" by (simp add: mask_eq_exp_minus_1)
  show ?thesis unfolding gate_target_def idt_entry_def m by (rule bit_eqI) (auto simp: bit_simps)
qed

lemma gate_fields [simp]:
  "gate_ring (idt_entry base sel 0x8e) = 0" "gate_ring (idt_entry base sel 0xee) = 3"
  "gate_present (idt_entry base sel 0x8e)" "gate_present (idt_entry base sel 0xee)" "\<not> gate_present zero_idt"
  by (simp_all add: gate_ring_def gate_present_def idt_entry_def zero_idt_def)

lemma fold_gates:
  assumes "k + m \<le> 256" "length idt = 256"
  shows "length (fold (\<lambda>n. idt_set_gate (of_nat (k + n)) (f n) sel flags) [0..<m] idt) = 256 \<and>
    (\<forall>v < 256. fold (\<lambda>n. idt_set_gate (of_nat (k + n)) (f n) sel flags) [0..<m] idt ! v =
      (if k \<le> v \<and> v < k + m then idt_entry (f (v - k)) sel flags else idt ! v))"
  using assms(1)
proof (induction m)
  case (Suc m)
  have "unat (of_nat (k + m) :: u8) = k + m"
    using Suc.prems by (simp del: of_nat_add add: unat_of_nat take_bit_nat_eq_self_iff)
  with Suc show ?case by (auto simp del: of_nat_add simp: idt_set_gate_alt nth_list_update)
qed (use assms(2) in auto)

text \<open>
  The interrupt table of \<open>init_idt\<close>: the vectors 0 to 31 lead to the exception stubs, 32 to 47 to the interrupt
  stubs, 48 to the register dump and 80 to the system call stub; only the last one may be raised by programs, and
  all other vectors are not present.
\<close>

theorem init_idt_gates:
  "map (\<lambda>e. (gate_present e, gate_target e, gate_ring e)) (fst (init_idt isr irq)) =
    map (\<lambda>v. if v < 32 then (True, isr v, 0) else if v < 48 then (True, irq (v - 32), 0)
             else if v = 48 then (True, isr 48, 0) else if v = 80 then (True, isr 80, 3) else (False, 0, 0)) [0..<256]"
proof -
  note a = fold_gates [of 0 32 "replicate 256 zero_idt" isr "0x08" "0x8e", simplified]
  let ?idt1 = "fold (\<lambda>n. idt_set_gate (of_nat n) (isr n) 0x08 0x8e) [0..<32] (replicate 256 zero_idt)"
  note b = fold_gates [of 32 16 ?idt1 irq "0x08" "0x8e"]
  have z: "gate_target zero_idt = 0" "gate_ring zero_idt = 0" by (simp_all add: gate_target_def gate_ring_def zero_idt_def)
  show ?thesis
    by (rule nth_equalityI) (use a b in \<open>simp_all add: init_idt_def Let_def idt_set_gate_alt nth_list_update z\<close>)
qed

text \<open>The table has five entries, the task state segment is written to a sixth.\<close>

lemma init_gdt_overruns: "length gdt0 = 5 \<Longrightarrow> init_tables tss_addr isr irq addrs gdt0 = Inl Out_Of_Bounds"
  by (simp add: init_tables_def init_gdt_def exec_bind_def write_tss_def gdt_set_gate_def)

text \<open>A segment descriptor keeps the base; of the limit it keeps the low 20 bits.\<close>

lemma gdt_entry_base:
  "(ucast (g_base_low (gdt_entry base limit access gran)) :: u32) OR push_bit 16 (ucast (g_base_middle (gdt_entry base limit access gran))) OR
    push_bit 24 (ucast (g_base_high (gdt_entry base limit access gran))) = base"
proof -
  have m: "(65535 :: u32) = mask 16" "(255 :: u32) = mask 8" by (simp_all add: mask_eq_exp_minus_1)
  show ?thesis unfolding gdt_entry_def m
  proof (simp, rule bit_eqI)
    fix n
    assume "possible_bit TYPE(u32) n"
    then consider "n < 16" | "16 \<le> n" "n < 24" | "24 \<le> n" "n < 32" by fastforce
    then show "bit ((ucast (ucast (base AND mask 16) :: u16) :: u32) OR push_bit 16 (ucast (ucast (drop_bit 16 base AND mask 8) :: u8)) OR
      push_bit 24 (ucast (ucast (drop_bit 24 base AND mask 8) :: u8))) n = bit base n"
      by cases (auto simp: bit_simps)
  qed
qed

end
