(* ===== verification/Syscall.thy ===== *)
theory Syscall
  imports Interrupts
begin

text \<open>
  System calls, \<open>kern/kern/syscall.c\<close>, and the stubs of programs, \<open>user/lib/syscall.c\<close> and \<open>kern/modules/lib/syscall.c\<close>.
  A stub loads the number and up to four arguments into registers and raises interrupt 0x50; the handler calls the
  function at that place of the table. What the functions do is an argument, by name.
\<close>

section \<open>The kernel side\<close>

definition syscalls :: "string list" where
  "syscalls = [''cls'', ''exit'', ''open'', ''close'', ''read'', ''write'', ''lseek'', ''lstat'', ''readdir'', ''mkdir'', ''chdir'',
     ''chroot'', ''mount'', ''unmount'', ''getpid'', ''fexecve'', ''create_thread'', ''wait'', ''kill'', ''send_msg'', ''get_msg'',
     ''kputs'', ''load_module'', ''kexport_symbol'', ''kget_symbol'', ''sbrk'', ''signal'']"

text \<open>\<open>sizeof( syscalls )\<close> is the size of the table in bytes, four for each pointer.\<close>

definition NUM_SYSCALLS :: u32 where
  "NUM_SYSCALLS = of_nat (4 * length syscalls)"

type_synonym 's fn_table = "string \<Rightarrow> u32 list \<Rightarrow> 's \<Rightarrow> (u32 \<times> 's) run"

text \<open>The five words are pushed last argument first, so \<open>ebx\<close> is the first parameter.\<close>

definition syscall_handler :: "'s fn_table \<Rightarrow> registers_t \<Rightarrow> 's \<Rightarrow> (registers_t \<times> 's) run" where
  "syscall_handler fns regs s =
    (if r_eax regs \<ge> NUM_SYSCALLS then done_with (regs, s)
     else if unat (r_eax regs) < length syscalls
     then and_then (fns (syscalls ! unat (r_eax regs)) [r_ebx regs, r_ecx regs, r_edx regs, r_esi regs, r_edi regs] s)
            (\<lambda>(ret, s1). done_with (regs\<lparr>r_eax := ret\<rparr>, s1))
     else Some (Inl Out_Of_Bounds))"

definition init_syscalls :: "u32 \<Rightarrow> handlers \<Rightarrow> handlers" where
  "init_syscalls syscall_handler_addr hs = register_interrupt_handler 0x50 syscall_handler_addr hs"

section \<open>The stubs\<close>

text \<open>\<open>DEFN_SYSCALL0\<close> to \<open>DEFN_SYSCALL4\<close>: the registers at the interrupt, for a list of zero to four arguments.\<close>

definition defn_syscall :: "u32 \<Rightarrow> u32 list \<Rightarrow> registers_t \<Rightarrow> registers_t" where
  "defn_syscall num ps regs =
    (case ps of
       [] \<Rightarrow> regs\<lparr>r_eax := num\<rparr>
     | [p1] \<Rightarrow> regs\<lparr>r_eax := num, r_ebx := p1\<rparr>
     | [p1, p2] \<Rightarrow> regs\<lparr>r_eax := num, r_ebx := p1, r_ecx := p2\<rparr>
     | [p1, p2, p3] \<Rightarrow> regs\<lparr>r_eax := num, r_ebx := p1, r_ecx := p2, r_edx := p3\<rparr>
     | p1 # p2 # p3 # p4 # _ \<Rightarrow> regs\<lparr>r_eax := num, r_ebx := p1, r_ecx := p2, r_edx := p3, r_esi := p4\<rparr>)"

text \<open>Name, number and number of parameters of each stub.\<close>

definition kernel_stubs :: "(string \<times> nat \<times> nat) list" where
  "kernel_stubs =
    [(''cls'', 0, 0), (''exit'', 1, 1), (''open'', 2, 2), (''close'', 3, 1), (''read'', 4, 3), (''write'', 5, 3), (''lseek'', 6, 3),
     (''lstat'', 7, 2), (''getdents'', 8, 3), (''mkdir'', 9, 2), (''chdir'', 10, 1), (''chroot'', 11, 1), (''mount'', 12, 4),
     (''unmount'', 13, 2), (''getpid'', 14, 0), (''fexecve'', 15, 3), (''thread'', 16, 1), (''wait'', 17, 1), (''kill'', 18, 2),
     (''send_msg'', 19, 2), (''get_msg'', 20, 2), (''kputs'', 21, 1), (''load_module'', 22, 2), (''kexport_symbol'', 23, 2),
     (''kget_symbol'', 24, 1), (''sbrk'', 25, 1), (''signal'', 26, 2), (''sigreturn'', 27, 1)]"

definition user_stubs :: "(string \<times> nat \<times> nat) list" where
  "user_stubs =
    [(''cls'', 0, 0), (''exit'', 1, 1), (''open'', 2, 2), (''close'', 3, 1), (''read'', 4, 3), (''write'', 5, 3), (''lseek'', 6, 3),
     (''lstat'', 7, 2), (''fdopendir_c'', 8, 2), (''readdir_c'', 9, 3), (''mkdir'', 10, 2), (''chdir'', 11, 1), (''chroot'', 12, 1),
     (''mount'', 13, 4), (''unmount'', 14, 2), (''getpid'', 15, 0), (''fspawn'', 16, 3), (''thread'', 17, 1), (''wait'', 18, 1),
     (''kill'', 19, 2), (''send_msg'', 20, 2), (''get_msg'', 21, 2), (''kputs'', 22, 1), (''load_module'', 23, 2), (''sbrk'', 26, 1),
     (''signal'', 27, 2), (''sigreturn'', 28, 1)]"

definition module_stubs :: "(string \<times> nat \<times> nat) list" where
  "module_stubs =
    [(''cls'', 0, 0), (''exit'', 1, 1), (''open'', 2, 2), (''close'', 3, 1), (''read'', 4, 3), (''write'', 5, 3), (''lseek'', 6, 3),
     (''lstat'', 7, 2), (''fdopendir_c'', 8, 2), (''readdir_c'', 9, 3), (''mkdir'', 10, 2), (''chdir'', 11, 1), (''chroot'', 12, 1),
     (''mount'', 13, 4), (''unmount'', 14, 2), (''getpid'', 15, 0), (''fexecve'', 16, 3), (''thread'', 17, 1), (''wait'', 18, 1),
     (''kill'', 19, 1), (''send_msg'', 20, 2), (''get_msg'', 21, 2), (''kputs'', 22, 1), (''load_module'', 23, 2),
     (''kexport_symbol'', 24, 2), (''kget_symbol'', 25, 1)]"

text \<open>The function of the kernel a stub ends up in; past the table there is none.\<close>

definition reaches :: "string \<times> nat \<times> nat \<Rightarrow> string option" where
  "reaches stub = (if fst (snd stub) < length syscalls then Some (syscalls ! fst (snd stub)) else None)"

section \<open>Properties\<close>

lemma syscalls_length: "length syscalls = 27"
  by (simp add: syscalls_def)

text \<open>The registers a stub sets are the parameters the function gets, and its result is what the stub returns.\<close>

lemma syscall_passes_arguments:
  assumes "num < 27" "length ps \<le> 4" "fns (syscalls ! num) args s = done_with (ret, s')"
    and "args = [r_ebx r, r_ecx r, r_edx r, r_esi r, r_edi r]" "r = defn_syscall (of_nat num) ps regs"
  shows "syscall_handler fns r s = done_with (r\<lparr>r_eax := ret\<rparr>, s') \<and> take (length ps) args = ps"
proof -
  have n: "r_eax r = of_nat num" using assms(5) by (simp add: defn_syscall_def split: list.splits)
  have u: "unat (of_nat num :: u32) = num" using assms(1) by simp
  have lt: "\<not> (of_nat num :: u32) \<ge> NUM_SYSCALLS"
    using assms(1) by (simp add: NUM_SYSCALLS_def syscalls_length word_le_nat_alt)
  have "syscall_handler fns r s = and_then (fns (syscalls ! num) args s) (\<lambda>(ret, s1). done_with (r\<lparr>r_eax := ret\<rparr>, s1))"
    using assms(1) by (simp add: syscall_handler_def n lt u syscalls_length assms(4))
  moreover have "take (length ps) args = ps"
    unfolding assms(4,5) using assms(2) by (auto simp: defn_syscall_def split: list.splits)
  ultimately show ?thesis using assms(3) by simp
qed

text \<open>
  The dispatch of system calls: below 27 the numbered function runs on the five argument registers and its result
  is returned in \<open>eax\<close>; from 108 on the call is ignored; the 81 numbers between them pass the check, because it
  compares with the size of the table in bytes, and a word behind the table is taken for a function.
\<close>

theorem syscall_dispatch:
  "syscall_handler fns regs s =
    (if unat (r_eax regs) < 27
     then and_then (fns (syscalls ! unat (r_eax regs)) [r_ebx regs, r_ecx regs, r_edx regs, r_esi regs, r_edi regs] s)
            (\<lambda>(ret, s1). done_with (regs\<lparr>r_eax := ret\<rparr>, s1))
     else if unat (r_eax regs) < 108 then Some (Inl Out_Of_Bounds) else done_with (regs, s))"
  by (simp add: syscall_handler_def NUM_SYSCALLS_def syscalls_length word_le_nat_alt)

text \<open>
  The library of the programs numbers the system calls differently from the kernel: only the first eight of its
  stubs reach the function they are named after, the later ones reach another one (\<open>mkdir\<close> changes the directory,
  \<open>kill\<close> sends a message) or run past the table; the stubs of the kernel itself agree, but for \<open>getdents\<close>, the
  renamed \<open>thread\<close>, and \<open>sigreturn\<close>, which has no entry.
\<close>

theorem user_stubs_misnumbered:
  "map fst (filter (\<lambda>st. reaches st = Some (fst st)) user_stubs) = take 8 syscalls \<and>
   map fst (filter (\<lambda>st. reaches st = Some (fst st)) module_stubs) = take 8 syscalls \<and>
   map (\<lambda>st. (fst st, reaches st)) (filter (\<lambda>st. reaches st \<noteq> Some (fst st)) kernel_stubs) =
     [(''getdents'', Some ''readdir''), (''thread'', Some ''create_thread''), (''sigreturn'', None)] \<and>
   reaches (user_stubs ! 10) = Some ''chdir'' \<and> reaches (user_stubs ! 19) = Some ''send_msg'' \<and>
   reaches (user_stubs ! 26) = None"
  by code_simp

end
