(* ===== verification/Fs.thy ===== *)
theory Fs
  imports Alloc Chains
begin

text \<open>
  The vocabulary of the file layer, \<open>kern/include/fs.h\<close>: nodes, descriptors, directory entries, file information and
  the table of functions a file system provides, and the linked list of \<open>kern/lib/llist.c\<close>.

  Structures live in stores by address, apart from the byte memory that holds file contents and the buffers of the
  callers; names are strings, which \<open>strcmp\<close> compares for equality.
\<close>

section \<open>Constants\<close>

abbreviation (input) FS_FILE :: u32 where "FS_FILE \<equiv> 0"
abbreviation (input) FS_DIR :: u32 where "FS_DIR \<equiv> 1"
abbreviation (input) FS_CHAR_D :: u32 where "FS_CHAR_D \<equiv> 2"

abbreviation (input) O_RDONLY :: u32 where "O_RDONLY \<equiv> 1"
abbreviation (input) O_WRONLY :: u32 where "O_WRONLY \<equiv> 2"
abbreviation (input) O_RDWR :: u32 where "O_RDWR \<equiv> 4"
abbreviation (input) O_EXEC :: u32 where "O_EXEC \<equiv> 8"
abbreviation (input) O_CREAT :: u32 where "O_CREAT \<equiv> 64"

abbreviation (input) P_READ :: u32 where "P_READ \<equiv> 4"
abbreviation (input) P_WRITE :: u32 where "P_WRITE \<equiv> 2"
abbreviation (input) P_EXEC :: u32 where "P_EXEC \<equiv> 1"
abbreviation (input) P_USHIFT :: nat where "P_USHIFT \<equiv> 6"
abbreviation (input) P_GSHIFT :: nat where "P_GSHIFT \<equiv> 3"
abbreviation (input) P_ESHIFT :: nat where "P_ESHIFT \<equiv> 0"

abbreviation (input) FOP_SET :: u32 where "FOP_SET \<equiv> 1"
abbreviation (input) FVAR_MOUNT_ID :: u32 where "FVAR_MOUNT_ID \<equiv> 0"
abbreviation (input) MAX_FILES :: nat where "MAX_FILES \<equiv> 32"

section \<open>Structures\<close>

record file_node_t =
  n_inode :: u32
  n_fs :: u32

record file_descript_t =
  fd_file :: u32
  r_offset :: u32
  w_offset :: u32
  d_offset :: u32

record dirent =
  de_inode :: u32
  de_size :: u16
  de_name_len :: u16
  de_name :: string

record file_info_t =
  fi_type :: u32
  fi_name :: string
  fi_mask :: u32
  fi_uid :: u32
  fi_gid :: u32
  fi_time :: u32
  fi_inode :: u32
  fi_size :: u32
  fi_links :: u32
  fi_flags :: u32
  fi_fs :: u32
  fi_mount_id :: u32

record vfs_stat =
  st_type :: u32
  st_uid :: u32
  st_gid :: u32
  st_time :: u32
  st_size :: u32
  st_mask :: u32

definition zero_info :: file_info_t where
  "zero_info = \<lparr>fi_type = 0, fi_name = [], fi_mask = 0, fi_uid = 0, fi_gid = 0, fi_time = 0, fi_inode = 0, fi_size = 0,
     fi_links = 0, fi_flags = 0, fi_fs = 0, fi_mount_id = 0\<rparr>"

text \<open>
  The functions of a file system over its state \<open>'s\<close>. A function that fills a buffer returns what it wrote, or \<open>None\<close>
  when it left the buffer alone.
\<close>

record 's file_funcs_t =
  f_pread :: "file_node_t \<Rightarrow> u32 \<Rightarrow> u32 \<Rightarrow> u32 \<Rightarrow> 's \<Rightarrow> ('s \<times> u32) run"
  f_pwrite :: "file_node_t \<Rightarrow> u32 \<Rightarrow> u32 \<Rightarrow> u32 \<Rightarrow> 's \<Rightarrow> ('s \<times> u32) run"
  f_mkdir :: "file_node_t \<Rightarrow> string \<Rightarrow> u32 \<Rightarrow> 's \<Rightarrow> ('s \<times> int) run"
  f_mknod :: "file_node_t \<Rightarrow> string \<Rightarrow> u32 \<Rightarrow> u32 \<Rightarrow> 's \<Rightarrow> ('s \<times> int) run"
  f_unlink :: "file_node_t \<Rightarrow> 's \<Rightarrow> ('s \<times> int) run"
  f_readdir :: "file_node_t \<Rightarrow> u32 \<Rightarrow> 's \<Rightarrow> (dirent option \<times> int) run"
  f_open :: "file_node_t \<Rightarrow> string \<Rightarrow> u32 \<Rightarrow> 's \<Rightarrow> ('s \<times> int) run"
  f_close :: "file_node_t \<Rightarrow> 's \<Rightarrow> ('s \<times> int) run"
  f_get_info :: "file_node_t \<Rightarrow> 's \<Rightarrow> (file_info_t option \<times> int) run"
  f_callback :: "file_node_t \<Rightarrow> u32 \<Rightarrow> u32 \<Rightarrow> u32 \<Rightarrow> 's \<Rightarrow> ('s \<times> int) run"

section \<open>Linked lists\<close>

record llist_node_t =
  l_next :: u32
  l_prev :: u32
  l_data :: u32
  l_val :: u32

type_synonym llist = "u32 \<Rightarrow> llist_node_t"

definition l_last :: "llist \<Rightarrow> u32 \<Rightarrow> u32 option" where
  "l_last ns node = last_link (\<lambda>a. l_next (ns a)) node"

definition l_first :: "llist \<Rightarrow> u32 \<Rightarrow> u32 option" where
  "l_first ns node = last_link (\<lambda>a. l_prev (ns a)) node"

text \<open>
  \<open>knew( node )\<close> with a pointer \<open>node\<close> clears four bytes, that is \<open>next\<close> only; \<open>new\<close> is the block it got. The data goes
  into the node that was last, not into the new one.
\<close>

definition l_add_node_end :: "u32 \<Rightarrow> u32 \<Rightarrow> u32 \<Rightarrow> llist \<Rightarrow> (llist \<times> u32) option" where
  "l_add_node_end new node data ns =
    (let ns0 = ns(new := (ns new)\<lparr>l_next := 0\<rparr>) in
     if node = 0 then Some (ns0, new)
     else case l_last ns node of None \<Rightarrow> None
       | Some move \<Rightarrow>
           let ns1 = ns0(move := (ns0 move)\<lparr>l_next := new\<rparr>);
               ns2 = ns1(new := (ns1 new)\<lparr>l_prev := move\<rparr>)
           in Some (ns2(move := (ns2 move)\<lparr>l_data := data\<rparr>), new))"

definition l_add_node_begin :: "u32 \<Rightarrow> u32 \<Rightarrow> u32 \<Rightarrow> llist \<Rightarrow> (llist \<times> u32) option" where
  "l_add_node_begin new node data ns =
    (let ns0 = ns(new := (ns new)\<lparr>l_next := 0\<rparr>) in
     if node = 0 then Some (ns0, new)
     else case l_first ns node of None \<Rightarrow> None
       | Some move \<Rightarrow>
           let ns1 = ns0(move := (ns0 move)\<lparr>l_prev := new\<rparr>);
               ns2 = ns1(new := (ns1 new)\<lparr>l_next := move\<rparr>)
           in Some (ns2(move := (ns2 move)\<lparr>l_data := data\<rparr>), 0))"

end
