(* ===== verification/Ramfs.thy ===== *)
theory Ramfs
  imports Fs
begin

text \<open>
  The memory file system, \<open>kern/fs/ramfs.c\<close>. A file system is a list of file headers, the data of a directory a list of
  entries and the data of a file a block of the byte memory. Blocks come from \<open>kmalloc\<close>: \<open>blk n\<close> is the address the
  \<open>n\<close>-th request got, \<open>taken\<close> counts the requests.

  Four stores go past their block: the name of a new file is copied into an array of headers that has one element,
  the name of an entry is one byte longer than its block, a write copies one byte too many, and a name of 256 characters
  or more does not fit into the structure \<open>readdir\<close> copies it to. The first and the third
  are performed on the byte memory, the second lands behind a block that only holds the name, the last is a fault.
  Headers and entries are kept by value, apart from the byte memory: what such a store does to another header or entry
  that lies in its way is not followed.
\<close>

section \<open>State\<close>

record ramfs_dirent_t =
  d_inode :: u32
  d_size :: u32
  d_name_len :: u32
  d_name :: string
  d_next :: u32

record ramfs_file_header_t =
  h_type :: u32
  h_name :: string
  h_mask :: u32
  h_uid :: u32
  h_gid :: u32
  h_time :: u32
  h_inode :: u32
  h_size :: u32
  h_links :: u32
  h_flags :: u32
  h_mount_id :: u32
  h_parent :: "file_node_t option"
  h_next :: u32
  h_data :: u32

record ramfs =
  headers :: "u32 \<Rightarrow> ramfs_file_header_t"
  entries :: "u32 \<Rightarrow> ramfs_dirent_t"
  bytes :: mem
  ramfs_files :: u32
  ramfs_i_count :: u32
  blk :: "nat \<Rightarrow> u32"
  taken :: nat

definition zero_header :: ramfs_file_header_t where
  "zero_header = \<lparr>h_type = 0, h_name = [], h_mask = 0, h_uid = 0, h_gid = 0, h_time = 0, h_inode = 0, h_size = 0, h_links = 0,
     h_flags = 0, h_mount_id = 0, h_parent = None, h_next = 0, h_data = 0\<rparr>"

definition upd_header :: "u32 \<Rightarrow> (ramfs_file_header_t \<Rightarrow> ramfs_file_header_t) \<Rightarrow> ramfs \<Rightarrow> ramfs" where
  "upd_header p f r = r\<lparr>headers := (headers r)(p := f (headers r p))\<rparr>"

definition upd_entry :: "u32 \<Rightarrow> (ramfs_dirent_t \<Rightarrow> ramfs_dirent_t) \<Rightarrow> ramfs \<Rightarrow> ramfs" where
  "upd_entry p f r = r\<lparr>entries := (entries r)(p := f (entries r p))\<rparr>"

text \<open>\<open>init_ramfs\<close>: the file system structure itself holds constants; the result is the state and \<open>i_root\<close>.\<close>

definition init_ramfs :: "ramfs \<Rightarrow> ramfs \<times> u32" where
  "init_ramfs r =
    (let root = blk r (taken r + 2);
         h = zero_header\<lparr>h_name := ''root'', h_type := FS_DIR, h_mask := 0x1ff, h_inode := 1, h_size := 0, h_links := 1\<rparr>
     in (r\<lparr>taken := taken r + 3, headers := (headers r)(root := h), ramfs_files := root, ramfs_i_count := 2\<rparr>, h_inode h))"

section \<open>Lookup\<close>

definition ramfs_get_file_h :: "u32 \<Rightarrow> ramfs \<Rightarrow> u32 option" where
  "ramfs_get_file_h inode r = find_link (\<lambda>a. h_next (headers r a)) (\<lambda>a. h_inode (headers r a) = inode) (ramfs_files r)"

text \<open>The header of a node, for the operations that read through the pointer without a test.\<close>

definition file_h :: "file_node_t \<Rightarrow> ramfs \<Rightarrow> u32 run" where
  "file_h node r =
    (case ramfs_get_file_h (n_inode node) r of None \<Rightarrow> None
     | Some p \<Rightarrow> if p = 0 then Some (Inl Null_Deref) else done_with p)"

definition ramfs_get_info :: "file_node_t \<Rightarrow> ramfs \<Rightarrow> (file_info_t option \<times> int) run" where
  "ramfs_get_info node r =
    (case ramfs_get_file_h (n_inode node) r of None \<Rightarrow> None
     | Some p \<Rightarrow>
         if p = 0 then done_with (None, - ENOENT)
         else let h = headers r p
              in done_with (Some \<lparr>fi_type = h_type h, fi_name = h_name h, fi_mask = h_mask h, fi_uid = h_uid h, fi_gid = h_gid h,
                   fi_time = h_gid h, fi_inode = n_inode node, fi_size = h_size h, fi_links = h_links h, fi_flags = h_flags h,
                   fi_fs = n_fs node, fi_mount_id = h_mount_id h\<rparr>, 0))"

section \<open>Contents\<close>

definition ramfs_read :: "file_node_t \<Rightarrow> u32 \<Rightarrow> u32 \<Rightarrow> ramfs \<Rightarrow> int" where
  "ramfs_read node buf len r = 0"

definition ramfs_write :: "file_node_t \<Rightarrow> u32 \<Rightarrow> u32 \<Rightarrow> ramfs \<Rightarrow> int" where
  "ramfs_write node buf len r = 0"

function pread_loop :: "u32 \<Rightarrow> u32 \<Rightarrow> u32 \<Rightarrow> u32 \<Rightarrow> u32 \<Rightarrow> u32 \<Rightarrow> mem \<Rightarrow> mem \<times> u32" where
  "pread_loop outp file_data len flen i j m =
    (if j < len \<and> i < flen then pread_loop outp file_data len flen (i + 1) (j + 1) (m(outp + j := m (file_data + i)))
     else (m, i))"
  by pat_completeness auto
termination
proof (relation "measure (\<lambda>(out, fd, len, flen, i, j, m). unat len - unat j)", goal_cases)
  case (2 outp file_data len flen i j m)
  then have l: "unat j < unat len" by (simp add: word_less_nat_alt)
  then have "unat (j + 1) = unat j + 1" using unat_u32_less [of len] unat_add_lem [of j 1, THEN iffD1] by simp
  with l show ?case by simp
qed simp

definition ramfs_pread :: "file_node_t \<Rightarrow> u32 \<Rightarrow> u32 \<Rightarrow> u32 \<Rightarrow> ramfs \<Rightarrow> (ramfs \<times> u32) run" where
  "ramfs_pread node buf len offset r =
    and_then (file_h node r) (\<lambda>p.
      let h = headers r p; (m, i) = pread_loop buf (h_data h) len (h_size h) offset 0 (bytes r)
      in done_with (r\<lparr>bytes := m\<rparr>, i - offset))"

function pwrite_loop :: "u32 \<Rightarrow> u32 \<Rightarrow> u32 \<Rightarrow> u32 \<Rightarrow> u32 \<Rightarrow> mem \<Rightarrow> mem \<times> u32" where
  "pwrite_loop inpt file_data offset en i m =
    (if i < en then pwrite_loop inpt file_data offset en (i + 1) (m(file_data + i := m (inpt + (i - offset))))
     else (m, i))"
  by pat_completeness auto
termination
proof (relation "measure (\<lambda>(inp, fd, offset, en, i, m). unat en - unat i)", goal_cases)
  case (2 inpt file_data offset en i m)
  then have l: "unat i < unat en" by (simp add: word_less_nat_alt)
  then have "unat (i + 1) = unat i + 1" using unat_u32_less [of en] unat_add_lem [of i 1, THEN iffD1] by simp
  with l show ?case by simp
qed simp

definition ramfs_pwrite :: "file_node_t \<Rightarrow> u32 \<Rightarrow> u32 \<Rightarrow> u32 \<Rightarrow> ramfs \<Rightarrow> (ramfs \<times> u32) run" where
  "ramfs_pwrite node buf len offset r =
    and_then (file_h node r) (\<lambda>p.
      let file_len = h_size (headers r p);
          r1 = (if len > file_len
                then (upd_header p (\<lambda>h. h\<lparr>h_data := blk r (taken r)\<rparr>) r)\<lparr>taken := taken r + 1\<rparr> else r);
          (m, i) = pwrite_loop buf (h_data (headers r1 p)) offset (len + offset + 1) offset (bytes r1)
      in done_with (upd_header p (\<lambda>h. h\<lparr>h_size := len\<rparr>) (r1\<lparr>bytes := m\<rparr>), i))"

section \<open>Directories\<close>

text \<open>\<open>sizeof( struct dirent )\<close> is 264. Two blocks are taken, one for the entry and one for its name.\<close>

definition ramfs_mkdir_entry :: "file_node_t \<Rightarrow> string \<Rightarrow> u32 \<Rightarrow> ramfs \<Rightarrow> (ramfs \<times> int) run" where
  "ramfs_mkdir_entry node name inode r =
    and_then (file_h node r) (\<lambda>p.
      if h_type (headers r p) \<noteq> FS_DIR then done_with (r, - 1)
      else let nlen = of_nat (length name) + 1; dsize = 264 + nlen; dir = blk r (taken r);
               r1 = (upd_entry dir (\<lambda>_. \<lparr>d_inode = inode, d_size = dsize, d_name_len = nlen, d_name = name, d_next = 0\<rparr>) r)
                      \<lparr>taken := taken r + 2\<rparr>;
               grown = upd_header p (\<lambda>h. h\<lparr>h_size := h_size h + dsize\<rparr>)
           in if h_data (headers r1 p) = 0
              then done_with (grown (upd_header p (\<lambda>h. h\<lparr>h_data := dir\<rparr>) r1), 0)
              else case last_link (\<lambda>a. d_next (entries r1 a)) (h_data (headers r1 p)) of None \<Rightarrow> None
                | Some temp \<Rightarrow> done_with (grown (upd_entry temp (\<lambda>e. e\<lparr>d_next := dir\<rparr>) r1), 0))"

text \<open>
  \<open>memcpy( head->ramfs_files[ i ].name, name, n )\<close>: the headers are not an array, so the bytes go \<open>308 * i + 4\<close> behind the
  first one. \<open>ramfs_mkdir\<close> copies \<open>strlen( name + 1 )\<close> bytes, \<open>ramfs_mknod\<close> the whole name with its end.
\<close>

fun put_bytes :: "u32 \<Rightarrow> u8 list \<Rightarrow> mem \<Rightarrow> mem" where
  "put_bytes a [] m = m"
| "put_bytes a (b # bs) m = put_bytes (a + 1) bs (m(a := b))"

definition stray_name :: "u32 \<Rightarrow> u8 list \<Rightarrow> ramfs \<Rightarrow> ramfs" where
  "stray_name i bs r = r\<lparr>bytes := put_bytes (ramfs_files r + 308 * i + 4) bs (bytes r)\<rparr>"

text \<open>Link the header \<open>temp\<close> behind the last one and count it; \<open>filehead\<close> is where the walk starts.\<close>

definition link_header :: "u32 \<Rightarrow> u32 \<Rightarrow> ramfs \<Rightarrow> (ramfs \<times> int) run" where
  "link_header filehead temp r =
    (case last_link (\<lambda>a. h_next (headers r a)) filehead of None \<Rightarrow> None
     | Some move \<Rightarrow> done_with ((upd_header move (\<lambda>h. h\<lparr>h_next := temp\<rparr>) r)\<lparr>ramfs_i_count := ramfs_i_count r + 1\<rparr>, 0))"

definition ramfs_mkdir :: "file_node_t \<Rightarrow> string \<Rightarrow> u32 \<Rightarrow> ramfs \<Rightarrow> (ramfs \<times> int) run" where
  "ramfs_mkdir node name mode r =
    and_then (file_h node r) (\<lambda>filehead.
      if h_type (headers r filehead) \<noteq> FS_DIR then done_with (r, - 1)
      else and_then (ramfs_mkdir_entry node name (ramfs_i_count r) r) (\<lambda>(r1, _).
        let temp = blk r1 (taken r1);
            h = zero_header\<lparr>h_mask := mode, h_type := FS_DIR, h_inode := ramfs_i_count r, h_parent := Some node, h_links := 1, h_data := 0\<rparr>;
            r2 = (upd_header temp (\<lambda>_. h) r1)\<lparr>taken := taken r1 + 1\<rparr>
        in link_header filehead temp (stray_name (ramfs_i_count r) (map of_char (butlast name)) r2)))"

definition ramfs_mknod :: "file_node_t \<Rightarrow> string \<Rightarrow> u32 \<Rightarrow> u32 \<Rightarrow> ramfs \<Rightarrow> (ramfs \<times> int) run" where
  "ramfs_mknod node name mode dev r =
    and_then (file_h node r) (\<lambda>filehead.
      if h_type (headers r filehead) \<noteq> FS_DIR then done_with (r, - 1)
      else and_then (ramfs_mkdir_entry node name (ramfs_i_count r) r) (\<lambda>(r1, _).
        let temp = blk r1 (taken r1);
            h = zero_header\<lparr>h_mask := mode, h_inode := ramfs_i_count r, h_type := dev, h_size := 0, h_parent := Some node, h_links := 1\<rparr>;
            r2 = (upd_header temp (\<lambda>_. h) r1)\<lparr>taken := taken r1 + 1\<rparr>
        in link_header filehead temp (stray_name (ramfs_i_count r) (map of_char name @ [0]) r2)))"

text \<open>\<open>for ( d = 0; d < entry && dirty; d++, dirty = dirty->next )\<close> with a signed \<open>entry\<close>. The name of a \<open>struct dirent\<close> has 256 bytes.\<close>

fun entry_at :: "(u32 \<Rightarrow> ramfs_dirent_t) \<Rightarrow> u32 \<Rightarrow> nat \<Rightarrow> u32" where
  "entry_at es dirty 0 = dirty"
| "entry_at es dirty (Suc n) = (if dirty = 0 then 0 else entry_at es (d_next (es dirty)) n)"

definition ramfs_readdir :: "file_node_t \<Rightarrow> u32 \<Rightarrow> ramfs \<Rightarrow> (dirent option \<times> int) run" where
  "ramfs_readdir node entry r =
    and_then (file_h node r) (\<lambda>p.
      if h_type (headers r p) \<noteq> FS_DIR then done_with (None, - ENOTDIR)
      else let dirty = entry_at (entries r) (h_data (headers r p)) (nat (sint entry)); e = entries r dirty
           in if dirty = 0 then done_with (None, 0)
              else if d_name_len e > 256 then Some (Inl Out_Of_Bounds)
              else done_with (Some \<lparr>de_inode = d_inode e, de_size = ucast (d_size e), de_name_len = ucast (d_name_len e),
                     de_name = d_name e\<rparr>, 1))"

section \<open>The rest\<close>

definition ramfs_open :: "file_node_t \<Rightarrow> string \<Rightarrow> u32 \<Rightarrow> ramfs \<Rightarrow> (ramfs \<times> int) run" where
  "ramfs_open node name mode r =
    and_then (file_h node r) (\<lambda>p.
      if h_type (headers r p) = FS_DIR \<and> mode AND O_CREAT \<noteq> 0 then ramfs_mknod node name 0x1ff FS_FILE r
      else done_with (r, sint (n_inode node)))"

definition ramfs_close :: "file_node_t \<Rightarrow> ramfs \<Rightarrow> (ramfs \<times> int) run" where
  "ramfs_close node r = done_with (r, 0)"

definition ramfs_unlink :: "file_node_t \<Rightarrow> ramfs \<Rightarrow> (ramfs \<times> int) run" where
  "ramfs_unlink node r =
    and_then (file_h node r) (\<lambda>p.
      done_with (if h_links (headers r p) \<noteq> 0 then upd_header p (\<lambda>h. h\<lparr>h_links := h_links h - 1\<rparr>) r else r, 0))"

text \<open>The header is only used when a variable is set.\<close>

definition ramfs_callback :: "file_node_t \<Rightarrow> u32 \<Rightarrow> u32 \<Rightarrow> u32 \<Rightarrow> ramfs \<Rightarrow> (ramfs \<times> int) run" where
  "ramfs_callback node op var val r =
    (case ramfs_get_file_h (n_inode node) r of None \<Rightarrow> None
     | Some p \<Rightarrow>
         if op = FOP_SET then
           (if var = FVAR_MOUNT_ID then
              (if p = 0 then Some (Inl Null_Deref) else done_with (upd_header p (\<lambda>h. h\<lparr>h_mount_id := val\<rparr>) r, 0))
            else done_with (r, - ENOENT))
         else done_with (r, - ENOTSUP))"

definition ramfs_file_funcs :: "ramfs file_funcs_t" where
  "ramfs_file_funcs = \<lparr>f_pread = ramfs_pread, f_pwrite = ramfs_pwrite, f_mkdir = ramfs_mkdir, f_mknod = ramfs_mknod,
     f_unlink = ramfs_unlink, f_readdir = ramfs_readdir, f_open = ramfs_open, f_close = ramfs_close,
     f_get_info = ramfs_get_info, f_callback = ramfs_callback\<rparr>"

end
