(* ===== verification/Ramfs_Tree.thy ===== *)
theory Ramfs_Tree
  imports Ramfs
begin

text \<open>
  The memory file system as a tree: \<open>ramfs_ok r hs es\<close> says that the headers are those at \<open>hs\<close>, with distinct inode
  numbers below \<open>ramfs_i_count\<close>, and that the entries of the directory at \<open>p\<close> are those at \<open>es p\<close>. Creating a file or a directory keeps it and adds one entry.
\<close>

declare pread_loop.simps [simp del] pwrite_loop.simps [simp del]

section \<open>Invariant\<close>

abbreviation hlinks :: "ramfs \<Rightarrow> u32 \<Rightarrow> u32" where "hlinks r a \<equiv> h_next (headers r a)"
abbreviation elinks :: "ramfs \<Rightarrow> u32 \<Rightarrow> u32" where "elinks r a \<equiv> d_next (entries r a)"

definition dirs_ok :: "ramfs \<Rightarrow> u32 list \<Rightarrow> (u32 \<Rightarrow> u32 list) \<Rightarrow> bool" where
  "dirs_ok r hs es \<longleftrightarrow>
    (\<forall>p. if p \<in> set hs \<and> h_type (headers r p) = FS_DIR then chain (elinks r) (h_data (headers r p)) (es p) else es p = []) \<and>
    (\<forall>p q. p \<noteq> q \<longrightarrow> set (es p) \<inter> set (es q) = {})"

text \<open>Names fit into the 256 bytes that \<open>readdir\<close> has for them, with their end.\<close>

definition names_ok :: "ramfs \<Rightarrow> (u32 \<Rightarrow> u32 list) \<Rightarrow> bool" where
  "names_ok r es \<longleftrightarrow> (\<forall>p. \<forall>a\<in>set (es p). length (d_name (entries r a)) < 256 \<and> d_name_len (entries r a) \<le> 256)"

definition ramfs_ok :: "ramfs \<Rightarrow> u32 list \<Rightarrow> (u32 \<Rightarrow> u32 list) \<Rightarrow> bool" where
  "ramfs_ok r hs es \<longleftrightarrow> chain (hlinks r) (ramfs_files r) hs \<and> hs \<noteq> [] \<and>
    distinct (map (\<lambda>a. h_inode (headers r a)) hs) \<and> (\<forall>a\<in>set hs. h_inode (headers r a) < ramfs_i_count r) \<and>
    dirs_ok r hs es \<and> names_ok r es"

text \<open>The blocks the next file will be made of, an entry and a header, are not in use.\<close>

definition fresh_ok :: "ramfs \<Rightarrow> u32 list \<Rightarrow> (u32 \<Rightarrow> u32 list) \<Rightarrow> bool" where
  "fresh_ok r hs es \<longleftrightarrow> blk r (taken r) \<noteq> 0 \<and> (\<forall>p. blk r (taken r) \<notin> set (es p)) \<and> blk r (taken r + 2) \<noteq> 0 \<and>
     blk r (taken r + 2) \<notin> set hs"

definition fresh_blocks :: "ramfs \<Rightarrow> bool" where
  "fresh_blocks r \<longleftrightarrow> (\<forall>hs es. ramfs_ok r hs es \<longrightarrow> fresh_ok r hs es)"

definition listing :: "ramfs \<Rightarrow> (u32 \<Rightarrow> u32 list) \<Rightarrow> u32 \<Rightarrow> (string \<times> u32) list" where
  "listing r es p = map (\<lambda>e. (d_name (entries r e), d_inode (entries r e))) (es p)"

lemma upd_header_simps [simp]:
  "headers (upd_header p f r) = (headers r)(p := f (headers r p))" "entries (upd_header p f r) = entries r"
  "bytes (upd_header p f r) = bytes r" "ramfs_files (upd_header p f r) = ramfs_files r"
  "ramfs_i_count (upd_header p f r) = ramfs_i_count r" "blk (upd_header p f r) = blk r" "taken (upd_header p f r) = taken r"
  by (simp_all add: upd_header_def)

lemma upd_entry_simps [simp]:
  "entries (upd_entry p f r) = (entries r)(p := f (entries r p))" "headers (upd_entry p f r) = headers r"
  "bytes (upd_entry p f r) = bytes r" "ramfs_files (upd_entry p f r) = ramfs_files r"
  "ramfs_i_count (upd_entry p f r) = ramfs_i_count r" "blk (upd_entry p f r) = blk r" "taken (upd_entry p f r) = taken r"
  by (simp_all add: upd_entry_def)

lemma stray_name_simps [simp]:
  "headers (stray_name i bs r) = headers r" "entries (stray_name i bs r) = entries r"
  "ramfs_files (stray_name i bs r) = ramfs_files r" "ramfs_i_count (stray_name i bs r) = ramfs_i_count r"
  "blk (stray_name i bs r) = blk r" "taken (stray_name i bs r) = taken r"
  by (simp_all add: stray_name_def)

lemma find_unique:
  assumes "distinct (map f xs)" "a \<in> set xs" "f a = k"
  shows "find (\<lambda>x. f x = k) xs = Some a"
  using assms by (induction xs) auto

lemma file_h_ok:
  assumes "ramfs_ok r hs es" "p \<in> set hs" "n_inode node = h_inode (headers r p)"
  shows "file_h node r = done_with p" "p \<noteq> 0" "ramfs_get_file_h (n_inode node) r = Some p"
proof -
  have c: "chain (hlinks r) (ramfs_files r) hs" and d: "distinct (map (\<lambda>a. h_inode (headers r a)) hs)"
    using assms(1) by (auto simp: ramfs_ok_def)
  show p0: "p \<noteq> 0" using chain_nonzero [OF c] assms(2) by auto
  show g: "ramfs_get_file_h (n_inode node) r = Some p"
    using find_link_chain [OF c, of "\<lambda>a. h_inode (headers r a) = n_inode node"] find_unique [OF d assms(2) assms(3) [symmetric]]
    by (simp add: ramfs_get_file_h_def)
  show "file_h node r = done_with p" using g p0 by (simp add: file_h_def)
qed

lemma file_h_absent:
  assumes "ramfs_ok r hs es" "\<forall>p\<in>set hs. h_inode (headers r p) \<noteq> inode"
  shows "ramfs_get_file_h inode r = Some 0"
proof -
  have "find (\<lambda>a. h_inode (headers r a) = inode) hs = None" using assms(2) by (simp add: find_None_iff)
  then show ?thesis
    using find_link_chain [of "hlinks r" "ramfs_files r" hs "\<lambda>a. h_inode (headers r a) = inode"] assms(1)
    by (simp add: ramfs_get_file_h_def ramfs_ok_def)
qed

lemma dirs_okD:
  assumes "ramfs_ok r hs es" "p \<in> set hs" "h_type (headers r p) = FS_DIR"
  shows "chain (elinks r) (h_data (headers r p)) (es p)"
  using assms by (simp add: ramfs_ok_def dirs_ok_def)

section \<open>Adding an entry\<close>

lemma mkdir_entry_adds:
  assumes ok: "ramfs_ok r hs es" and fresh: "blk r (taken r) \<noteq> 0" "\<And>q. blk r (taken r) \<notin> set (es q)" and p: "p \<in> set hs" "n_inode node = h_inode (headers r p)" "h_type (headers r p) = FS_DIR" and nm: "length name < 256"
  obtains r' where "ramfs_mkdir_entry node name inode r = done_with (r', 0)" "ramfs_ok r' hs (es(p := es p @ [blk r (taken r)]))"
    "listing r' (es(p := es p @ [blk r (taken r)])) p = listing r es p @ [(name, inode)]"
    "\<And>q. q \<noteq> p \<Longrightarrow> listing r' (es(p := es p @ [blk r (taken r)])) q = listing r es q"
    "\<And>q. h_inode (headers r' q) = h_inode (headers r q)" "\<And>q. h_type (headers r' q) = h_type (headers r q)"
    "\<And>q. h_mount_id (headers r' q) = h_mount_id (headers r q)"
    "blk r' = blk r" "taken r' = taken r + 2" "ramfs_files r' = ramfs_files r" "ramfs_i_count r' = ramfs_i_count r" "bytes r' = bytes r"
proof -
  let ?d = "blk r (taken r)" and ?nlen = "of_nat (length name) + 1 :: u32"
  let ?e = "\<lparr>d_inode = inode, d_size = 264 + ?nlen, d_name_len = ?nlen, d_name = name, d_next = 0\<rparr>"
  let ?es' = "es(p := es p @ [?d])"
  note fh = file_h_ok [OF ok p(1,2)]
  have ch: "chain (elinks r) (h_data (headers r p)) (es p)" by (rule dirs_okD [OF ok p(1,3)])
  have fr: "?d \<noteq> 0" "?d \<notin> set (es q)" for q using fresh by auto
  let ?en = "\<lambda>a. if a = ?d then ?e else if es p \<noteq> [] \<and> a = last (es p) then (entries r a)\<lparr>d_next := ?d\<rparr> else entries r a"
  let ?hd = "\<lambda>a. if a = p then (headers r p)\<lparr>h_data := (if es p = [] then ?d else h_data (headers r p)),
      h_size := h_size (headers r p) + (264 + ?nlen)\<rparr> else headers r a"
  let ?r = "r\<lparr>entries := ?en, headers := ?hd, taken := taken r + 2\<rparr>"
  have m: "ramfs_mkdir_entry node name inode r = done_with (?r, 0)"
  proof (cases "es p = []")
    case True
    with ch have "h_data (headers r p) = 0" by simp
    with True show ?thesis
      using fh p(3) by (simp add: ramfs_mkdir_entry_def Let_def upd_header_def upd_entry_def fun_upd_def cong: if_cong)
  next
    case False
    then have h0: "h_data (headers r p) \<noteq> 0" using ch by (cases "es p") auto
    have "chain (\<lambda>a. d_next (if a = ?d then ?e else entries r a)) (h_data (headers r p)) (es p)"
      by (rule chain_cong [THEN iffD1, OF _ ch]) (use fr(2) in auto)
    then have "last_link (\<lambda>a. d_next (if a = ?d then ?e else entries r a)) (h_data (headers r p)) = Some (last (es p))"
      by (rule last_link_chain [OF _ False])
    moreover have "last (es p) \<noteq> ?d" using fr(2) [of p] last_in_set [OF False] by auto
    ultimately show ?thesis
      using fh p(3) h0 False
      by (simp add: ramfs_mkdir_entry_def Let_def upd_header_def upd_entry_def fun_upd_def cong: if_cong) (auto simp: fun_eq_iff)
  qed
  have lk: "elinks ?r = linked_behind (es p) ?d (elinks r)" by (auto simp: linked_behind_def fun_eq_iff)
  have dis: "set (es p) \<inter> set (es q) = {}" if "q \<noteq> p" for q using ok that by (auto simp: ramfs_ok_def dirs_ok_def)
  have cp: "chain (elinks ?r) (h_data (headers ?r p)) (?es' p)"
    unfolding lk using chain_behind [OF ch fr] by simp
  have cq: "chain (elinks ?r) (h_data (headers ?r q)) (?es' q)" if "q \<noteq> p" "q \<in> set hs" "h_type (headers r q) = FS_DIR" for q
    unfolding lk using chain_behind_other [OF dirs_okD [OF ok that(2,3)] fr(2) dis [OF that(1)]] that(1) by simp
  have ty: "h_type (headers ?r q) = h_type (headers r q)" for q by simp
  have em: "es q = []" if "\<not> (q \<in> set hs \<and> h_type (headers r q) = FS_DIR)" for q
    using ok that unfolding ramfs_ok_def dirs_ok_def by presburger
  have dj: "set (es q) \<inter> set (es q') = {}" if "q \<noteq> q'" for q q' using ok that by (auto simp: ramfs_ok_def dirs_ok_def)
  have "dirs_ok ?r hs ?es'"
    unfolding dirs_ok_def ty
  proof (intro conjI allI impI)
    fix q
    show "if q \<in> set hs \<and> h_type (headers r q) = FS_DIR then chain (elinks ?r) (h_data (headers ?r q)) (?es' q) else ?es' q = []"
      using cp cq [of q] em [of q] p by (cases "q = p") simp_all
  next
    fix q q' :: u32
    assume "q \<noteq> q'"
    then show "set (?es' q) \<inter> set (?es' q') = {}" using dj [of q q'] fr(2) by auto
  qed
  moreover have "chain (hlinks ?r) (ramfs_files ?r) hs"
    by (rule chain_cong [THEN iffD1, of _ "hlinks r"]) (use ok in \<open>auto simp: ramfs_ok_def\<close>)
  moreover have "h_inode (headers ?r q) = h_inode (headers r q)" for q by simp
  moreover have "ramfs_i_count ?r = ramfs_i_count r" by simp
  moreover have "names_ok ?r ?es'"
    unfolding names_ok_def
  proof (intro allI ballI)
    fix q a
    assume a: "a \<in> set (?es' q)"
    have n: "length (d_name (entries r a)) < 256 \<and> d_name_len (entries r a) \<le> 256" if "a \<in> set (es q)"
      using ok that by (auto simp: ramfs_ok_def names_ok_def)
    have "unat (of_nat (length name) :: u32) = length name" using nm by (intro unat_of_nat_lt32) simp
    then have "?nlen \<le> 256" using nm by (simp add: word_le_nat_alt unat_word_ariths)
    then show "length (d_name (entries ?r a)) < 256 \<and> d_name_len (entries ?r a) \<le> 256"
      using a n nm by (cases "a = ?d") (auto split: if_splits)
  qed
  ultimately have "ramfs_ok ?r hs ?es'" using ok unfolding ramfs_ok_def by presburger
  moreover have "listing ?r ?es' p = listing r es p @ [(name, inode)]"
    using fr(2) [of p] by (auto simp: listing_def)
  moreover have "listing ?r ?es' q = listing r es q" if "q \<noteq> p" for q
    using fr(2) [of q] that by (auto simp: listing_def)
  ultimately show thesis using that [OF m] by simp
qed

section \<open>Adding a file\<close>

lemma link_header_adds:
  assumes ok: "ramfs_ok r hs es" and p: "p \<in> set hs" and fr: "t \<noteq> 0" "t \<notin> set hs" and h: "h_inode h = ramfs_i_count r" "h_next h = 0" "h_data h = 0"
    and room: "ramfs_i_count r < - 1"
  obtains r' where "link_header p t (stray_name i bs ((upd_header t (\<lambda>_. h) r)\<lparr>taken := taken r + 1\<rparr>)) = done_with (r', 0)"
    "ramfs_ok r' (hs @ [t]) es" "entries r' = entries r" "headers r' t = h"
    "\<And>q. q \<noteq> t \<Longrightarrow> h_inode (headers r' q) = h_inode (headers r q) \<and> h_type (headers r' q) = h_type (headers r q) \<and>
      h_mount_id (headers r' q) = h_mount_id (headers r q)"
    "ramfs_i_count r' = ramfs_i_count r + 1" "ramfs_files r' = ramfs_files r" "blk r' = blk r" "taken r' = taken r + 1"
proof -
  have c: "chain (hlinks r) (ramfs_files r) hs" "hs \<noteq> []" using ok by (auto simp: ramfs_ok_def)
  let ?l = "last hs"
  have l: "?l \<in> set hs" "?l \<noteq> t" using c(2) fr(2) last_in_set [OF c(2)] by auto
  let ?r = "r\<lparr>bytes := put_bytes (ramfs_files r + 308 * i + 4) bs (bytes r), taken := taken r + 1, ramfs_i_count := ramfs_i_count r + 1,
    headers := \<lambda>a. if a = t then h else if a = ?l then (headers r a)\<lparr>h_next := t\<rparr> else headers r a\<rparr>"
  have "chain (\<lambda>a. h_next (if a = t then h else headers r a)) (ramfs_files r) hs"
    by (rule chain_cong [THEN iffD1, OF _ c(1)]) (use fr(2) in auto)
  from last_link_from [OF this p]
  have m: "link_header p t (stray_name i bs ((upd_header t (\<lambda>_. h) r)\<lparr>taken := taken r + 1\<rparr>)) = done_with (?r, 0)"
    using l(2) by (simp add: link_header_def stray_name_def upd_header_def fun_upd_def cong: if_cong) (auto simp: fun_eq_iff)
  have lk: "hlinks ?r = linked_behind hs t (hlinks r)" using c(2) h(2) by (auto simp: linked_behind_def fun_eq_iff)
  have ch: "chain (hlinks ?r) (ramfs_files ?r) (hs @ [t])" unfolding lk using chain_behind [OF c(1) fr] c(2) by simp
  have f: "h_inode (headers ?r q) = h_inode (headers r q)" "h_type (headers ?r q) = h_type (headers r q)"
    "h_data (headers ?r q) = h_data (headers r q)" "h_mount_id (headers ?r q) = h_mount_id (headers r q)" if "q \<noteq> t" for q
    using that by simp_all
  have hst: "map (\<lambda>a. h_inode (headers ?r a)) hs = map (\<lambda>a. h_inode (headers r a)) hs"
    by (rule map_cong) (use fr(2) f(1) in auto)
  have lt: "\<forall>a\<in>set hs. h_inode (headers r a) < ramfs_i_count r" using ok by (simp add: ramfs_ok_def)
  then have "ramfs_i_count r \<notin> (\<lambda>a. h_inode (headers r a)) ` set hs" by auto
  then have d: "distinct (map (\<lambda>a. h_inode (headers ?r a)) (hs @ [t]))"
    using ok h(1) unfolding map_append hst by (simp add: ramfs_ok_def)
  have up: "x < ramfs_i_count r \<Longrightarrow> x < ramfs_i_count r + 1" "ramfs_i_count r < ramfs_i_count r + 1" for x
    using room by (simp_all add: word_less_nat_alt unat_add_lem [of "ramfs_i_count r" 1, THEN iffD1] unat_u32_minus_1)
  have "es t = []" using ok fr(2) unfolding ramfs_ok_def dirs_ok_def by (metis (no_types))
  then have dirs: "dirs_ok ?r (hs @ [t]) es"
    using ok f fr(2) h(3) unfolding ramfs_ok_def dirs_ok_def by (auto simp: fr)
  have "ramfs_ok ?r (hs @ [t]) es"
    unfolding ramfs_ok_def using ch d dirs lt f(1) h(1) up fr(2) ok by (auto simp: ramfs_ok_def names_ok_def split: if_splits)
  then show thesis using that [OF m] f by simp
qed

lemma create_adds:
  assumes ok: "ramfs_ok r hs es" and fresh: "fresh_ok r hs es" and p: "p \<in> set hs" "n_inode node = h_inode (headers r p)" "h_type (headers r p) = FS_DIR"
    and h: "h_inode h = ramfs_i_count r" "h_next h = 0" "h_data h = 0" and room: "ramfs_i_count r < - 1"
    and nm: "length name < 256"
  obtains r' es' t where
    "and_then (ramfs_mkdir_entry node name (ramfs_i_count r) r) (\<lambda>(r1, _). link_header p (blk r1 (taken r1))
       (stray_name (ramfs_i_count r) bs ((upd_header (blk r1 (taken r1)) (\<lambda>_. h) r1)\<lparr>taken := taken r1 + 1\<rparr>))) = done_with (r', 0)"
    "ramfs_ok r' (hs @ [t]) es'" "t \<notin> set hs" "headers r' t = h" "es' t = []"
    "listing r' es' p = listing r es p @ [(name, ramfs_i_count r)]" "\<And>q. q \<noteq> p \<Longrightarrow> listing r' es' q = listing r es q"
    "\<And>q. q \<noteq> t \<Longrightarrow> h_inode (headers r' q) = h_inode (headers r q) \<and> h_type (headers r' q) = h_type (headers r q) \<and>
      h_mount_id (headers r' q) = h_mount_id (headers r q)"
    "ramfs_i_count r' = ramfs_i_count r + 1" "t = blk r (taken r + 2)" "es' = es(p := es p @ [blk r (taken r)])" "blk r' = blk r" "taken r' = taken r + 3"
proof -
  let ?es' = "es(p := es p @ [blk r (taken r)])"
  obtain r1 where r1: "ramfs_mkdir_entry node name (ramfs_i_count r) r = done_with (r1, 0)" "ramfs_ok r1 hs ?es'"
    "listing r1 ?es' p = listing r es p @ [(name, ramfs_i_count r)]" "\<And>q. q \<noteq> p \<Longrightarrow> listing r1 ?es' q = listing r es q"
    "\<And>q. h_inode (headers r1 q) = h_inode (headers r q)" "\<And>q. h_type (headers r1 q) = h_type (headers r q)"
    "\<And>q. h_mount_id (headers r1 q) = h_mount_id (headers r q)"
    "blk r1 = blk r" "taken r1 = taken r + 2" "ramfs_files r1 = ramfs_files r" "ramfs_i_count r1 = ramfs_i_count r" "bytes r1 = bytes r"
    by (rule mkdir_entry_adds [OF ok _ _ p nm]) (use fresh in \<open>auto simp: fresh_ok_def\<close>)
  let ?t = "blk r1 (taken r1)"
  have t: "?t \<noteq> 0" "?t \<notin> set hs" using fresh r1(8,9) by (auto simp: fresh_ok_def)
  obtain r' where r': "link_header p ?t (stray_name (ramfs_i_count r) bs ((upd_header ?t (\<lambda>_. h) r1)\<lparr>taken := taken r1 + 1\<rparr>)) = done_with (r', 0)"
    "ramfs_ok r' (hs @ [?t]) ?es'" "entries r' = entries r1" "headers r' ?t = h"
    "\<And>q. q \<noteq> ?t \<Longrightarrow> h_inode (headers r' q) = h_inode (headers r1 q) \<and> h_type (headers r' q) = h_type (headers r1 q) \<and>
      h_mount_id (headers r' q) = h_mount_id (headers r1 q)" "ramfs_i_count r' = ramfs_i_count r1 + 1" "blk r' = blk r1" "taken r' = taken r1 + 1"
    using link_header_adds [OF r1(2) p(1) t, of h "ramfs_i_count r" bs] h room r1(11) by metis
  have "?es' ?t = []" using r1(2) t(2) unfolding ramfs_ok_def dirs_ok_def by presburger
  moreover have "listing r' ?es' q = listing r1 ?es' q" for q by (simp add: listing_def r'(3))
  ultimately show thesis using that [of r' ?t ?es'] r1 r' t(2) by simp
qed

section \<open>The tree\<close>

text \<open>\<open>dir_is r i xs\<close>: inode \<open>i\<close> is a directory with the entries \<open>xs\<close>; \<open>node_is r i h\<close>: inode \<open>i\<close> has a header like \<open>h\<close>.\<close>

definition dir_is :: "ramfs \<Rightarrow> u32 \<Rightarrow> (string \<times> u32) list \<Rightarrow> bool" where
  "dir_is r i xs \<longleftrightarrow> (\<exists>hs es p. ramfs_ok r hs es \<and> p \<in> set hs \<and> h_inode (headers r p) = i \<and> h_type (headers r p) = FS_DIR \<and>
     xs = listing r es p)"

definition node_is :: "ramfs \<Rightarrow> u32 \<Rightarrow> u32 \<Rightarrow> u32 \<Rightarrow> bool" where
  "node_is r i type mount \<longleftrightarrow> (\<exists>hs es p. ramfs_ok r hs es \<and> p \<in> set hs \<and> h_inode (headers r p) = i \<and> h_type (headers r p) = type \<and>
     h_mount_id (headers r p) = mount)"

lemma ramfs_ok_unique:
  assumes "ramfs_ok r hs es" "ramfs_ok r hs' es'"
  shows "hs = hs' \<and> es = es'"
proof -
  have e: "hs = hs'" using assms chain_unique by (auto simp: ramfs_ok_def)
  have d: "dirs_ok r hs es" "dirs_ok r hs es'" using assms e by (auto simp: ramfs_ok_def)
  have "es p = es' p" for p
  proof (cases "p \<in> set hs \<and> h_type (headers r p) = FS_DIR")
    case True
    then have "chain (elinks r) (h_data (headers r p)) (es p)" "chain (elinks r) (h_data (headers r p)) (es' p)"
      using d unfolding dirs_ok_def by presburger+
    then show ?thesis by (rule chain_unique)
  next
    case False
    then have "es p = []" "es' p = []" using d unfolding dirs_ok_def by presburger+
    then show ?thesis by simp
  qed
  with e show ?thesis by auto
qed

lemma created_tree:
  assumes r: "ramfs_ok r hs es" and p: "p \<in> set hs" "n_inode node = h_inode (headers r p)" "h_type (headers r p) = FS_DIR"
    and r': "ramfs_ok r' (hs @ [t]) es'" "t \<notin> set hs" "headers r' t = h" "es' t = []"
    "listing r' es' p = listing r es p @ [(name, ramfs_i_count r)]" "\<And>q. q \<noteq> p \<Longrightarrow> listing r' es' q = listing r es q"
    "\<And>q. q \<noteq> t \<Longrightarrow> h_inode (headers r' q) = h_inode (headers r q) \<and> h_type (headers r' q) = h_type (headers r q) \<and>
      h_mount_id (headers r' q) = h_mount_id (headers r q)"
    and h: "h_inode h = ramfs_i_count r" "h_mount_id h = 0"
  shows "dir_is r' (n_inode node) (listing r es p @ [(name, ramfs_i_count r)])"
    "\<And>j ys. j \<noteq> n_inode node \<Longrightarrow> dir_is r j ys \<Longrightarrow> dir_is r' j ys" "node_is r' (ramfs_i_count r) (h_type h) 0"
    "\<And>j ty m. node_is r j ty m \<Longrightarrow> node_is r' j ty m" "h_type h = FS_DIR \<Longrightarrow> dir_is r' (ramfs_i_count r) []"
proof -
  have pt: "p \<noteq> t" using p(1) r'(2) by auto
  show "dir_is r' (n_inode node) (listing r es p @ [(name, ramfs_i_count r)])"
    unfolding dir_is_def using r'(1,5,7) p pt by (intro exI [of _ "hs @ [t]"] exI [of _ es'] exI [of _ p]) simp
  show "dir_is r' j ys" if "j \<noteq> n_inode node" "dir_is r j ys" for j ys
  proof -
    from that(2) obtain q where q: "q \<in> set hs" "h_inode (headers r q) = j" "h_type (headers r q) = FS_DIR" "ys = listing r es q"
      unfolding dir_is_def using ramfs_ok_unique [OF r] by blast
    then have "q \<noteq> p" "q \<noteq> t" using that(1) p(2) r'(2) by auto
    with q r'(1,6,7) show ?thesis unfolding dir_is_def by (intro exI [of _ "hs @ [t]"] exI [of _ es'] exI [of _ q]) simp
  qed
  show "node_is r' (ramfs_i_count r) (h_type h) 0"
    unfolding node_is_def using r'(1,3) h by (intro exI [of _ "hs @ [t]"] exI [of _ es'] exI [of _ t]) simp
  show "node_is r' j ty m" if "node_is r j ty m" for j ty m
  proof -
    from that obtain q where q: "q \<in> set hs" "h_inode (headers r q) = j" "h_type (headers r q) = ty" "h_mount_id (headers r q) = m"
      unfolding node_is_def using ramfs_ok_unique [OF r] by blast
    then have "q \<noteq> t" using r'(2) by auto
    with q r'(1,7) show ?thesis unfolding node_is_def by (intro exI [of _ "hs @ [t]"] exI [of _ es'] exI [of _ q]) simp
  qed
  show "dir_is r' (ramfs_i_count r) []" if "h_type h = FS_DIR"
    unfolding dir_is_def using r'(1,3,4) h that
    by (intro exI [of _ "hs @ [t]"] exI [of _ es'] exI [of _ t]) (simp add: listing_def)
qed

text \<open>
  The next \<open>n\<close> blocks of the allocator are distinct and not in use. A new file takes three.
\<close>

definition stocked :: "nat \<Rightarrow> ramfs \<Rightarrow> bool" where
  "stocked n r \<longleftrightarrow> inj_on (blk r) {taken r..<taken r + n} \<and>
     (\<forall>i\<in>{taken r..<taken r + n}. blk r i \<noteq> 0 \<and>
       (\<forall>hs es. ramfs_ok r hs es \<longrightarrow> blk r i \<notin> set hs \<and> (\<forall>p. blk r i \<notin> set (es p))))"

lemma stockedD:
  assumes "stocked n r" "i < n" "ramfs_ok r hs es"
  shows "blk r (taken r + i) \<noteq> 0" "blk r (taken r + i) \<notin> set hs" "blk r (taken r + i) \<notin> set (es p)"
proof -
  have "taken r + i \<in> {taken r..<taken r + n}" using assms(2) by simp
  with assms(1,3) have "blk r (taken r + i) \<noteq> 0 \<and> blk r (taken r + i) \<notin> set hs \<and> (\<forall>p. blk r (taken r + i) \<notin> set (es p))"
    unfolding stocked_def by blast
  then show "blk r (taken r + i) \<noteq> 0" "blk r (taken r + i) \<notin> set hs" "blk r (taken r + i) \<notin> set (es p)" by blast+
qed

lemma stocked_fresh: "stocked n r \<Longrightarrow> 3 \<le> n \<Longrightarrow> fresh_blocks r"
  unfolding fresh_blocks_def fresh_ok_def using stockedD [of n r 0] stockedD [of n r 2] by auto

lemma created_stocked:
  assumes "stocked (n + 3) r" "ramfs_ok r hs es" "ramfs_ok r' (hs @ [blk r (taken r + 2)]) (es(p := es p @ [blk r (taken r)]))"
    and "blk r' = blk r" "taken r' = taken r + 3"
  shows "stocked n r'"
proof -
  have inj: "inj_on (blk r) {taken r..<taken r + (n + 3)}" using assms(1) by (simp add: stocked_def)
  have "blk r i \<noteq> 0 \<and> blk r i \<notin> set (hs @ [blk r (taken r + 2)]) \<and> (\<forall>q. blk r i \<notin> set ((es(p := es p @ [blk r (taken r)])) q))"
    if i: "i \<in> {taken r + 3..<taken r + 3 + n}" for i
  proof -
    have "blk r i \<noteq> blk r (taken r)" "blk r i \<noteq> blk r (taken r + 2)"
      using i inj_onD [OF inj, of i "taken r"] inj_onD [OF inj, of i "taken r + 2"] by auto
    moreover have "i - taken r < n + 3" "taken r + (i - taken r) = i" using i by auto
    then have "blk r i \<noteq> 0" "blk r i \<notin> set hs" "blk r i \<notin> set (es q)" for q
      using stockedD [OF assms(1) _ assms(2), of "i - taken r"] by simp_all
    ultimately show ?thesis by auto
  qed
  moreover have "inj_on (blk r) {taken r + 3..<taken r + 3 + n}" by (rule inj_on_subset [OF inj]) auto
  ultimately show ?thesis using ramfs_ok_unique [OF assms(3)] unfolding stocked_def assms(4,5) by blast
qed

definition grows :: "u32 \<Rightarrow> (string \<times> u32) list \<Rightarrow> string \<Rightarrow> ramfs \<Rightarrow> ramfs \<Rightarrow> bool" where
  "grows i xs name r r' \<longleftrightarrow> dir_is r' i (xs @ [(name, ramfs_i_count r)]) \<and> (\<forall>j ys. j \<noteq> i \<longrightarrow> dir_is r j ys \<longrightarrow> dir_is r' j ys) \<and>
     (\<forall>j ty m. node_is r j ty m \<longrightarrow> node_is r' j ty m) \<and> ramfs_i_count r' = ramfs_i_count r + 1 \<and>
     (\<forall>n. stocked (n + 3) r \<longrightarrow> stocked n r')"

lemma create_grows:
  assumes "ramfs_ok r hs es" "fresh_ok r hs es" "p \<in> set hs" "n_inode node = h_inode (headers r p)" "h_type (headers r p) = FS_DIR"
    and "h_inode h = ramfs_i_count r" "h_next h = 0" "h_data h = 0" "h_mount_id h = 0" "ramfs_i_count r < - 1"
    and "length name < 256"
  obtains r' where
    "and_then (ramfs_mkdir_entry node name (ramfs_i_count r) r) (\<lambda>(r1, _). link_header p (blk r1 (taken r1))
       (stray_name (ramfs_i_count r) bs ((upd_header (blk r1 (taken r1)) (\<lambda>_. h) r1)\<lparr>taken := taken r1 + 1\<rparr>))) = done_with (r', 0)"
    "grows (n_inode node) (listing r es p) name r r'" "node_is r' (ramfs_i_count r) (h_type h) 0"
    "h_type h = FS_DIR \<Longrightarrow> dir_is r' (ramfs_i_count r) []"
proof (rule create_adds [OF assms(1-8,10,11), of bs], goal_cases)
  case (1 r' es' t)
  note tr = created_tree [OF assms(1,3-5) 1(3-9) assms(6,9)]
  moreover have "stocked n r'" if "stocked (n + 3) r" for n
    by (rule created_stocked [OF that assms(1) 1(3) [unfolded 1(11,12)] 1(13,14)])
  ultimately have "grows (n_inode node) (listing r es p) name r r'" using 1(10) unfolding grows_def by blast
  with that [OF 1(2)] tr(3,5) show ?case by blast
qed

lemma dir_isE:
  assumes "dir_is r (n_inode node) xs"
  obtains hs es p where "ramfs_ok r hs es" "p \<in> set hs" "n_inode node = h_inode (headers r p)" "h_type (headers r p) = FS_DIR"
    "xs = listing r es p" "file_h node r = done_with p"
  using assms file_h_ok(1) unfolding dir_is_def by metis

lemma ramfs_mknod_adds:
  assumes "dir_is r (n_inode node) xs" "ramfs_i_count r < - 1" "fresh_blocks r" "length name < 256"
  obtains r' where "ramfs_mknod node name mode dev r = done_with (r', 0)" "grows (n_inode node) xs name r r'"
    "node_is r' (ramfs_i_count r) dev 0"
proof (rule dir_isE [OF assms(1)])
  fix hs es p
  assume p: "ramfs_ok r hs es" "p \<in> set hs" "n_inode node = h_inode (headers r p)" "h_type (headers r p) = FS_DIR"
    "xs = listing r es p" "file_h node r = done_with p"
  have fr: "fresh_ok r hs es" using assms(3) p(1) by (simp add: fresh_blocks_def)
  let ?h = "zero_header\<lparr>h_mask := mode, h_inode := ramfs_i_count r, h_type := dev, h_size := 0, h_parent := Some node, h_links := 1\<rparr>"
  have h: "h_inode ?h = ramfs_i_count r" "h_next ?h = 0" "h_data ?h = 0" "h_mount_id ?h = 0" "h_type ?h = dev"
    by (simp_all add: zero_header_def)
  show thesis
  proof (rule create_grows [OF p(1) fr p(2-4) h(1-4) assms(2,4), of "map of_char name @ [0]"])
    fix r'
    assume r': "grows (n_inode node) (listing r es p) name r r'" "node_is r' (ramfs_i_count r) (h_type ?h) 0"
      "and_then (ramfs_mkdir_entry node name (ramfs_i_count r) r) (\<lambda>(r1, _). link_header p (blk r1 (taken r1))
       (stray_name (ramfs_i_count r) (map of_char name @ [0]) ((upd_header (blk r1 (taken r1)) (\<lambda>_. ?h) r1)\<lparr>taken := taken r1 + 1\<rparr>))) = done_with (r', 0)"
    then have "ramfs_mknod node name mode dev r = done_with (r', 0)" using p(4,6) by (simp add: ramfs_mknod_def Let_def)
    then show thesis using that r'(1,2) h(5) p(5) by simp
  qed
qed

lemma ramfs_mkdir_adds:
  assumes "dir_is r (n_inode node) xs" "ramfs_i_count r < - 1" "fresh_blocks r" "length name < 256"
  obtains r' where "ramfs_mkdir node name mode r = done_with (r', 0)" "grows (n_inode node) xs name r r'"
    "node_is r' (ramfs_i_count r) FS_DIR 0" "dir_is r' (ramfs_i_count r) []"
proof (rule dir_isE [OF assms(1)])
  fix hs es p
  assume p: "ramfs_ok r hs es" "p \<in> set hs" "n_inode node = h_inode (headers r p)" "h_type (headers r p) = FS_DIR"
    "xs = listing r es p" "file_h node r = done_with p"
  have fr: "fresh_ok r hs es" using assms(3) p(1) by (simp add: fresh_blocks_def)
  let ?h = "zero_header\<lparr>h_mask := mode, h_type := FS_DIR, h_inode := ramfs_i_count r, h_parent := Some node, h_links := 1, h_data := 0\<rparr>"
  have h: "h_inode ?h = ramfs_i_count r" "h_next ?h = 0" "h_data ?h = 0" "h_mount_id ?h = 0" "h_type ?h = FS_DIR"
    by (simp_all add: zero_header_def)
  show thesis
  proof (rule create_grows [OF p(1) fr p(2-4) h(1-4) assms(2,4), of "map of_char (butlast name)"])
    fix r'
    assume r': "grows (n_inode node) (listing r es p) name r r'" "node_is r' (ramfs_i_count r) (h_type ?h) 0"
      "h_type ?h = FS_DIR \<Longrightarrow> dir_is r' (ramfs_i_count r) []"
      "and_then (ramfs_mkdir_entry node name (ramfs_i_count r) r) (\<lambda>(r1, _). link_header p (blk r1 (taken r1))
       (stray_name (ramfs_i_count r) (map of_char (butlast name)) ((upd_header (blk r1 (taken r1)) (\<lambda>_. ?h) r1)\<lparr>taken := taken r1 + 1\<rparr>))) = done_with (r', 0)"
    then have "ramfs_mkdir node name mode r = done_with (r', 0)" using p(4,6) by (simp add: ramfs_mkdir_def Let_def)
    then show thesis using that r'(1-3) h(5) p(5) by simp
  qed
qed

section \<open>Reading a directory\<close>

lemma entry_at_chain:
  "chain (\<lambda>a. d_next (es a)) p as \<Longrightarrow> entry_at es p n = (if n < length as then as ! n else 0)"
proof (induction as arbitrary: p n)
  case Nil
  then show ?case by (cases n) auto
next
  case (Cons a as)
  then show ?case by (cases n) auto
qed

lemma ramfs_readdir_nth:
  assumes "dir_is r (n_inode node) xs" "n \<le> length xs" "n < 2 ^ 31"
  shows "\<exists>w. ramfs_readdir node (of_nat n) r = done_with (w, if n < length xs then 1 else 0) \<and>
    (n < length xs \<longrightarrow> (\<exists>e. w = Some e \<and> de_name e = fst (xs ! n) \<and> de_inode e = snd (xs ! n))) \<and> (n = length xs \<longrightarrow> w = None)"
proof (rule dir_isE [OF assms(1)])
  fix hs es p
  assume p: "ramfs_ok r hs es" "p \<in> set hs" "n_inode node = h_inode (headers r p)" "h_type (headers r p) = FS_DIR"
    "xs = listing r es p" "file_h node r = done_with p"
  have c: "chain (elinks r) (h_data (headers r p)) (es p)" by (rule dirs_okD [OF p(1,2,4)])
  have z: "0 \<notin> set (es p)" by (rule chain_nonzero [OF c])
  have "signed_take_bit 31 (int n) = int n" using assms(3) by (simp add: signed_take_bit_int_eq_self_iff)
  then have s: "nat (sint (of_nat n :: u32)) = n" by (simp add: signed_of_nat)
  have l: "length xs = length (es p)" using p(5) by (simp add: listing_def)
  have "es p ! n \<noteq> 0" "\<not> d_name_len (entries r (es p ! n)) > 256" if "n < length (es p)"
    using z nth_mem [OF that] p(1) unfolding ramfs_ok_def names_ok_def by (metis, metis not_less)
  then show ?thesis
    using p(4-6) l assms(2) entry_at_chain [OF c, of n] by (auto simp: ramfs_readdir_def s Let_def listing_def)
qed

lemma dir_is_short_names: "dir_is r i xs \<Longrightarrow> e \<in> set xs \<Longrightarrow> length (fst e) < 256"
  by (auto simp: dir_is_def listing_def ramfs_ok_def names_ok_def)

lemma ramfs_get_info_node:
  assumes "node_is r (n_inode node) type mount"
  shows "\<exists>i. ramfs_get_info node r = done_with (Some i, 0) \<and> fi_type i = type \<and> fi_mount_id i = mount"
proof -
  from assms obtain hs es p where p: "ramfs_ok r hs es" "p \<in> set hs" "n_inode node = h_inode (headers r p)"
    "h_type (headers r p) = type" "h_mount_id (headers r p) = mount" by (auto simp: node_is_def)
  show ?thesis using file_h_ok(2,3) [OF p(1-3)] p(4,5) by (simp add: ramfs_get_info_def Let_def)
qed

section \<open>A new file system\<close>

lemma init_ramfs_ok:
  assumes "blk r (taken r + 2) \<noteq> 0"
  shows "ramfs_ok (fst (init_ramfs r)) [blk r (taken r + 2)] (\<lambda>_. [])" "h_size (headers (fst (init_ramfs r)) (blk r (taken r + 2))) = 0"
    "h_inode (headers (fst (init_ramfs r)) (blk r (taken r + 2))) = 1" "h_type (headers (fst (init_ramfs r)) (blk r (taken r + 2))) = FS_DIR"
    "h_mount_id (headers (fst (init_ramfs r)) (blk r (taken r + 2))) = 0"
  using assms by (simp_all add: ramfs_ok_def dirs_ok_def names_ok_def init_ramfs_def Let_def zero_header_def)

definition demo_ramfs :: ramfs where
  "demo_ramfs = fst (init_ramfs \<lparr>headers = \<lambda>_. zero_header, entries = \<lambda>_. \<lparr>d_inode = 0, d_size = 0, d_name_len = 0, d_name = [], d_next = 0\<rparr>,
     bytes = (\<lambda>a. ucast a), ramfs_files = 0, ramfs_i_count = 0, blk = \<lambda>n. 0x1000 + 0x100 * of_nat n, taken = 0\<rparr>)"

lemma demo_ramfs_ok: "ramfs_ok demo_ramfs [0x1200] (\<lambda>_. [])"
  unfolding demo_ramfs_def
  using init_ramfs_ok(1) [of "\<lparr>headers = \<lambda>_. zero_header, entries = \<lambda>_. \<lparr>d_inode = 0, d_size = 0, d_name_len = 0, d_name = [], d_next = 0\<rparr>,
     bytes = (\<lambda>a. ucast a), ramfs_files = 0, ramfs_i_count = 0, blk = \<lambda>n. 0x1000 + 0x100 * of_nat n, taken = 0\<rparr>"] by simp

lemma demo_ramfs_facts:
  "ramfs_i_count demo_ramfs = 2" "blk demo_ramfs n = 0x1000 + 0x100 * of_nat n" "taken demo_ramfs = 3" "bytes demo_ramfs a = ucast a"
  "h_inode (headers demo_ramfs 0x1200) = 1" "h_size (headers demo_ramfs 0x1200) = 0"
  by (simp_all add: demo_ramfs_def init_ramfs_def Let_def zero_header_def)

end
