(* ===== verification/Ramfs_Data.thy ===== *)
theory Ramfs_Data
  imports Ramfs_Tree
begin

text \<open>File contents: what \<open>ramfs_pwrite\<close> leaves in memory and what \<open>ramfs_pread\<close> gets back.\<close>

section \<open>The copying loops\<close>

lemma word_Suc_le:
  fixes i y :: u32
  assumes "i < en"
  shows "i + 1 \<le> y \<longleftrightarrow> i < y" "i + 1 \<le> en"
proof -
  have "unat i < unat en" using assms by (simp add: word_less_nat_alt)
  then have "unat (i + 1) = unat i + 1" using unat_u32_less [of en] unat_add_lem [of i 1, THEN iffD1] by simp
  then show "i + 1 \<le> y \<longleftrightarrow> i < y" "i + 1 \<le> en" using \<open>unat i < unat en\<close> by (auto simp: word_le_nat_alt word_less_nat_alt)
qed

lemma pwrite_loop_bytes:
  assumes "i \<le> en" "\<And>j k. j < en \<Longrightarrow> i \<le> k \<Longrightarrow> k < en \<Longrightarrow> inpt + (k - offset) \<noteq> file_data + j"
  shows "pwrite_loop inpt file_data offset en i m =
    (\<lambda>x. if i \<le> x - file_data \<and> x - file_data < en then m (inpt + (x - file_data - offset)) else m x, en)"
  using assms
proof (induction inpt file_data offset en i m rule: pwrite_loop.induct)
  case (1 inpt file_data offset en i m)
  show ?case
  proof (cases "i < en")
    case True
    let ?m = "m(file_data + i := m (inpt + (i - offset)))"
    note w = word_Suc_le [OF True]
    have "pwrite_loop inpt file_data offset en i m = pwrite_loop inpt file_data offset en (i + 1) ?m"
      using True by (subst pwrite_loop.simps) simp
    also have "\<dots> = (\<lambda>x. if i + 1 \<le> x - file_data \<and> x - file_data < en then ?m (inpt + (x - file_data - offset)) else ?m x, en)"
      by (rule 1(1) [OF True w(2)]) (use 1(3) w(1) in \<open>auto simp: order_less_imp_le\<close>)
    also have "\<dots> = (\<lambda>x. if i \<le> x - file_data \<and> x - file_data < en then m (inpt + (x - file_data - offset)) else m x, en)"
    proof -
      have "(if i + 1 \<le> x - file_data \<and> x - file_data < en then ?m (inpt + (x - file_data - offset)) else ?m x) =
        (if i \<le> x - file_data \<and> x - file_data < en then m (inpt + (x - file_data - offset)) else m x)" for x
      proof (cases "x - file_data = i")
        case eq: True
        then have "x = file_data + i" by (auto simp: algebra_simps)
        then show ?thesis using True w(1) [of i] by simp
      next
        case False
        then have "x \<noteq> file_data + i" "i \<le> x - file_data \<longleftrightarrow> i < x - file_data" by auto
        moreover have "inpt + (x - file_data - offset) \<noteq> file_data + i" if "i < x - file_data" "x - file_data < en"
          using 1(3) [OF True, of "x - file_data"] that by (simp add: order_less_imp_le)
        ultimately show ?thesis using w(1) [of "x - file_data"] by (simp only: fun_upd_apply) auto
      qed
      then show ?thesis by auto
    qed
    finally show ?thesis .
  next
    case False
    with 1(2) have "i = en" by simp
    then show ?thesis by (subst pwrite_loop.simps) (auto simp: fun_eq_iff)
  qed
qed

lemma pread_loop_short:
  "j \<le> l \<Longrightarrow> l \<le> len \<Longrightarrow> unat i + (unat l - unat j) = unat flen \<Longrightarrow>
    pread_loop outp file_data len flen i j m = pread_loop outp file_data l flen i j m"
proof (induction outp file_data len flen i j m rule: pread_loop.induct)
  case (1 outp file_data len flen i j m)
  show ?case
  proof (cases "j < l \<and> i < flen")
    case True
    then have u: "unat j < unat l" "unat i < unat flen" "j < len" using "1.prems" by (auto simp: word_less_nat_alt word_le_nat_alt)
    have s: "unat (j + 1) = unat j + 1" "unat (i + 1) = unat i + 1"
      using u unat_u32_less [of l] unat_u32_less [of flen] unat_add_lem [of j 1, THEN iffD1] unat_add_lem [of i 1, THEN iffD1] by simp_all
    have "pread_loop outp file_data len flen (i + 1) (j + 1) (m(outp + j := m (file_data + i))) =
        pread_loop outp file_data l flen (i + 1) (j + 1) (m(outp + j := m (file_data + i)))"
      by (rule "1.IH") (use u s True "1.prems" in \<open>auto simp: word_le_nat_alt\<close>)
    then show ?thesis using True u(3) by (subst (1 2) pread_loop.simps) simp
  next
    case False
    have "i < flen \<longleftrightarrow> j < l" using "1.prems" by (auto simp: word_less_nat_alt word_le_nat_alt)
    then show ?thesis using False by (subst (1 2) pread_loop.simps) auto
  qed
qed

lemma pread_loop_bytes:
  assumes "j \<le> len" "unat i + (unat len - unat j) \<le> unat flen" "\<And>a b. j \<le> a \<Longrightarrow> a < len \<Longrightarrow> j \<le> b \<Longrightarrow> b < len \<Longrightarrow> file_data + (i - j) + b \<noteq> outp + a"
  shows "pread_loop outp file_data len flen i j m =
    (\<lambda>x. if j \<le> x - outp \<and> x - outp < len then m (file_data + (i - j) + (x - outp)) else m x, i + (len - j))"
  using assms
proof (induction outp file_data len flen i j m rule: pread_loop.induct)
  case (1 outp file_data len flen i j m)
  show ?case
  proof (cases "j < len")
    case True
    let ?m = "m(outp + j := m (file_data + i))"
    note w = word_Suc_le [OF True]
    have un: "unat j < unat len" using True by (simp add: word_less_nat_alt)
    have i: "i < flen" using 1(3) un by (simp add: word_less_nat_alt)
    have ui: "unat (i + 1) = unat i + 1" "unat (j + 1) = unat j + 1"
      using i True unat_u32_less [of flen] unat_u32_less [of len] unat_add_lem [of i 1, THEN iffD1] unat_add_lem [of j 1, THEN iffD1]
      by (auto simp: word_less_nat_alt)
    have "pread_loop outp file_data len flen i j m = pread_loop outp file_data len flen (i + 1) (j + 1) ?m"
      using True i by (subst pread_loop.simps) simp
    also have "\<dots> = (\<lambda>x. if j + 1 \<le> x - outp \<and> x - outp < len then ?m (file_data + (i + 1 - (j + 1)) + (x - outp)) else ?m x,
        i + 1 + (len - (j + 1)))"
      by (rule 1(1)) (use True i w 1(3,4) un ui in \<open>auto simp: order_less_imp_le\<close>)
    also have "\<dots> = (\<lambda>x. if j \<le> x - outp \<and> x - outp < len then m (file_data + (i - j) + (x - outp)) else m x, i + (len - j))"
    proof -
      have "(if j + 1 \<le> x - outp \<and> x - outp < len then ?m (file_data + (i + 1 - (j + 1)) + (x - outp)) else ?m x) =
        (if j \<le> x - outp \<and> x - outp < len then m (file_data + (i - j) + (x - outp)) else m x)" for x
      proof (cases "x - outp = j")
        case True
        then have "x = outp + j" by (auto simp: algebra_simps)
        then show ?thesis using \<open>j < len\<close> w(1) [of j] by (simp add: algebra_simps)
      next
        case False
        then have "x \<noteq> outp + j" "j \<le> x - outp \<longleftrightarrow> j < x - outp" by auto
        moreover have "file_data + (i - j) + (x - outp) \<noteq> outp + j" if "j < x - outp" "x - outp < len"
          using 1(4) [of j "x - outp"] that \<open>j < len\<close> by (simp add: order_less_imp_le)
        moreover have "i + 1 - (j + 1) = i - j" by simp
        ultimately show ?thesis using w(1) [of "x - outp"] by (simp only: fun_upd_apply) auto
      qed
      then show ?thesis by (auto simp: fun_eq_iff)
    qed
    finally show ?thesis .
  next
    case False
    with 1(2) have "j = len" by simp
    then show ?thesis by (subst pread_loop.simps) (auto simp: fun_eq_iff)
  qed
qed

section \<open>Writing and reading back\<close>

text \<open>A write of more bytes than the file has: a fresh block, of which the first \<open>offset\<close> bytes are not written.\<close>

lemma ramfs_pwrite_fresh:
  assumes p: "file_h node r = done_with p" "h_size (headers r p) < len" "unat len + unat offset + 1 < 2 ^ 32"
    and t: "t = blk r (taken r)" and apart: "\<And>j k. j \<le> len + offset \<Longrightarrow> k \<le> len \<Longrightarrow> buf + k \<noteq> t + j"
  obtains r' where "ramfs_pwrite node buf len offset r = done_with (r', len + offset + 1)"
    "headers r' = (headers r)(p := (headers r p)\<lparr>h_data := t, h_size := len\<rparr>)"
    "bytes r' = (\<lambda>x. if offset \<le> x - t \<and> x - t \<le> len + offset then bytes r (buf + (x - t - offset)) else bytes r x)"
    "entries r' = entries r" "ramfs_files r' = ramfs_files r" "ramfs_i_count r' = ramfs_i_count r" "blk r' = blk r" "taken r' = taken r + 1"
proof -
  let ?en = "len + offset + 1"
  have ul: "unat (len + offset) = unat len + unat offset" using p(3) by (intro unat_add_lem [THEN iffD1]) simp
  have ue: "unat ?en = unat len + unat offset + 1" using p(3) unat_add_lem [of "len + offset" 1, THEN iffD1] ul by simp
  have le: "x < ?en \<longleftrightarrow> x \<le> len + offset" "offset \<le> ?en" for x by (auto simp: word_less_nat_alt word_le_nat_alt ue ul)
  have k: "k - offset \<le> len" if "offset \<le> k" "k \<le> len + offset" for k
    using that by (simp add: word_le_nat_alt unat_sub ul)
  let ?r1 = "(upd_header p (\<lambda>h. h\<lparr>h_data := t\<rparr>) r)\<lparr>taken := taken r + 1\<rparr>"
  let ?m = "\<lambda>x. if offset \<le> x - t \<and> x - t \<le> len + offset then bytes r (buf + (x - t - offset)) else bytes r x"
  have "pwrite_loop buf t offset ?en offset (bytes r) = (?m, ?en)"
    by (subst pwrite_loop_bytes) (use le k apart in auto)
  then have "ramfs_pwrite node buf len offset r = done_with (upd_header p (\<lambda>h. h\<lparr>h_size := len\<rparr>) (?r1\<lparr>bytes := ?m\<rparr>), ?en)"
    using p(1,2) t by (simp add: ramfs_pwrite_def Let_def)
  then show thesis by (rule that) (simp_all add: fun_upd_def cong: if_cong)
qed

text \<open>
  C22. What is written from the start of a file can be read back: after a write of \<open>len\<close> bytes, more than the file had
  before, at offset 0, reading \<open>len\<close> bytes returns them unchanged, as long as neither buffer overlaps the new block.
  The write reports one byte more than asked for.
\<close>

theorem ramfs_write_read:
  assumes "ramfs_ok r hs es" "p \<in> set hs" "n_inode node = h_inode (headers r p)" "h_size (headers r p) < len" "len < - 1"
    and "\<forall>j\<le>len. \<forall>k\<le>len. buf + k \<noteq> blk r (taken r) + j" "\<forall>j<len. \<forall>k<len. dst + k \<noteq> blk r (taken r) + j"
  shows "\<exists>r1 r2. ramfs_pwrite node buf len 0 r = done_with (r1, len + 1) \<and> ramfs_pread node dst len 0 r1 = done_with (r2, len) \<and>
    (\<forall>k<len. bytes r2 (dst + k) = bytes r (buf + k))"
proof -
  let ?t = "blk r (taken r)"
  have "unat len + unat (0 :: u32) + 1 < 2 ^ 32" using assms(5) by (simp add: word_less_nat_alt unat_u32_minus_1)
  note w = ramfs_pwrite_fresh [OF file_h_ok(1) [OF assms(1-3)] assms(4) this refl, of buf]
  obtain r1 where "ramfs_pwrite node buf len 0 r = done_with (r1, len + 0 + 1)"
    "headers r1 = (headers r)(p := (headers r p)\<lparr>h_data := ?t, h_size := len\<rparr>)"
    "bytes r1 = (\<lambda>x. if 0 \<le> x - ?t \<and> x - ?t \<le> len + 0 then bytes r (buf + (x - ?t - 0)) else bytes r x)"
    "ramfs_files r1 = ramfs_files r"
    by (rule w) (use assms(6) in auto)
  then have r1: "ramfs_pwrite node buf len 0 r = done_with (r1, len + 1)"
    "headers r1 = (headers r)(p := (headers r p)\<lparr>h_data := ?t, h_size := len\<rparr>)"
    "bytes r1 = (\<lambda>x. if x - ?t \<le> len then bytes r (buf + (x - ?t)) else bytes r x)" "ramfs_files r1 = ramfs_files r"
    by (simp_all add: fun_eq_iff)
  have "ramfs_get_file_h (n_inode node) r1 = ramfs_get_file_h (n_inode node) r"
    unfolding ramfs_get_file_h_def r1(2,4) by (rule arg_cong3 [where f = find_link]) (auto simp: fun_eq_iff)
  then have f: "file_h node r1 = done_with p" using file_h_ok(1) [OF assms(1-3)] by (simp add: file_h_def)
  let ?m2 = "\<lambda>x. if x - dst < len then bytes r1 (?t + (x - dst)) else bytes r1 x"
  have "pread_loop dst ?t len len 0 0 (bytes r1) = (?m2, len)"
    by (subst pread_loop_bytes) (use assms(7) in \<open>fastforce+\<close>)
  then have "ramfs_pread node dst len 0 r1 = done_with (r1\<lparr>bytes := ?m2\<rparr>, len)"
    using f by (simp add: ramfs_pread_def r1(2))
  moreover have "?m2 (dst + k) = bytes r (buf + k)" if "k < len" for k using that by (simp add: r1(3) order_less_imp_le)
  ultimately show ?thesis using r1(1) by auto
qed

text \<open>
  Writing further into a file loses what is before: a write at \<open>offset\<close> of more bytes than the file has starts a new
  block, whose first \<open>offset\<close> bytes keep whatever the memory held, and the length of the file becomes the number of
  bytes of this one write.
\<close>

theorem ramfs_write_forgets:
  assumes "file_h node r = done_with p" "h_size (headers r p) < len" "unat len + unat offset + 1 < 2 ^ 32"
    and "\<forall>j\<le>len + offset. \<forall>k\<le>len. buf + k \<noteq> blk r (taken r) + j"
  shows "\<exists>r'. ramfs_pwrite node buf len offset r = done_with (r', len + offset + 1) \<and> h_size (headers r' p) = len \<and>
    h_data (headers r' p) = blk r (taken r) \<and> (\<forall>k<offset. bytes r' (blk r (taken r) + k) = bytes r (blk r (taken r) + k))"
  by (rule ramfs_pwrite_fresh [OF assms(1-3) refl, of buf]) (use assms(4) in \<open>auto simp: not_le\<close>)

section \<open>Concrete files\<close>

lemma far_apart:
  fixes a b j k :: u32
  assumes "j \<le> 9" "k \<le> 9" "unat a + 9 < unat b" "unat b < 0x10000"
  shows "a + k \<noteq> b + j"
proof
  assume e: "a + k = b + j"
  have u: "unat j \<le> 9" "unat k \<le> 9" using assms(1,2) by (simp_all add: word_le_nat_alt)
  then have "unat (a + k) = unat a + unat k" "unat (b + j) = unat b + unat j"
    using assms(3,4) by (simp_all add: unat_word_ariths)
  then show False using e u assms(3) by simp
qed

theorem ramfs_write_read_witness:
  "\<exists>r1 r2. ramfs_pwrite \<lparr>n_inode = 1, n_fs = 0\<rparr> 0x50 4 0 demo_ramfs = done_with (r1, 5) \<and>
    ramfs_pread \<lparr>n_inode = 1, n_fs = 0\<rparr> 0x90 4 0 r1 = done_with (r2, 4) \<and> bytes r2 0x92 = 0x52"
proof -
  have t: "blk demo_ramfs (taken demo_ramfs) = 0x1300" by (simp add: demo_ramfs_facts)
  have le: "x \<le> 4 \<Longrightarrow> x \<le> 9" "x < 4 \<Longrightarrow> x \<le> 9" for x :: u32 by (simp_all add: word_le_nat_alt word_less_nat_alt)
  have "\<forall>j\<le>4. \<forall>k\<le>4. 0x50 + k \<noteq> blk demo_ramfs (taken demo_ramfs) + j" "\<forall>j<4. \<forall>k<4. 0x90 + k \<noteq> blk demo_ramfs (taken demo_ramfs) + j"
    unfolding t by (intro allI impI far_apart; simp add: le)+
  from ramfs_write_read [OF demo_ramfs_ok, of "0x1200" "\<lparr>n_inode = 1, n_fs = 0\<rparr>" 4, OF _ _ _ _ this]
  obtain r1 r2 where r: "ramfs_pwrite \<lparr>n_inode = 1, n_fs = 0\<rparr> 0x50 4 0 demo_ramfs = done_with (r1, 5)"
    "ramfs_pread \<lparr>n_inode = 1, n_fs = 0\<rparr> 0x90 4 0 r1 = done_with (r2, 4)" "\<forall>k<4. bytes r2 (0x90 + k) = bytes demo_ramfs (0x50 + k)"
    by (auto simp: demo_ramfs_facts)
  have "bytes r2 (0x90 + 2) = bytes demo_ramfs (0x50 + 2)" by (rule r(3) [rule_format]) simp
  with r(1,2) show ?thesis by (auto simp: demo_ramfs_facts)
qed

theorem ramfs_write_forgets_witness:
  "\<exists>r'. ramfs_pwrite \<lparr>n_inode = 1, n_fs = 0\<rparr> 0x50 4 5 demo_ramfs = done_with (r', 10) \<and> h_size (headers r' 0x1200) = 4 \<and>
    bytes r' 0x1300 = 0"
proof -
  have t: "blk demo_ramfs (taken demo_ramfs) = 0x1300" by (simp add: demo_ramfs_facts)
  have f: "file_h \<lparr>n_inode = 1, n_fs = 0\<rparr> demo_ramfs = done_with 0x1200"
    by (rule file_h_ok(1) [OF demo_ramfs_ok]) (simp_all add: demo_ramfs_facts)
  have le: "x \<le> 4 \<Longrightarrow> x \<le> 9" "x \<le> 4 + 5 \<Longrightarrow> x \<le> 9" for x :: u32 by (simp_all add: word_le_nat_alt)
  have "\<forall>j\<le>4 + 5. \<forall>k\<le>4. 0x50 + k \<noteq> blk demo_ramfs (taken demo_ramfs) + j" unfolding t by (intro allI impI far_apart; simp add: le)+
  from ramfs_write_forgets [OF f _ _ this] obtain r' where r': "ramfs_pwrite \<lparr>n_inode = 1, n_fs = 0\<rparr> 0x50 4 5 demo_ramfs = done_with (r', 10)"
    "h_size (headers r' 0x1200) = 4" "\<forall>k<5. bytes r' (0x1300 + k) = bytes demo_ramfs (0x1300 + k)"
    by (auto simp: demo_ramfs_facts)
  have "bytes r' (0x1300 + 0) = bytes demo_ramfs (0x1300 + 0)" by (rule r'(3) [rule_format]) simp
  with r'(1,2) show ?thesis by (auto simp: demo_ramfs_facts)
qed

end
