(* ===== verification/Vfs.thy ===== *)
theory Vfs
  imports Fs
begin

text \<open>
  The virtual file system, \<open>kern/fs/fs.c\<close>. The file systems are an argument: \<open>ops f\<close> is the function table of the
  file system structure at \<open>f\<close>, over a common state \<open>'s\<close>. The state of the layer holds the nodes, the descriptors, the
  fields of the running task that it uses, the mount list and the list of file systems.

  Blocks come from \<open>kmalloc\<close>: \<open>v_blk n\<close> is the address the \<open>n\<close>-th request got. Blocks that only live during a call are
  values; the blocks given back by \<open>kfree\<close> while the state still points to them are in \<open>v_freed\<close>. The entry buffer of
  \<open>fs_find_node\<close> is not cleared, \<open>v_scratch\<close> is what it holds at first. \<open>open\<close> and the operations on descriptors run in a task.
\<close>

section \<open>State\<close>

record 's vfs =
  v_data :: 's
  v_nodes :: "u32 \<Rightarrow> file_node_t"
  v_descs :: "u32 \<Rightarrow> file_descript_t"
  v_files :: "u32 list"
  v_file_count :: u32
  v_in_task :: bool
  v_uid :: u32
  v_gid :: u32
  v_root :: u32
  v_cwd :: u32
  fs_root :: u32
  v_lists :: llist
  file_system_list :: u32
  mount_list :: u32
  mount_ids :: u32
  v_blk :: "nat \<Rightarrow> u32"
  v_taken :: nat
  v_freed :: "u32 list"
  v_scratch :: dirent

type_synonym 's fs_table = "u32 \<Rightarrow> 's file_funcs_t"

abbreviation file_funcs :: "'s fs_table \<Rightarrow> file_node_t \<Rightarrow> 's file_funcs_t" where
  "file_funcs ops node \<equiv> ops (n_fs node)"

definition set_fs_root :: "u32 \<Rightarrow> u32 \<Rightarrow> 's vfs \<Rightarrow> 's vfs" where
  "set_fs_root new_root i_root v =
    (let v1 = (if fs_root v = 0 then v\<lparr>fs_root := v_blk v (v_taken v), v_taken := v_taken v + 1\<rparr> else v)
     in v1\<lparr>v_nodes := (v_nodes v1)(fs_root v1 := \<lparr>n_inode = i_root, n_fs = new_root\<rparr>)\<rparr>)"

section \<open>Mounts\<close>

definition zero_llist :: llist_node_t where
  "zero_llist = \<lparr>l_next = 0, l_prev = 0, l_data = 0, l_val = 0\<rparr>"

definition register_fs :: "u32 \<Rightarrow> 's vfs \<Rightarrow> ('s vfs \<times> int) option" where
  "register_fs newfs v =
    (let v1 = (if file_system_list v = 0
               then v\<lparr>file_system_list := v_blk v (v_taken v), v_lists := (v_lists v)(v_blk v (v_taken v) := zero_llist),
                      v_taken := v_taken v + 1\<rparr> else v)
     in case l_add_node_end (v_blk v1 (v_taken v1)) (file_system_list v1) newfs (v_lists v1) of None \<Rightarrow> None
        | Some (ls, _) \<Rightarrow> Some (v1\<lparr>v_lists := ls, v_taken := v_taken v1 + 1\<rparr>, 0))"

text \<open>The blocks taken are the copy of the node, the list if there is none, and the new list node.\<close>

definition register_mount_node :: "file_node_t \<Rightarrow> 's vfs \<Rightarrow> ('s vfs \<times> u32) option" where
  "register_mount_node node v =
    (let blarg = v_blk v (v_taken v);
         v1 = v\<lparr>v_taken := v_taken v + 1\<rparr>;
         v2 = (if mount_list v1 = 0
               then v1\<lparr>mount_list := v_blk v1 (v_taken v1), v_lists := (v_lists v1)(v_blk v1 (v_taken v1) := zero_llist),
                       v_taken := v_taken v1 + 1\<rparr> else v1)
     in case l_add_node_end (v_blk v2 (v_taken v2)) (mount_list v2) 0 (v_lists v2) of None \<Rightarrow> None
        | Some (ls, move) \<Rightarrow>
            let mid = mount_ids v2 + 1
            in Some (v2\<lparr>v_nodes := (v_nodes v2)(blarg := node),
                  v_lists := ls(move := (ls move)\<lparr>l_data := blarg, l_val := mid\<rparr>),
                  v_taken := v_taken v2 + 1, mount_ids := mid\<rparr>, mid))"

text \<open>The node written to \<open>nodebuf\<close>, if any, and the result.\<close>

definition get_mount_node :: "u32 \<Rightarrow> 's vfs \<Rightarrow> (file_node_t option \<times> int) run" where
  "get_mount_node mid v =
    (case find_link (\<lambda>a. l_next (v_lists v a)) (\<lambda>a. l_val (v_lists v a) = mid) (mount_list v) of None \<Rightarrow> None
     | Some move \<Rightarrow>
         if move = 0 then done_with (None, - ENOENT)
         else let blarg = l_data (v_lists v move)
              in if blarg = 0 then Some (Inl Null_Deref) else done_with (Some (v_nodes v blarg), 1))"

definition fs_mount :: "'s fs_table \<Rightarrow> file_node_t \<Rightarrow> file_node_t \<Rightarrow> 's vfs \<Rightarrow> ('s vfs \<times> int) run" where
  "fs_mount ops type dir v =
    (case register_mount_node dir v of None \<Rightarrow> None
     | Some (v1, mid) \<Rightarrow>
         if sint mid < 1 then done_with (v1, sint mid)
         else and_then (f_callback (file_funcs ops type) type FOP_SET FVAR_MOUNT_ID mid (v_data v1))
                (\<lambda>(s, ret). done_with (v1\<lparr>v_data := s\<rparr>, ret)))"

section \<open>Finding nodes\<close>

text \<open>The names of a path, as the scan of \<open>fs_find_node\<close> for the next slash cuts them off.\<close>

fun path_names :: "string \<Rightarrow> string list" where
  "path_names [] = [[]]"
| "path_names (c # cs) =
     (if c = CHR ''/'' then [] # path_names cs
      else case path_names cs of [] \<Rightarrow> [[c]] | n # ns \<Rightarrow> (c # n) # ns)"

text \<open>The inner loop: read entries from \<open>d\<close> on until one has the name or there are no more.\<close>

partial_function (option) find_entry ::
    "'s fs_table \<Rightarrow> file_node_t \<Rightarrow> string \<Rightarrow> u32 \<Rightarrow> dirent \<Rightarrow> 's \<Rightarrow> (u32 option \<times> dirent) run" where
  "find_entry ops temp name d dir s =
    and_then (f_readdir (file_funcs ops temp) temp d s) (\<lambda>(w, r).
      let dir1 = (case w of None \<Rightarrow> dir | Some e \<Rightarrow> e)
      in if r = 0 then done_with (None, dir1)
         else if de_name dir1 = name then done_with (Some (de_inode dir1), dir1)
         else find_entry ops temp name (d + of_int r) dir1 s)"

text \<open>The outer loop, one name of the path per round; the result is the error and what went to \<open>nodebuf\<close>.\<close>

fun find_walk :: "'s fs_table \<Rightarrow> 's vfs \<Rightarrow> file_node_t \<Rightarrow> file_info_t \<Rightarrow> dirent \<Rightarrow> string list \<Rightarrow> (int \<times> file_node_t option) run" where
  "find_walk ops v temp n_info dir [] = done_with (- ENOENT, None)"
| "find_walk ops v temp n_info dir (name # next) =
     (if name = ''.'' then
        (if next = [] then done_with (0, Some temp) else find_walk ops v temp n_info dir next)
      else if name = ''..'' then done_with (- ENOTDIR, None)
      else if fi_type n_info = FS_DIR then
        and_then (find_entry ops temp name 0 dir (v_data v)) (\<lambda>(found, dir1).
          case found of None \<Rightarrow> done_with (- ENOENT, None)
          | Some inode \<Rightarrow>
              let temp1 = temp\<lparr>n_inode := inode\<rparr>
              in and_then (f_get_info (file_funcs ops temp1) temp1 (v_data v)) (\<lambda>(w, _).
                   let n_info1 = (case w of None \<Rightarrow> n_info | Some i \<Rightarrow> i)
                   in and_then (if fi_mount_id n_info1 \<noteq> 0 then get_mount_node (fi_mount_id n_info1) v else done_with (None, 0))
                        (\<lambda>(m, _). let temp2 = (case m of None \<Rightarrow> temp1 | Some nd \<Rightarrow> nd)
                                   in if next = [] then done_with (0, Some temp2) else find_walk ops v temp2 n_info1 dir1 next)))
      else done_with (- ENOTDIR, None))"

definition fs_find_node :: "'s fs_table \<Rightarrow> file_node_t \<Rightarrow> string \<Rightarrow> 's vfs \<Rightarrow> (int \<times> file_node_t option) run" where
  "fs_find_node ops node path v =
    and_then (f_get_info (file_funcs ops node) node (v_data v)) (\<lambda>(w, _).
      find_walk ops v node (case w of None \<Rightarrow> zero_info | Some i \<Rightarrow> i) (v_scratch v) (path_names path))"

definition fs_find_path :: "'s fs_table \<Rightarrow> string \<Rightarrow> 's vfs \<Rightarrow> (int \<times> file_node_t option) run" where
  "fs_find_path ops input_path v =
    (let path = (if input_path = [] then ''.'' else input_path)
     in if hd path = CHR ''/'' then
          (let fp = (if v_in_task v then v_root v else fs_root v); path1 = dropWhile (\<lambda>c. c = CHR ''/'') path
           in if path1 = [] then done_with (0, Some (v_nodes v fp)) else fs_find_node ops (v_nodes v fp) path1 v)
        else fs_find_node ops (v_nodes v (if v_in_task v then v_cwd v else fs_root v)) path v)"

section \<open>Descriptors\<close>

definition isgoodfd :: "u32 \<Rightarrow> 's vfs \<Rightarrow> bool" where
  "isgoodfd fd v \<longleftrightarrow> \<not> (v_file_count v = 0 \<or> fd \<ge> v_file_count v) \<and> v_files v ! unat fd \<noteq> 0"

definition perms_of :: "'s vfs \<Rightarrow> file_info_t \<Rightarrow> u32" where
  "perms_of v n_info =
    (if v_uid v = fi_uid n_info then drop_bit P_USHIFT (fi_mask n_info) AND 7
     else if v_gid v = fi_gid n_info then drop_bit P_GSHIFT (fi_mask n_info) AND 7
     else drop_bit P_ESHIFT (fi_mask n_info) AND 7)"

definition good_op :: "u32 \<Rightarrow> u32 \<Rightarrow> bool" where
  "good_op flags perms \<longleftrightarrow> flags \<noteq> 0 \<and>
    \<not> (flags AND O_RDONLY \<noteq> 0 \<and> perms AND P_READ = 0) \<and>
    \<not> (flags AND O_WRONLY \<noteq> 0 \<and> perms AND P_WRITE = 0) \<and>
    \<not> (flags AND O_RDWR \<noteq> 0 \<and> \<not> (perms AND P_READ \<noteq> 0 \<and> perms AND P_WRITE \<noteq> 0)) \<and>
    \<not> (flags AND O_EXEC \<noteq> 0 \<and> perms AND P_EXEC = 0)"

definition check_perms :: "'s fs_table \<Rightarrow> file_node_t \<Rightarrow> u32 \<Rightarrow> 's vfs \<Rightarrow> bool run" where
  "check_perms ops node flags v =
    and_then (f_get_info (file_funcs ops node) node (v_data v)) (\<lambda>(w, _).
      done_with (good_op flags (perms_of v (case w of None \<Rightarrow> zero_info | Some i \<Rightarrow> i))))"

text \<open>The path up to the last slash, or nothing, and the name behind the last slash.\<close>

definition parent_path :: "string \<Rightarrow> string" where
  "parent_path path = (if CHR ''/'' \<in> set path then rev (tl (dropWhile (\<lambda>c. c \<noteq> CHR ''/'') (rev path))) else [])"

definition base_name :: "string \<Rightarrow> string" where
  "base_name path = rev (takeWhile (\<lambda>c. c \<noteq> CHR ''/'') (rev path))"

fun first_free :: "u32 list \<Rightarrow> nat \<Rightarrow> nat" where
  "first_free [] i = i"
| "first_free (f # fs) i = (if f = 0 then i else first_free fs (Suc i))"

text \<open>
  The last part of \<open>open\<close>: enter a descriptor for the node at \<open>fp\<close>. The block \<open>fp\<close> is freed on every way out.
\<close>

definition open_slot :: "u32 \<Rightarrow> 's vfs \<Rightarrow> 's vfs \<times> int" where
  "open_slot fp v =
    (if unat (v_file_count v) \<ge> MAX_FILES then (v, - EMFILE)
     else let i = first_free (v_files v) 0
          in if i = MAX_FILES then (v, - EMFILE)
             else let d = v_blk v (v_taken v)
                  in (v\<lparr>v_taken := v_taken v + 1, v_files := (v_files v)[i := d],
                        v_descs := (v_descs v)(d := \<lparr>fd_file = fp, r_offset = 0, w_offset = 0, d_offset = 0\<rparr>),
                        v_file_count := v_file_count v + 1\<rparr>, int i))"

definition set_node :: "u32 \<Rightarrow> file_node_t option \<Rightarrow> 's vfs \<Rightarrow> 's vfs" where
  "set_node fp nd v = (case nd of None \<Rightarrow> v | Some n \<Rightarrow> v\<lparr>v_nodes := (v_nodes v)(fp := n)\<rparr>)"

text \<open>\<open>open\<close> from the permission check on, and the whole of it; \<open>fp\<close> is the node block.\<close>

definition open_node :: "'s fs_table \<Rightarrow> string \<Rightarrow> u32 \<Rightarrow> bool \<Rightarrow> u32 \<Rightarrow> 's vfs \<Rightarrow> ('s vfs \<times> int) run" where
  "open_node ops path flags found fp v =
    (let node = v_nodes v fp in
     and_then (check_perms ops node flags v) (\<lambda>allowed.
       if \<not> allowed then done_with (v, - EACCES)
       else and_then (f_open (file_funcs ops node) node (base_name path) flags (v_data v)) (\<lambda>(s, err_val).
         let v1 = v\<lparr>v_data := s\<rparr>
         in if err_val < 0 then done_with (v1, err_val)
            else if found then done_with (open_slot fp v1)
            else and_then (fs_find_path ops path v1) (\<lambda>(err_val, nd).
              let v2 = set_node fp nd v1 in if err_val < 0 then done_with (v2, err_val) else done_with (open_slot fp v2)))))"

definition vfs_open :: "'s fs_table \<Rightarrow> string \<Rightarrow> u32 \<Rightarrow> 's vfs \<Rightarrow> ('s vfs \<times> int) run" where
  "vfs_open ops path flags v0 =
    (let fp = v_blk v0 (v_taken v0);
         v = v0\<lparr>v_taken := v_taken v0 + 1, v_nodes := (v_nodes v0)(fp := \<lparr>n_inode = 0, n_fs = 0\<rparr>)\<rparr>;
         finished = (\<lambda>(v1, err_val :: int). done_with (v1\<lparr>v_freed := fp # v_freed v1\<rparr>, err_val))
     in and_then (fs_find_path ops path v) (\<lambda>(err_val, nd).
          let v1 = set_node fp nd v
          in if err_val < 0 then
               (if flags AND O_CREAT \<noteq> 0 then
                  and_then (fs_find_path ops (parent_path path) v1) (\<lambda>(err_val, nd).
                    let v2 = set_node fp nd v1
                    in if err_val < 0 then finished (v2, err_val)
                       else and_then (open_node ops path flags False fp v2) finished)
                else finished (v1, - EPERM))
             else and_then (open_node ops path flags True fp v1) finished))"

definition vfs_close :: "'s fs_table \<Rightarrow> u32 \<Rightarrow> 's vfs \<Rightarrow> ('s vfs \<times> int) run" where
  "vfs_close ops fd v =
    (if \<not> isgoodfd fd v then done_with (v, - ENOENT)
     else let d = v_files v ! unat fd; node = v_nodes v (fd_file (v_descs v d))
          in and_then (f_close (file_funcs ops node) node (v_data v)) (\<lambda>(s, ret).
               done_with (v\<lparr>v_data := s, v_freed := d # v_freed v, v_files := (v_files v)[unat fd := 0],
                 v_file_count := v_file_count v - 1\<rparr>, ret)))"

definition upd_desc :: "u32 \<Rightarrow> (file_descript_t \<Rightarrow> file_descript_t) \<Rightarrow> 's vfs \<Rightarrow> 's vfs" where
  "upd_desc d f v = v\<lparr>v_descs := (v_descs v)(d := f (v_descs v d))\<rparr>"

definition vfs_read :: "'s fs_table \<Rightarrow> u32 \<Rightarrow> u32 \<Rightarrow> u32 \<Rightarrow> 's vfs \<Rightarrow> ('s vfs \<times> u32) run" where
  "vfs_read ops fd buf len v =
    (if \<not> isgoodfd fd v then done_with (v, - 1)
     else let d = v_files v ! unat fd; node = v_nodes v (fd_file (v_descs v d))
          in and_then (f_pread (file_funcs ops node) node buf len (r_offset (v_descs v d)) (v_data v)) (\<lambda>(s, i).
               done_with (upd_desc d (\<lambda>f. f\<lparr>r_offset := r_offset f + i\<rparr>) (v\<lparr>v_data := s\<rparr>), i)))"

definition vfs_write :: "'s fs_table \<Rightarrow> u32 \<Rightarrow> u32 \<Rightarrow> u32 \<Rightarrow> 's vfs \<Rightarrow> ('s vfs \<times> u32) run" where
  "vfs_write ops fd buf len v =
    (if \<not> isgoodfd fd v then done_with (v, - 1)
     else let d = v_files v ! unat fd; node = v_nodes v (fd_file (v_descs v d))
          in and_then (f_pwrite (file_funcs ops node) node buf len (w_offset (v_descs v d)) (v_data v)) (\<lambda>(s, i).
               let v1 = v\<lparr>v_data := s\<rparr>
               in done_with (if i > 0 then upd_desc d (\<lambda>f. f\<lparr>w_offset := w_offset f + i\<rparr>) v1 else v1, i)))"

definition lseek :: "u32 \<Rightarrow> u32 \<Rightarrow> int \<Rightarrow> 's vfs \<Rightarrow> 's vfs \<times> int" where
  "lseek fd offset whence v =
    (if \<not> isgoodfd fd v then (v, - ENOENT)
     else let d = v_files v ! unat fd; r = r_offset (v_descs v d); w = w_offset (v_descs v d);
              moved = (\<lambda>ro wo. let v1 = upd_desc d (\<lambda>f. f\<lparr>r_offset := ro, w_offset := wo\<rparr>) v in (v1, sint (r_offset (v_descs v1 d))))
          in if whence = 0 then (if sint offset < 0 then (v, - 1) else moved offset offset)
             else if whence = 1 then (if uint (r + offset) < 0 then (v, - 1) else moved (r + offset) (w + offset))
             else if whence = 2 then (if sint (0 + offset) < 0 then (v, - 1) else moved (0 + offset) (0 + offset))
             else (v, - EINVAL))"

definition readdir :: "'s fs_table \<Rightarrow> u32 \<Rightarrow> 's vfs \<Rightarrow> ('s vfs \<times> dirent option \<times> int) run" where
  "readdir ops fd v =
    (if \<not> isgoodfd fd v then done_with (v, None, - ENOENT)
     else let d = v_files v ! unat fd; node = v_nodes v (fd_file (v_descs v d)); offset = d_offset (v_descs v d);
              v1 = upd_desc d (\<lambda>f. f\<lparr>d_offset := d_offset f + 1\<rparr>) v
          in and_then (f_readdir (file_funcs ops node) node offset (v_data v1)) (\<lambda>(w, ret). done_with (v1, w, ret)))"

section \<open>Paths\<close>

definition chdir :: "'s fs_table \<Rightarrow> string \<Rightarrow> 's vfs \<Rightarrow> ('s vfs \<times> int) run" where
  "chdir ops path v =
    and_then (fs_find_path ops path v) (\<lambda>(ret, nd).
      if ret < 0 then done_with (v, ret) else done_with (set_node (v_cwd v) nd v, 0))"

definition chroot :: "'s fs_table \<Rightarrow> string \<Rightarrow> 's vfs \<Rightarrow> ('s vfs \<times> int) run" where
  "chroot ops path v =
    and_then (fs_find_path ops path v) (\<lambda>(ret, nd).
      if ret < 0 then done_with (v, ret) else done_with (set_node (v_root v) nd v, 0))"

text \<open>\<open>with_node nd\<close> goes on with the node a successful search left; without one the caller reads an uninitialised structure.\<close>

definition with_node :: "file_node_t option \<Rightarrow> (file_node_t \<Rightarrow> 'a run) \<Rightarrow> 'a run" where
  "with_node nd f = (case nd of None \<Rightarrow> Some (Inl Out_Of_Bounds) | Some node \<Rightarrow> f node)"

definition lstat :: "'s fs_table \<Rightarrow> string \<Rightarrow> 's vfs \<Rightarrow> (vfs_stat option \<times> int) run" where
  "lstat ops path v =
    and_then (fs_find_path ops path v) (\<lambda>(ret, nd).
      if ret < 0 then done_with (None, ret)
      else with_node nd (\<lambda>node. and_then (f_get_info (file_funcs ops node) node (v_data v)) (\<lambda>(w, _).
        let i = (case w of None \<Rightarrow> zero_info | Some i \<Rightarrow> i)
        in done_with (Some \<lparr>st_type = fi_type i, st_uid = fi_uid i, st_gid = fi_gid i, st_time = fi_time i, st_size = fi_size i,
             st_mask = fi_mask i\<rparr>, 0))))"

text \<open>
  Where \<open>mkdir\<close> and \<open>mknod\<close> cut a path: at the last slash that is not its first character. The result is what is left in
  the buffer of the caller, the path to search for the directory, and the name in it.
\<close>

definition cut_path :: "string \<Rightarrow> string \<times> string \<times> string" where
  "cut_path path =
    (case path of [] \<Rightarrow> (path, ''.'', path)
     | c # cs \<Rightarrow>
         if CHR ''/'' \<in> set cs
         then let dir = c # rev (tl (dropWhile (\<lambda>x. x \<noteq> CHR ''/'') (rev cs))) in (dir, dir, base_name path)
         else if c = CHR ''/'' then (path, ''/'', cs) else (path, ''.'', path))"

definition mkdir :: "'s fs_table \<Rightarrow> string \<Rightarrow> u32 \<Rightarrow> 's vfs \<Rightarrow> ('s vfs \<times> string \<times> int) run" where
  "mkdir ops path mode v =
    and_then (fs_find_path ops path v) (\<lambda>(ret, nd).
      if ret = 0 then done_with (v, path, - EEXIST)
      else let (left, dir, file) = cut_path path in
        and_then (fs_find_path ops dir v) (\<lambda>(ret, nd).
          if ret < 0 then done_with (v, left, ret)
          else with_node nd (\<lambda>node. and_then (f_mkdir (file_funcs ops node) node file mode (v_data v)) (\<lambda>(s, ret).
                 done_with (v\<lparr>v_data := s\<rparr>, left, ret)))))"

definition mknod :: "'s fs_table \<Rightarrow> string \<Rightarrow> u32 \<Rightarrow> u32 \<Rightarrow> 's vfs \<Rightarrow> ('s vfs \<times> string \<times> int) run" where
  "mknod ops path mode dev v =
    and_then (fs_find_path ops path v) (\<lambda>(ret, nd).
      if ret = 0 then done_with (v, path, - EEXIST)
      else let (left, dir, file) = cut_path path in
        and_then (fs_find_path ops dir v) (\<lambda>(ret, nd).
          with_node nd (\<lambda>node. and_then (f_mknod (file_funcs ops node) node file mode dev (v_data v)) (\<lambda>(s, ret).
            done_with (v\<lparr>v_data := s\<rparr>, left, ret)))))"

definition unlink :: "'s fs_table \<Rightarrow> string \<Rightarrow> 's vfs \<Rightarrow> ('s vfs \<times> int) run" where
  "unlink ops path v =
    and_then (fs_find_path ops path v) (\<lambda>(ret, nd).
      if ret < 0 then done_with (v, ret)
      else with_node nd (\<lambda>node. and_then (f_unlink (file_funcs ops node) node (v_data v)) (\<lambda>(s, ret).
        done_with (v\<lparr>v_data := s\<rparr>, ret))))"

definition mount :: "'s fs_table \<Rightarrow> string \<Rightarrow> string \<Rightarrow> 's vfs \<Rightarrow> ('s vfs \<times> int) run" where
  "mount ops type dir v =
    and_then (fs_find_path ops type v) (\<lambda>(ret, type_fp).
      if ret < 0 then done_with (v, ret)
      else and_then (fs_find_path ops dir v) (\<lambda>(ret, dir_fp).
        if ret < 0 then done_with (v, ret)
        else with_node type_fp (\<lambda>t. with_node dir_fp (\<lambda>d. fs_mount ops t d v))))"

definition unmount :: "string \<Rightarrow> u32 \<Rightarrow> int" where
  "unmount dir flags = - 1"

end
