(* ===== verification/Vfs_Paths.thy ===== *)
theory Vfs_Paths
  imports Vfs Ramfs_Tree
begin

text \<open>
  Path lookup. What the search relies on is that a file system lists its directories and knows its nodes, the interface
  \<open>directory_fs\<close>, for the nodes of the file systems it \<open>serves\<close>; over it the search is a walk in the tree of directories, \<open>resolve\<close>. The memory file system provides it.
\<close>

section \<open>Walking a tree\<close>

text \<open>
  \<open>resolve D i names\<close> follows the names from the directory \<open>i\<close>, where \<open>D\<close> gives the entries of the directories: the
  inode reached or the error. A name that occurs twice in a directory stands for its first entry.
\<close>

fun resolve :: "(u32 \<Rightarrow> (string \<times> u32) list option) \<Rightarrow> u32 \<Rightarrow> string list \<Rightarrow> int + u32" where
  "resolve D i [] = Inl (- ENOENT)"
| "resolve D i (name # names) =
     (if name = ''.'' then (if names = [] then Inr i else resolve D i names)
      else if name = ''..'' then Inl (- ENOTDIR)
      else case D i of None \<Rightarrow> Inl (- ENOTDIR)
        | Some xs \<Rightarrow> (case map_of xs name of None \<Rightarrow> Inl (- ENOENT)
            | Some j \<Rightarrow> if names = [] then Inr j else resolve D j names))"

locale directory_fs =
  fixes ops :: "'s fs_table" and serves :: "u32 \<Rightarrow> bool" and dir :: "'s \<Rightarrow> u32 \<Rightarrow> (string \<times> u32) list \<Rightarrow> bool" and kind :: "'s \<Rightarrow> u32 \<Rightarrow> u32 \<Rightarrow> u32 \<Rightarrow> bool"
  assumes read_entry: "serves (n_fs nd) \<Longrightarrow> dir s (n_inode nd) xs \<Longrightarrow> n \<le> length xs \<Longrightarrow> n < 2 ^ 31 \<Longrightarrow>
      \<exists>w. f_readdir (file_funcs ops nd) nd (of_nat n) s = done_with (w, if n < length xs then 1 else 0) \<and>
        (n < length xs \<longrightarrow> (\<exists>e. w = Some e \<and> de_name e = fst (xs ! n) \<and> de_inode e = snd (xs ! n))) \<and> (n = length xs \<longrightarrow> w = None)"
    and get_kind: "serves (n_fs nd) \<Longrightarrow> kind s (n_inode nd) ty m \<Longrightarrow>
      \<exists>i. f_get_info (file_funcs ops nd) nd s = done_with (Some i, 0) \<and> fi_type i = ty \<and> fi_mount_id i = m"
begin

definition shows_tree :: "'s \<Rightarrow> (u32 \<Rightarrow> (string \<times> u32) list option) \<Rightarrow> bool" where
  "shows_tree s D \<longleftrightarrow> (\<forall>i xs. D i = Some xs \<longrightarrow> dir s i xs \<and> kind s i FS_DIR 0 \<and> length xs < 2 ^ 31 \<and>
     (\<forall>(n, j) \<in> set xs. D j = None \<longrightarrow> (\<exists>ty. ty \<noteq> FS_DIR \<and> kind s j ty 0)))"

lemma find_entry_from:
  assumes "serves (n_fs nd)" "dir s (n_inode nd) xs" "length xs < 2 ^ 31" "n \<le> length xs"
  shows "\<exists>d'. find_entry ops nd name (of_nat n) d s = done_with (map_of (drop n xs) name, d')"
  using assms(4)
proof (induction "length xs - n" arbitrary: n d)
  case 0
  then have n: "n = length xs" by simp
  obtain w where "f_readdir (file_funcs ops nd) nd (of_nat n) s = done_with (w, 0)"
    using read_entry [OF assms(1,2), of n] n assms(3) by auto
  then show ?case using n by (subst find_entry.simps) auto
next
  case (Suc k)
  then have n: "n < length xs" by simp
  obtain e where e: "f_readdir (file_funcs ops nd) nd (of_nat n) s = done_with (Some e, 1)" "de_name e = fst (xs ! n)" "de_inode e = snd (xs ! n)"
    using read_entry [OF assms(1,2), of n] n assms(3) by auto
  have d: "drop n xs = xs ! n # drop (Suc n) xs" by (rule Cons_nth_drop_Suc [OF n, symmetric])
  show ?case
  proof (cases "de_name e = name")
    case True
    then show ?thesis using e d by (subst find_entry.simps) (auto split: prod.splits)
  next
    case False
    obtain d' where "find_entry ops nd name (of_nat (Suc n)) e s = done_with (map_of (drop (Suc n) xs) name, d')"
      using Suc.hyps(1) [of "Suc n" e] Suc.hyps(2) n by (metis Suc_leI diff_Suc_1 diff_Suc_eq_diff_pred diff_Suc_Suc Suc_diff_Suc)
    then show ?thesis
      using False e d by (subst find_entry.simps) (auto simp: add.commute split: prod.splits)
  qed
qed

lemma find_entry_finds:
  assumes "serves (n_fs nd)" "dir s (n_inode nd) xs" "length xs < 2 ^ 31"
  shows "\<exists>d'. find_entry ops nd name 0 d s = done_with (map_of xs name, d')"
  using find_entry_from [OF assms, of 0 name d] by simp

text \<open>One step of the walk from a directory, also through a mount point.\<close>

lemma find_walk_missing:
  assumes "serves (n_fs nd)" "dir (v_data v) (n_inode nd) xs" "length xs < 2 ^ 31" "fi_type i = FS_DIR"
    and "map_of xs name = None" "name \<noteq> ''.''" "name \<noteq> ''..''"
  shows "find_walk ops v nd i d (name # next) = done_with (- ENOENT, None)"
  using find_entry_finds [OF assms(1-3), of name d] assms(4-7) by auto

lemma find_walk_step:
  assumes "serves (n_fs nd)" "dir (v_data v) (n_inode nd) xs" "length xs < 2 ^ 31" "fi_type i = FS_DIR"
    and "map_of xs name = Some j" "name \<noteq> ''.''" "name \<noteq> ''..''" "kind (v_data v) j ty m"
  shows "\<exists>i' d'. fi_type i' = ty \<and> find_walk ops v nd i d (name # next) =
    and_then (if m \<noteq> 0 then get_mount_node m v else done_with (None, 0)) (\<lambda>(mn, _).
      let temp = (case mn of None \<Rightarrow> nd\<lparr>n_inode := j\<rparr> | Some nd' \<Rightarrow> nd')
      in if next = [] then done_with (0, Some temp) else find_walk ops v temp i' d' next)"
proof -
  obtain d' where fe: "find_entry ops nd name 0 d (v_data v) = done_with (Some j, d')"
    using find_entry_finds [OF assms(1-3)] assms(5) by metis
  let ?nd = "nd\<lparr>n_inode := j\<rparr>"
  have "serves (n_fs ?nd)" "kind (v_data v) (n_inode ?nd) ty m" using assms(1,8) by simp_all
  from get_kind [OF this] obtain i' where i': "f_get_info (file_funcs ops ?nd) ?nd (v_data v) = done_with (Some i', 0)"
    "fi_type i' = ty" "fi_mount_id i' = m" by blast
  then show ?thesis using fe assms(4,6,7) by (intro exI [of _ i'] exI [of _ d']) simp
qed

lemma find_walk_resolves:
  assumes "shows_tree (v_data v) D" "fi_type i = (if D (n_inode nd) = None then ty else FS_DIR)" "ty \<noteq> FS_DIR" "serves (n_fs nd)"
  shows "find_walk ops v nd i d names =
    done_with (case resolve D (n_inode nd) names of Inl e \<Rightarrow> (e, None) | Inr j \<Rightarrow> (0, Some (nd\<lparr>n_inode := j\<rparr>)))"
  using assms(2-4)
proof (induction names arbitrary: nd i d ty)
  case (Cons name names)
  show ?case
  proof (cases "name = ''.'' \<or> name = ''..'' \<or> D (n_inode nd) = None")
    case True
    then show ?thesis using Cons by auto
  next
    case False
    then obtain xs where xs: "D (n_inode nd) = Some xs" by auto
    with assms(1) have t: "dir (v_data v) (n_inode nd) xs" "length xs < 2 ^ 31"
      "\<And>n j. (n, j) \<in> set xs \<Longrightarrow> D j = None \<Longrightarrow> \<exists>ty. ty \<noteq> FS_DIR \<and> kind (v_data v) j ty 0"
      unfolding shows_tree_def by (blast, blast, fast)
    have n: "name \<noteq> ''.''" "name \<noteq> ''..''" "fi_type i = FS_DIR" using False Cons.prems(1) by auto
    show ?thesis
    proof (cases "map_of xs name")
      case None
      then show ?thesis using False xs find_walk_missing [OF Cons.prems(3) t(1,2) n(3) None n(1,2)] by simp
    next
      case (Some j)
      obtain ty' where k: "kind (v_data v) j (if D j = None then ty' else FS_DIR) 0" "ty' \<noteq> FS_DIR"
      proof (cases "D j")
        case None
        then show thesis using that t(3) [OF map_of_SomeD [OF Some]] by auto
      next
        case (Some ys)
        then show thesis using that [of 0] assms(1) unfolding shows_tree_def by auto
      qed
      from find_walk_step [OF Cons.prems(3) t(1,2) n(3) Some n(1,2) k(1), of d names] obtain i' d' where
        i': "fi_type i' = (if D j = None then ty' else FS_DIR)" and
        f: "find_walk ops v nd i d (name # names) = (if names = [] then done_with (0, Some (nd\<lparr>n_inode := j\<rparr>))
          else find_walk ops v (nd\<lparr>n_inode := j\<rparr>) i' d' names)" by (auto simp: Let_def simp del: find_walk.simps cong del: if_weak_cong)
      show ?thesis
        using False xs Some Cons.prems(3) Cons.IH [of i' "nd\<lparr>n_inode := j\<rparr>" ty' d'] i' k(2) unfolding f
        by (simp split: sum.splits)
    qed
  qed
qed simp

end

section \<open>The memory file system\<close>

abbreviation ramfs_ops :: "ramfs fs_table" where
  "ramfs_ops \<equiv> \<lambda>_. ramfs_file_funcs"

interpretation ramfs_dirs: directory_fs ramfs_ops "\<lambda>_. True" dir_is node_is
proof
  fix s and nd :: file_node_t and xs and n :: nat
  assume "dir_is s (n_inode nd) xs" "n \<le> length xs" "n < 2 ^ 31"
  then show "\<exists>w. f_readdir ramfs_file_funcs nd (of_nat n) s = done_with (w, if n < length xs then 1 else 0) \<and>
    (n < length xs \<longrightarrow> (\<exists>e. w = Some e \<and> de_name e = fst (xs ! n) \<and> de_inode e = snd (xs ! n))) \<and> (n = length xs \<longrightarrow> w = None)"
    using ramfs_readdir_nth by (simp add: ramfs_file_funcs_def)
next
  fix s and nd :: file_node_t and ty m
  assume "node_is s (n_inode nd) ty m"
  then show "\<exists>i. f_get_info ramfs_file_funcs nd s = done_with (Some i, 0) \<and> fi_type i = ty \<and> fi_mount_id i = m"
    using ramfs_get_info_node by (simp add: ramfs_file_funcs_def)
qed

definition ramfs_tree :: "ramfs \<Rightarrow> (u32 \<Rightarrow> (string \<times> u32) list option) \<Rightarrow> bool" where
  "ramfs_tree r D \<longleftrightarrow> (\<forall>i xs. D i = Some xs \<longrightarrow> dir_is r i xs \<and> node_is r i FS_DIR 0 \<and> length xs < 2 ^ 31 \<and>
     (\<forall>(n, j) \<in> set xs. D j = None \<longrightarrow> (\<exists>ty. ty \<noteq> FS_DIR \<and> node_is r j ty 0)))"

lemma ramfs_tree_shows: "ramfs_tree r D \<longleftrightarrow> ramfs_dirs.shows_tree r D"
  by (simp add: ramfs_tree_def ramfs_dirs.shows_tree_def)

lemma find_node_resolves:
  assumes "ramfs_tree (v_data v) D" "D (n_inode nd) \<noteq> None"
  shows "fs_find_node ramfs_ops nd path v =
    done_with (case resolve D (n_inode nd) (path_names path) of Inl e \<Rightarrow> (e, None) | Inr j \<Rightarrow> (0, Some (nd\<lparr>n_inode := j\<rparr>)))"
proof -
  obtain xs where xs: "D (n_inode nd) = Some xs" using assms(2) by auto
  then have "node_is (v_data v) (n_inode nd) FS_DIR 0" using assms(1) by (auto simp: ramfs_tree_def)
  from ramfs_dirs.get_kind [OF TrueI this] obtain i where i: "f_get_info ramfs_file_funcs nd (v_data v) = done_with (Some i, 0)" "fi_type i = FS_DIR"
    by blast
  then show ?thesis
    using ramfs_dirs.find_walk_resolves [OF assms(1) [unfolded ramfs_tree_shows], of i nd 0] xs by (simp add: fs_find_node_def)
qed

text \<open>
  C4. Path lookup is a walk in the tree: whenever the memory file system holds the directories \<open>D\<close>, none of them a mount
  point, the search for a path from a directory returns, and it returns the node the names of the path lead to, or
  \<open>-ENOENT\<close> where a name is missing and \<open>-ENOTDIR\<close> where a file stands in the way or the path goes up.
\<close>

theorem fs_find_node_resolves:
  assumes "ramfs_tree (v_data v) D" "D (n_inode nd) \<noteq> None"
  shows "fs_find_node ramfs_ops nd path v =
    done_with (case resolve D (n_inode nd) (path_names path) of Inl e \<Rightarrow> (e, None) | Inr j \<Rightarrow> (0, Some (nd\<lparr>n_inode := j\<rparr>)))"
  by (rule find_node_resolves [OF assms])

section \<open>Making directories\<close>

lemma dir_is_below: "dir_is r i xs \<Longrightarrow> i < ramfs_i_count r"
  by (auto simp: dir_is_def ramfs_ok_def)

lemma node_is_below: "node_is r i ty m \<Longrightarrow> i < ramfs_i_count r"
  by (auto simp: node_is_def ramfs_ok_def)

lemma ramfs_tree_grows:
  assumes t: "ramfs_tree r D" "D i = Some xs" "length xs + 1 < 2 ^ 31"
    and g: "grows i xs name r r'" "node_is r' (ramfs_i_count r) FS_DIR 0" "dir_is r' (ramfs_i_count r) []"
  shows "ramfs_tree r' (D(i := Some (xs @ [(name, ramfs_i_count r)]), ramfs_i_count r := Some []))"
    (is "ramfs_tree r' ?D'")
  unfolding ramfs_tree_def
proof (intro allI impI conjI)
  let ?n = "ramfs_i_count r"
  have i: "dir_is r i xs" "node_is r i FS_DIR 0" using t(1,2) by (auto simp: ramfs_tree_def)
  then have ni: "i \<noteq> ?n" using dir_is_below by auto
  have keep: "\<And>j ys. j \<noteq> i \<Longrightarrow> dir_is r j ys \<Longrightarrow> dir_is r' j ys" "\<And>j ty m. node_is r j ty m \<Longrightarrow> node_is r' j ty m"
    and new: "dir_is r' i (xs @ [(name, ?n)])" using g(1) by (auto simp: grows_def)
  fix j ys
  assume j: "?D' j = Some ys"
  then consider (new) "j = ?n" "ys = []" | (grown) "j = i" "j \<noteq> ?n" "ys = xs @ [(name, ?n)]" | (old) "j \<noteq> ?n" "j \<noteq> i" "D j = Some ys"
    by (cases "j = ?n"; cases "j = i") auto
  then have "dir_is r' j ys \<and> node_is r' j FS_DIR 0 \<and> length ys < 2 ^ 31"
  proof cases
    case old
    then have "dir_is r j ys" "node_is r j FS_DIR 0" "length ys < 2 ^ 31" using t(1) unfolding ramfs_tree_def by blast+
    then show ?thesis using keep old(2) by blast
  next
    case grown
    then show ?thesis using new keep(2) [OF i(2)] t(3) by auto
  qed (use g in auto)
  then show "dir_is r' j ys" "node_is r' j FS_DIR 0" "length ys < 2 ^ 31" by auto
  show "\<forall>(nm, k)\<in>set ys. ?D' k = None \<longrightarrow> (\<exists>ty. ty \<noteq> FS_DIR \<and> node_is r' k ty 0)"
  proof clarify
    fix nm k
    assume k: "(nm, k) \<in> set ys" "?D' k = None"
    then have "D k = None" "k \<noteq> ?n" by (auto split: if_splits)
    moreover from k(1) j \<open>k \<noteq> ?n\<close> t(2) obtain j' zs where "D j' = Some zs" "(nm, k) \<in> set zs"
      by (auto split: if_splits)
    ultimately have "\<exists>ty. ty \<noteq> FS_DIR \<and> node_is r k ty 0" using t(1) unfolding ramfs_tree_def by fast
    then show "\<exists>ty. ty \<noteq> FS_DIR \<and> node_is r' k ty 0" using keep(2) by blast
  qed
qed

lemma path_names_plain: "CHR ''/'' \<notin> set name \<Longrightarrow> path_names name = [name]"
  by (induction name) auto

lemma find_path_plain:
  assumes "ramfs_tree (v_data v) D" "rt = v_nodes v (if v_in_task v then v_root v else fs_root v)" "D (n_inode rt) = Some xs"
    and name: "name \<noteq> []" "CHR ''/'' \<notin> set name" "name \<noteq> ''.''" "name \<noteq> ''..''"
  shows "fs_find_path ramfs_ops (CHR ''/'' # name) v =
    done_with (case map_of xs name of None \<Rightarrow> (- ENOENT, None) | Some j \<Rightarrow> (0, Some (rt\<lparr>n_inode := j\<rparr>)))"
proof -
  have "dropWhile (\<lambda>c. c = CHR ''/'') name = name" using name(1,2) by (cases name) auto
  then show ?thesis
    using find_node_resolves [OF assms(1), of rt name] assms(2-) path_names_plain [OF name(2)]
    by (auto simp: fs_find_path_def split: option.splits)
qed

text \<open>
  C17. A directory that has been made is found: \<open>mkdir\<close> of a new name of less than 256 characters directly below the root
  succeeds, afterwards the path leads to the new directory, which is empty, a second \<open>mkdir\<close> reports \<open>-EEXIST\<close>, the root
  lists the new name behind the old ones, and every other directory lists what it listed. (Outside the tree,
  \<open>ramfs_mkdir\<close> also writes the name without its last character into the memory \<open>308 * i + 4\<close> bytes behind the first header,
  where \<open>i\<close> is the new inode number, whatever lies there; the model has headers and entries apart from that memory.)
\<close>

theorem mkdir_then_find:
  assumes "ramfs_tree (v_data v) D" "rt = v_nodes v (if v_in_task v then v_root v else fs_root v)" "D (n_inode rt) = Some xs"
    and "name \<noteq> []" "CHR ''/'' \<notin> set name" "name \<noteq> ''.''" "name \<noteq> ''..''" "map_of xs name = None" "length xs + 1 < 2 ^ 31"
    and "length name < 256" "new = ramfs_i_count (v_data v)" "new < - 1" "fresh_blocks (v_data v)"
  shows "\<exists>v'. mkdir ramfs_ops (CHR ''/'' # name) mode v = done_with (v', CHR ''/'' # name, 0) \<and>
    fs_find_path ramfs_ops (CHR ''/'' # name) v' = done_with (0, Some (rt\<lparr>n_inode := new\<rparr>)) \<and>
    mkdir ramfs_ops (CHR ''/'' # name) mode v' = done_with (v', CHR ''/'' # name, - EEXIST) \<and>
    ramfs_tree (v_data v') (D(n_inode rt := Some (xs @ [(name, new)]), new := Some []))"
proof -
  let ?p = "CHR ''/'' # name"
  have d: "dir_is (v_data v) (n_inode rt) xs" using assms(1,3) by (auto simp: ramfs_tree_def)
  obtain r' where r': "ramfs_mkdir rt name mode (v_data v) = done_with (r', 0)" "grows (n_inode rt) xs name (v_data v) r'"
    "node_is r' (ramfs_i_count (v_data v)) FS_DIR 0" "dir_is r' (ramfs_i_count (v_data v)) []"
    by (rule ramfs_mkdir_adds [OF d assms(12) [unfolded assms(11)] assms(13,10)])
  let ?v = "v\<lparr>v_data := r'\<rparr>" and ?D = "D(n_inode rt := Some (xs @ [(name, new)]), new := Some [])"
  have t: "ramfs_tree (v_data ?v) ?D" using ramfs_tree_grows [OF assms(1,3,9) r'(2-4)] assms(11) by simp
  have nr: "n_inode rt \<noteq> new" using dir_is_below [OF d] assms(11) by auto
  have "fs_find_path ramfs_ops ?p v = done_with (- ENOENT, None)"
    using find_path_plain [OF assms(1-7)] assms(8) by simp
  moreover have "cut_path ?p = (?p, ''/'', name)" using assms(5) by (simp add: cut_path_def)
  moreover have "fs_find_path ramfs_ops ''/'' v = done_with (0, Some rt)" using assms(2) by (simp add: fs_find_path_def)
  ultimately have m: "mkdir ramfs_ops ?p mode v = done_with (?v, ?p, 0)"
    using r'(1) by (simp add: mkdir_def with_node_def ramfs_file_funcs_def)
  have "map_of (xs @ [(name, new)]) name = Some new" using assms(8) by (simp add: map_add_def)
  then have f: "fs_find_path ramfs_ops ?p ?v = done_with (0, Some (rt\<lparr>n_inode := new\<rparr>))"
    using find_path_plain [OF t, of rt "xs @ [(name, new)]" name] assms(2,4-7) nr by simp
  then have "mkdir ramfs_ops ?p mode ?v = done_with (?v, ?p, - EEXIST)" by (simp add: mkdir_def)
  with m f t show ?thesis by blast
qed

section \<open>Opening a file\<close>

lemma first_free_replicate: "0 < n \<Longrightarrow> first_free (replicate n 0) i = i"
  by (cases n) simp_all

text \<open>The first \<open>open\<close> of a task, of a file that is there.\<close>

lemma open_first:
  fixes v :: "'s vfs"
  defines "fp \<equiv> v_blk v (v_taken v)" and "d \<equiv> v_blk v (v_taken v + 1)"
  assumes find: "fs_find_path ops path (v\<lparr>v_taken := v_taken v + 1, v_nodes := (v_nodes v)(fp := \<lparr>n_inode = 0, n_fs = 0\<rparr>)\<rparr>) = done_with (0, Some nd)"
    and info: "f_get_info (file_funcs ops nd) nd (v_data v) = done_with (Some i, r)" "good_op flags (perms_of v i)"
    and op: "f_open (file_funcs ops nd) nd (base_name path) flags (v_data v) = done_with (s, e)" "0 \<le> e"
    and none: "v_files v = replicate 32 0" "v_file_count v = 0" and d: "d \<noteq> 0"
  obtains w where "vfs_open ops path flags v = done_with (w, 0)" "v_data w = s" "isgoodfd 0 w" "v_files w ! 0 = d"
    "v_nodes w (fd_file (v_descs w d)) = nd" "r_offset (v_descs w d) = 0" "d_offset (v_descs w d) = 0" "length (v_files w) = 32"
proof -
  let ?v = "v\<lparr>v_taken := v_taken v + 1, v_nodes := (v_nodes v)(fp := \<lparr>n_inode = 0, n_fs = 0\<rparr>)\<rparr>"
  define u where "u = set_node fp (Some nd) ?v"
  have n: "v_nodes u fp = nd" "v_data u = v_data v" "v_files u = replicate 32 0" "v_file_count u = 0" "v_blk u = v_blk v"
    "v_taken u = v_taken v + 1" "perms_of u i = perms_of v i" using none by (simp_all add: u_def set_node_def perms_of_def)
  have "check_perms ops nd flags u = done_with True" using info n(2,7) by (simp add: check_perms_def)
  then have "open_node ops path flags True fp u = done_with (open_slot fp (u\<lparr>v_data := s\<rparr>))"
    using n(1,2) op by (simp add: open_node_def Let_def)
  moreover define w where "w = fst (open_slot fp (u\<lparr>v_data := s\<rparr>))"
  have ff: "first_free (replicate 32 0) 0 = 0" by (rule first_free_replicate) simp
  then have s: "open_slot fp (u\<lparr>v_data := s\<rparr>) = (w, 0)" using n by (simp add: w_def open_slot_def Let_def)
  ultimately have o: "open_node ops path flags True fp u = done_with (w, 0)" by simp
  have w: "v_data w = s" "v_file_count w = 1" "v_files w = (replicate 32 0)[0 := d]" "fd_file (v_descs w d) = fp" "v_nodes w fp = nd"
    "r_offset (v_descs w d) = 0" "d_offset (v_descs w d) = 0"
    using n ff by (simp_all add: w_def open_slot_def Let_def d_def)
  show thesis
  proof (rule that [of "w\<lparr>v_freed := fp # v_freed w\<rparr>"])
    show "vfs_open ops path flags v = done_with (w\<lparr>v_freed := fp # v_freed w\<rparr>, 0)"
      using find o by (simp add: vfs_open_def Let_def fp_def u_def)
  qed (use w d in \<open>simp_all add: isgoodfd_def\<close>)
qed

section \<open>A new file system\<close>

text \<open>What \<open>init_ramfs\<close> makes is a tree with an empty root, inode 1.\<close>

lemma init_ramfs_tree:
  assumes "blk r (taken r + 2) \<noteq> 0"
  shows "ramfs_tree (fst (init_ramfs r)) [1 \<mapsto> []]"
proof -
  note ok = init_ramfs_ok [OF assms]
  have "dir_is (fst (init_ramfs r)) 1 []"
    unfolding dir_is_def using ok by (intro exI [of _ "[blk r (taken r + 2)]"] exI [of _ "\<lambda>_. []"] exI [of _ "blk r (taken r + 2)"]) (simp add: listing_def)
  moreover have "node_is (fst (init_ramfs r)) 1 FS_DIR 0"
    unfolding node_is_def using ok by (intro exI [of _ "[blk r (taken r + 2)]"] exI [of _ "\<lambda>_. []"] exI [of _ "blk r (taken r + 2)"]) simp
  ultimately show ?thesis unfolding ramfs_tree_def by auto
qed

lemma demo_ramfs_tree: "ramfs_tree demo_ramfs [1 \<mapsto> []]"
  unfolding demo_ramfs_def by (rule init_ramfs_tree) simp

lemma demo_ramfs_fresh: "fresh_blocks demo_ramfs"
  unfolding fresh_blocks_def
proof (intro allI impI)
  fix hs es
  assume "ramfs_ok demo_ramfs hs es"
  then have "hs = [0x1200]" "es = (\<lambda>_. [])" using ramfs_ok_unique [OF demo_ramfs_ok] by auto
  then show "fresh_ok demo_ramfs hs es" by (simp add: fresh_ok_def demo_ramfs_facts)
qed

definition demo_vfs :: "ramfs vfs" where
  "demo_vfs = \<lparr>v_data = demo_ramfs, v_nodes = (\<lambda>_. \<lparr>n_inode = 1, n_fs = 0x7000\<rparr>),
     v_descs = (\<lambda>_. \<lparr>fd_file = 0, r_offset = 0, w_offset = 0, d_offset = 0\<rparr>), v_files = replicate 32 0, v_file_count = 0, v_in_task = True,
     v_uid = 0, v_gid = 0, v_root = 0x10, v_cwd = 0x10, fs_root = 0x10, v_lists = (\<lambda>_. zero_llist), file_system_list = 0, mount_list = 0,
     mount_ids = 1, v_blk = (\<lambda>n. 0x8000 + 0x20 * of_nat n), v_taken = 0, v_freed = [],
     v_scratch = \<lparr>de_inode = 0, de_size = 0, de_name_len = 0, de_name = []\<rparr>\<rparr>"

lemma demo_vfs_facts:
  "v_data demo_vfs = demo_ramfs" "v_nodes demo_vfs a = \<lparr>n_inode = 1, n_fs = 0x7000\<rparr>" "v_in_task demo_vfs" "v_root demo_vfs = 0x10"
  by (simp_all add: demo_vfs_def)

theorem fs_find_node_resolves_witness:
  "fs_find_node ramfs_ops \<lparr>n_inode = 1, n_fs = 0x7000\<rparr> ''./usr/bin'' demo_vfs = done_with (- ENOENT, None)"
  using fs_find_node_resolves [of demo_vfs "[1 \<mapsto> []]" "\<lparr>n_inode = 1, n_fs = 0x7000\<rparr>" "''./usr/bin''"] demo_ramfs_tree
  by (simp add: demo_vfs_facts)

theorem mkdir_then_find_witness:
  "\<exists>v'. mkdir ramfs_ops ''/dev'' 0x1c0 demo_vfs = done_with (v', ''/dev'', 0) \<and>
    fs_find_path ramfs_ops ''/dev'' v' = done_with (0, Some \<lparr>n_inode = 2, n_fs = 0x7000\<rparr>)"
  using mkdir_then_find [of demo_vfs "[1 \<mapsto> []]" "\<lparr>n_inode = 1, n_fs = 0x7000\<rparr>" "[]" "''dev''" 2 "0x1c0"] demo_ramfs_tree demo_ramfs_fresh
  by (auto simp: demo_vfs_facts demo_ramfs_facts)

end
