(* ===== verification/Vfs_Descriptors.thy ===== *)
theory Vfs_Descriptors
  imports Vfs_Paths
begin

text \<open>
  Descriptors, the working directory and mounts. \<open>fd_ok v\<close> says that the table of the task has 32 places and that the
  count is the number of places in use; it holds for every file system below.
\<close>

section \<open>The table\<close>

definition fd_ok :: "'s vfs \<Rightarrow> bool" where
  "fd_ok v \<longleftrightarrow> length (v_files v) = MAX_FILES \<and> unat (v_file_count v) = length (filter (\<lambda>f. f \<noteq> 0) (v_files v))"

lemma fd_ok_cong: "fd_ok v \<Longrightarrow> v_files v' = v_files v \<Longrightarrow> v_file_count v' = v_file_count v \<Longrightarrow> fd_ok v'"
  by (simp add: fd_ok_def)

lemma first_free_bounds: "first_free fs i \<le> i + length fs"
proof (induction fs arbitrary: i)
  case (Cons f fs)
  show ?case using Cons [of "Suc i"] by simp
qed simp

lemma first_free_least:
  "first_free fs i < i + length fs \<Longrightarrow> fs ! (first_free fs i - i) = 0 \<and> i \<le> first_free fs i \<and>
    (\<forall>k < first_free fs i - i. fs ! k \<noteq> 0)"
proof (induction fs arbitrary: i)
  case (Cons f fs)
  show ?case
  proof (cases "f = 0")
    case False
    then have "first_free fs (Suc i) < Suc i + length fs" using Cons.prems by simp
    from Cons.IH [OF this] False show ?thesis
      by (auto simp: nth_Cons Suc_diff_le split: nat.splits) (metis Suc_diff_Suc Suc_le_lessD nth_Cons_Suc)
  qed simp
qed simp

lemma first_free_full: "first_free fs i = i + length fs \<Longrightarrow> 0 \<notin> set fs"
proof (induction fs arbitrary: i)
  case (Cons f fs)
  then show ?case using Cons.IH [of "Suc i"] by (auto split: if_splits)
qed simp

lemma open_slot_cases:
  assumes "fd_ok v" "v_blk v (v_taken v) \<noteq> 0"
  shows "fd_ok (fst (open_slot fp v)) \<and>
    (if 0 \<in> set (v_files v)
     then \<exists>i<MAX_FILES. snd (open_slot fp v) = int i \<and> v_files v ! i = 0 \<and> (\<forall>k<i. v_files v ! k \<noteq> 0) \<and>
       v_files (fst (open_slot fp v)) = (v_files v)[i := v_blk v (v_taken v)] \<and>
       fd_file (v_descs (fst (open_slot fp v)) (v_blk v (v_taken v))) = fp
     else open_slot fp v = (v, - EMFILE))"
proof (cases "0 \<in> set (v_files v)")
  case False
  then have "filter (\<lambda>f. f \<noteq> 0) (v_files v) = v_files v" by (metis (mono_tags, lifting) filter_id_conv)
  then have "unat (v_file_count v) = 32" using assms(1) by (simp add: fd_ok_def)
  then show ?thesis using False assms(1) by (simp add: open_slot_def)
next
  case True
  let ?i = "first_free (v_files v) 0" and ?d = "v_blk v (v_taken v)"
  have len: "length (v_files v) = 32" using assms(1) by (simp add: fd_ok_def)
  have "?i \<noteq> 32" using first_free_full [of "v_files v" 0] True len by auto
  then have i: "?i < 32" using first_free_bounds [of "v_files v" 0] len by simp
  then have l: "v_files v ! ?i = 0" "\<forall>k < ?i. v_files v ! k \<noteq> 0" using first_free_least [of "v_files v" 0] len by auto
  have c: "length (filter (\<lambda>f. f \<noteq> 0) ((v_files v)[?i := ?d])) = length (filter (\<lambda>f. f \<noteq> 0) (v_files v)) + 1"
    using length_filter_update [of ?i "v_files v" "\<lambda>f. f \<noteq> 0" ?d] i len l(1) assms(2) by simp
  have "length (filter (\<lambda>f. f \<noteq> 0) ((v_files v)[?i := ?d])) \<le> 32" using len length_filter_le [of _ "(v_files v)[?i := ?d]"] by simp
  then have u: "unat (v_file_count v) < 32" using c assms(1) by (simp add: fd_ok_def)
  then have "unat (v_file_count v + 1) = unat (v_file_count v) + 1" using unat_add_lem [of "v_file_count v" 1, THEN iffD1] by simp
  then show ?thesis
    using True i l u c len assms(1) by (auto simp: open_slot_def Let_def fd_ok_def)
qed

section \<open>Opening\<close>

definition same_table :: "'s vfs \<Rightarrow> 's vfs \<Rightarrow> bool" where
  "same_table v w \<longleftrightarrow> v_files w = v_files v \<and> v_file_count w = v_file_count v \<and> v_blk w = v_blk v \<and> v_taken w = v_taken v"

lemma same_table_simps [simp]:
  "same_table v v" "same_table v (set_node fp nd w) = same_table v w" "same_table v (w\<lparr>v_data := s\<rparr>) = same_table v w"
  by (auto simp: same_table_def set_node_def split: option.splits)

text \<open>
  \<open>opens fp v0 r\<close>: if the computation \<open>r\<close> ends, its result comes from \<open>open_slot\<close> or is an error with the table left alone.
\<close>

definition opens :: "u32 \<Rightarrow> 's vfs \<Rightarrow> ('s vfs \<times> int) run \<Rightarrow> bool" where
  "opens fp v0 r \<longleftrightarrow> (\<forall>v' e. r = done_with (v', e) \<longrightarrow> (\<exists>w. same_table v0 w \<and> ((v', e) = open_slot fp w \<or> v' = w \<and> e < 0)))"

lemma opens_intros:
  "same_table v0 w \<Longrightarrow> e < 0 \<Longrightarrow> opens fp v0 (done_with (w, e))" "same_table v0 w \<Longrightarrow> opens fp v0 (done_with (open_slot fp w))"
  "(\<And>x y. opens fp v0 (f (x, y))) \<Longrightarrow> opens fp v0 (and_then r f)" "(\<And>x. opens fp v0 (g x)) \<Longrightarrow> opens fp v0 (and_then q g)"
  "(P \<Longrightarrow> opens fp v0 r1) \<Longrightarrow> (\<not> P \<Longrightarrow> opens fp v0 r2) \<Longrightarrow> opens fp v0 (if P then r1 else r2)"
  by (auto simp: opens_def and_then_done)

lemma open_node_opens: "same_table v0 v \<Longrightarrow> opens fp v0 (open_node ops path flags found fp v)"
  unfolding open_node_def Let_def by (intro opens_intros) (auto intro!: opens_intros)

lemma vfs_open_cases:
  assumes "vfs_open ops path flags v = done_with (v', e)"
  obtains w where "v_files w = v_files v" "v_file_count w = v_file_count v" "v_blk w = v_blk v" "v_taken w = v_taken v + 1"
    "v' = w\<lparr>v_freed := v_blk v (v_taken v) # v_freed w\<rparr>" "e < 0"
  | w where "v_files w = v_files v" "v_file_count w = v_file_count v" "v_blk w = v_blk v" "v_taken w = v_taken v + 1"
    "v' = (fst (open_slot (v_blk v (v_taken v)) w))\<lparr>v_freed := v_blk v (v_taken v) # v_freed (fst (open_slot (v_blk v (v_taken v)) w))\<rparr>"
    "e = snd (open_slot (v_blk v (v_taken v)) w)"
proof -
  let ?fp = "v_blk v (v_taken v)"
  let ?v = "v\<lparr>v_taken := v_taken v + 1, v_nodes := (v_nodes v)(?fp := \<lparr>n_inode = 0, n_fs = 0\<rparr>)\<rparr>"
  let ?fin = "\<lambda>(v1, err_val). done_with (v1\<lparr>v_freed := ?fp # v_freed v1\<rparr>, err_val) :: ('a vfs \<times> int) run"
  have "\<exists>r. opens ?fp ?v r \<and> and_then r ?fin = done_with (v', e)"
  proof -
    obtain err nd where f: "fs_find_path ops path ?v = done_with (err, nd)" using assms by (auto simp: vfs_open_def Let_def and_then_done)
    let ?v1 = "set_node ?fp nd ?v"
    have st: "same_table ?v ?v1" "\<And>nd'. same_table ?v (set_node ?fp nd' ?v1)" by simp_all
    show ?thesis
    proof (cases "err < 0")
      case False
      then have "and_then (open_node ops path flags True ?fp ?v1) ?fin = done_with (v', e)"
        using assms f by (simp add: vfs_open_def Let_def)
      with open_node_opens [OF st(1)] show ?thesis by blast
    next
      case True
      show ?thesis
      proof (cases "flags AND O_CREAT = 0")
        case True
        then show ?thesis
          using assms f \<open>err < 0\<close> by (intro exI [of _ "done_with (?v1, - EPERM)"]) (simp add: vfs_open_def Let_def opens_intros(1))
      next
        case False
        obtain err2 nd2 where f2: "fs_find_path ops (parent_path path) ?v1 = done_with (err2, nd2)"
          using assms f \<open>err < 0\<close> False by (auto simp: vfs_open_def Let_def and_then_done)
        let ?v2 = "set_node ?fp nd2 ?v1"
        let ?r = "if err2 < 0 then done_with (?v2, err2) else open_node ops path flags False ?fp ?v2"
        have "opens ?fp ?v ?r" by (rule opens_intros(5)) (use st(2) in \<open>auto intro: opens_intros open_node_opens\<close>)
        moreover have "and_then ?r ?fin = done_with (v', e)"
          using assms f f2 \<open>err < 0\<close> False by (simp add: vfs_open_def Let_def split: if_splits)
        ultimately show ?thesis by blast
      qed
    qed
  qed
  then obtain r v1 where "opens ?fp ?v r" "r = done_with (v1, e)" "v' = v1\<lparr>v_freed := ?fp # v_freed v1\<rparr>" by (auto simp: and_then_done)
  then obtain v1 w where w: "same_table ?v w" "v' = v1\<lparr>v_freed := ?fp # v_freed v1\<rparr>" "(v1, e) = open_slot ?fp w \<or> v1 = w \<and> e < 0"
    unfolding opens_def by blast
  have f: "v_files w = v_files v" "v_file_count w = v_file_count v" "v_blk w = v_blk v" "v_taken w = v_taken v + 1"
    using w(1) by (simp_all add: same_table_def)
  from w(3) show thesis
  proof
    assume "(v1, e) = open_slot ?fp w"
    then show thesis using that(2) [OF f] w(2) by (metis fst_conv snd_conv)
  next
    assume "v1 = w \<and> e < 0"
    then show thesis using that(1) [OF f] w(2) by blast
  qed
qed

lemma fd_ok_open:
  assumes "fd_ok v" "vfs_open ops path flags v = done_with (v', e)" "v_blk v (v_taken v + 1) \<noteq> 0"
  shows "fd_ok v'"
  using assms(2)
proof (cases rule: vfs_open_cases)
  case (1 w)
  then show ?thesis by (intro fd_ok_cong [OF assms(1)]) simp_all
next
  case (2 w)
  have "fd_ok w" by (rule fd_ok_cong [OF assms(1)]) (use 2 in auto)
  then have "fd_ok (fst (open_slot (v_blk v (v_taken v)) w))" using open_slot_cases [of w] 2 assms(3) by auto
  then show ?thesis by (rule fd_ok_cong) (use 2 in simp_all)
qed

lemma fd_ok_close:
  assumes "fd_ok v" "vfs_close ops fd v = done_with (v', e)"
  shows "fd_ok v'"
proof (cases "isgoodfd fd v")
  case True
  then have g: "fd < v_file_count v" "v_files v ! unat fd \<noteq> 0" by (auto simp: isgoodfd_def not_le)
  have len: "length (v_files v) = 32" "unat (v_file_count v) \<le> 32"
    using assms(1) length_filter_le [of _ "v_files v"] by (auto simp: fd_ok_def)
  then have i: "unat fd < length (v_files v)" using g(1) by (simp add: word_less_nat_alt)
  have "length (filter (\<lambda>f. f \<noteq> 0) ((v_files v)[unat fd := 0])) + 1 = length (filter (\<lambda>f. f \<noteq> 0) (v_files v))"
    using length_filter_update [OF i, of "\<lambda>f. f \<noteq> 0" 0] g(2) by simp
  moreover have "v_file_count v \<noteq> 0" using g(1) by auto
  then have "unat (v_file_count v - 1) = unat (v_file_count v) - 1" by (rule unat_minus_one)
  ultimately show ?thesis
    using assms True by (auto simp: vfs_close_def Let_def fd_ok_def and_then_done)
next
  case False
  then show ?thesis using assms by (auto simp: vfs_close_def)
qed

text \<open>The operations of programs on descriptors, over any file systems.\<close>

inductive fd_step :: "'s fs_table \<Rightarrow> 's vfs \<Rightarrow> 's vfs \<Rightarrow> bool" for ops where
  opened: "vfs_open ops path flags v = done_with (v', e) \<Longrightarrow> v_blk v (v_taken v + 1) \<noteq> 0 \<Longrightarrow> fd_step ops v v'"
| closed: "vfs_close ops fd v = done_with (v', e) \<Longrightarrow> fd_step ops v v'"
| was_read: "vfs_read ops fd buf len v = done_with (v', i) \<Longrightarrow> fd_step ops v v'"
| was_written: "vfs_write ops fd buf len v = done_with (v', i) \<Longrightarrow> fd_step ops v v'"
| sought: "fd_step ops v (fst (lseek fd offset whence v))"
| listed: "readdir ops fd v = done_with (v', w, e) \<Longrightarrow> fd_step ops v v'"

inductive_cases fd_stepE: "fd_step ops v v'"

lemma upd_desc_table [simp]: "v_files (upd_desc d f v) = v_files v" "v_file_count (upd_desc d f v) = v_file_count v"
  by (simp_all add: upd_desc_def)

lemma fd_ok_step: "fd_step ops v v' \<Longrightarrow> fd_ok v \<Longrightarrow> fd_ok v'"
proof (erule fd_step.cases, goal_cases)
  case 3
  then show ?case by (auto simp: vfs_read_def Let_def and_then_done split: if_splits intro: fd_ok_cong)
next
  case 4
  then show ?case by (auto simp: vfs_write_def Let_def and_then_done split: if_splits intro: fd_ok_cong)
next
  case 5
  then show ?case by (auto simp: lseek_def Let_def split: if_splits intro: fd_ok_cong)
next
  case 6
  then show ?case by (auto simp: readdir_def Let_def and_then_done split: if_splits intro: fd_ok_cong)
qed (auto intro: fd_ok_open fd_ok_close)

text \<open>
  C19. The count of open descriptors is always right and never above 32: whatever sequence of opens, closes, reads, writes,
  seeks and directory reads a program makes, with any arguments and over any file systems, the table has 32 places and
  \<open>file_count\<close> is the number of those in use, so that a descriptor the kernel accepts lies in the table.
\<close>

theorem descriptor_count_exact:
  assumes "(fd_step ops)\<^sup>*\<^sup>* v v'" "fd_ok v"
  shows "fd_ok v' \<and> unat (v_file_count v') \<le> MAX_FILES \<and> (isgoodfd fd v' \<longrightarrow> unat fd < length (v_files v'))"
proof -
  from assms have ok: "fd_ok v'" by induction (auto intro: fd_ok_step)
  then have "unat (v_file_count v') \<le> MAX_FILES" using length_filter_le [of _ "v_files v'"] by (auto simp: fd_ok_def)
  with ok show ?thesis by (auto simp: isgoodfd_def fd_ok_def not_le word_less_nat_alt)
qed

text \<open>
  C39. \<open>open\<close> returns the lowest free descriptor, but its node is a freed block: the result is a place of the table that was
  free with all places below in use, and the node its descriptor points to has been given back to the heap.
\<close>

theorem open_lowest_with_freed_node:
  assumes "vfs_open ops path flags v = done_with (v', e)" "e \<ge> 0" "fd_ok v" "v_blk v (v_taken v + 1) \<noteq> 0"
  shows "\<exists>i<MAX_FILES. e = int i \<and> v_files v ! i = 0 \<and> (\<forall>k<i. v_files v ! k \<noteq> 0) \<and> v_files v' ! i \<noteq> 0 \<and>
    fd_file (v_descs v' (v_files v' ! i)) \<in> set (v_freed v')"
  using assms(1)
proof (cases rule: vfs_open_cases)
  case (1 w)
  then show ?thesis using assms(2) by simp
next
  case (2 w)
  have w: "fd_ok w" "v_blk w (v_taken w) \<noteq> 0" using fd_ok_cong [OF assms(3)] 2 assms(4) by auto
  have f: "0 \<in> set (v_files w)" using open_slot_cases [OF w, of "v_blk v (v_taken v)"] 2(6) assms(2) by (auto split: if_splits)
  have "length (v_files w) = 32" using w(1) by (simp add: fd_ok_def)
  with open_slot_cases [OF w, of "v_blk v (v_taken v)"] f 2 w(2) show ?thesis by auto
qed

text \<open>
  C40. Closing a descriptor makes the highest one unusable: with the descriptors 0 to \<open>n\<close> open, closing \<open>k\<close> below \<open>n\<close> leaves
  \<open>n\<close> in the table, but the kernel refuses it from then on, because it compares with the count and not with the size.
\<close>

theorem close_hides_highest:
  assumes "fd_ok v" "unat (v_file_count v) = n + 1" "\<forall>k\<le>n. v_files v ! k \<noteq> 0" "unat fd < n" "vfs_close ops fd v = done_with (v', e)"
  shows "v_files v' ! n \<noteq> 0 \<and> \<not> isgoodfd (of_nat n) v' \<and> vfs_read ops (of_nat n) buf len v' = done_with (v', - 1)"
proof -
  have n: "n < 32" using assms(1,2) length_filter_le [of _ "v_files v"] by (auto simp: fd_ok_def) (metis Suc_le_lessD)
  have u: "unat (of_nat n :: u32) = n" using n by simp
  have c: "v_file_count v \<noteq> 0" using assms(2) by auto
  have "isgoodfd fd v" using assms(2,3,4) c by (auto simp: isgoodfd_def word_le_nat_alt)
  then have v': "v_files v' = (v_files v)[unat fd := 0]" "v_file_count v' = v_file_count v - 1"
    using assms(5) by (auto simp: vfs_close_def Let_def and_then_done)
  have "unat (v_file_count v') = n" using v'(2) assms(2) c by (simp add: unat_minus_one)
  then have "\<not> isgoodfd (of_nat n) v'" using u by (simp add: isgoodfd_def word_le_nat_alt)
  with v'(1) assms(3,4) show ?thesis by (auto simp: vfs_read_def)
qed

text \<open>Seeking from the current place never fails, however far back: the test compares an unsigned sum with 0.\<close>

lemma lseek_relative: "isgoodfd fd v \<Longrightarrow> d = v_files v ! unat fd \<Longrightarrow>
  lseek fd offset 1 v = (upd_desc d (\<lambda>f. f\<lparr>r_offset := r_offset f + offset, w_offset := w_offset f + offset\<rparr>) v,
    sint (r_offset (v_descs v d) + offset))"
  by (simp add: lseek_def Let_def upd_desc_def)

section \<open>The working directory\<close>

text \<open>
  \<open>chdir\<close> moves the root: as \<open>init_tasking\<close> makes the root and the working directory of the first task one node, and
  every task inherits both, changing the directory to \<open>path\<close> makes \<open>/\<close> lead to it as well.
\<close>

theorem chdir_moves_root:
  assumes "v_in_task v" "v_cwd v = v_root v" "fs_find_path ops path v = done_with (0, Some node)"
  shows "\<exists>v'. chdir ops path v = done_with (v', 0) \<and> fs_find_path ops ''/'' v' = done_with (0, Some node)"
  using assms by (simp add: chdir_def set_node_def) (simp add: fs_find_path_def)

section \<open>Mounts\<close>

lemma register_mount_chain:
  assumes "chain (\<lambda>a. l_next (v_lists v a)) (mount_list v) ms" "mount_list v \<noteq> 0"
    and t: "t = v_blk v (v_taken v + 1)" "t \<noteq> 0" "t \<notin> set ms"
  obtains v' where "register_mount_node node v = Some (v', mount_ids v + 1)"
    "chain (\<lambda>a. l_next (v_lists v' a)) (mount_list v') (ms @ [t])" "mount_list v' = mount_list v"
    "v_lists v' t = (v_lists v t)\<lparr>l_next := 0, l_prev := last ms, l_data := v_blk v (v_taken v), l_val := mount_ids v + 1\<rparr>"
    "v_lists v' (last ms) = (v_lists v (last ms))\<lparr>l_next := t, l_data := 0\<rparr>"
    "\<And>a. a \<noteq> t \<Longrightarrow> a \<noteq> last ms \<Longrightarrow> v_lists v' a = v_lists v a"
proof -
  have ms: "ms \<noteq> []" using assms(1,2) by auto
  have l: "last ms \<noteq> t" using t(3) last_in_set [OF ms] by auto
  let ?ls = "(v_lists v)(t := (v_lists v t)\<lparr>l_next := 0, l_prev := last ms, l_data := v_blk v (v_taken v), l_val := mount_ids v + 1\<rparr>,
    last ms := (v_lists v (last ms))\<lparr>l_next := t, l_data := 0\<rparr>)"
  let ?v = "v\<lparr>v_nodes := (v_nodes v)(v_blk v (v_taken v) := node), v_lists := ?ls, v_taken := v_taken v + 2, mount_ids := mount_ids v + 1\<rparr>"
  have "l_last (v_lists v) (mount_list v) = Some (last ms)" unfolding l_last_def by (rule last_link_chain [OF assms(1) ms])
  then have r: "register_mount_node node v = Some (?v, mount_ids v + 1)"
    using assms(2) t(1) l by (simp add: register_mount_node_def l_add_node_end_def Let_def) (auto simp: fun_eq_iff)
  have "(\<lambda>a. l_next (?ls a)) = linked_behind ms t (\<lambda>a. l_next (v_lists v a))" using l ms by (auto simp: linked_behind_def fun_eq_iff)
  then have "chain (\<lambda>a. l_next (v_lists ?v a)) (mount_list ?v) (ms @ [t])"
    using chain_behind [OF assms(1) t(2,3)] ms by simp
  with that [OF r] l show thesis by simp
qed

text \<open>
  A second mount breaks the first: registering another node overwrites the data of the node before it in the list with
  0, so that looking up the earlier mount, which every path through its mount point does, reads through a null pointer.
\<close>

theorem second_mount_breaks_first:
  assumes "chain (\<lambda>a. l_next (v_lists v a)) (mount_list v) (ms @ [m])" "\<forall>a\<in>set ms. l_val (v_lists v a) \<noteq> l_val (v_lists v m)"
    and "v_blk v (v_taken v + 1) \<noteq> 0" "v_blk v (v_taken v + 1) \<notin> set (ms @ [m])"
  shows "\<exists>v'. register_mount_node node v = Some (v', mount_ids v + 1) \<and>
    get_mount_node (l_val (v_lists v m)) v' = Some (Inl Null_Deref)"
proof -
  let ?t = "v_blk v (v_taken v + 1)"
  have m0: "mount_list v \<noteq> 0" using assms(1) by (cases ms) auto
  obtain v' where v': "register_mount_node node v = Some (v', mount_ids v + 1)"
    "chain (\<lambda>a. l_next (v_lists v' a)) (mount_list v') ((ms @ [m]) @ [?t])"
    "v_lists v' (last (ms @ [m])) = (v_lists v (last (ms @ [m])))\<lparr>l_next := ?t, l_data := 0\<rparr>"
    "\<And>a. a \<noteq> ?t \<Longrightarrow> a \<noteq> last (ms @ [m]) \<Longrightarrow> v_lists v' a = v_lists v a"
    by (rule register_mount_chain [OF assms(1) m0 refl assms(3,4)]) blast
  have d: "distinct (ms @ [m])" by (rule chain_distinct [OF assms(1)])
  have f: "find (\<lambda>a. l_val (v_lists v' a) = l_val (v_lists v m)) (ms @ [m] @ [?t]) = Some m"
  proof -
    have "\<forall>a\<in>set ms. l_val (v_lists v' a) \<noteq> l_val (v_lists v m)" using v'(4) assms(2,4) d
      by (metis Un_iff distinct_append last_snoc list.set_intros(1) not_distinct_conv_prefix set_append disjoint_iff)
    moreover have "l_val (v_lists v' m) = l_val (v_lists v m)" using v'(3) by simp
    ultimately show ?thesis by (induction ms) auto
  qed
  have "m \<noteq> 0" using chain_nonzero [OF assms(1)] by auto
  then have "get_mount_node (l_val (v_lists v m)) v' = Some (Inl Null_Deref)"
    using find_link_chain [OF v'(2), of "\<lambda>a. l_val (v_lists v' a) = l_val (v_lists v m)"] f v'(3) by (simp add: get_mount_node_def)
  with v'(1) show ?thesis by blast
qed

section \<open>Concrete descriptors\<close>

lemma demo_fd_ok: "fd_ok demo_vfs"
  by (simp add: fd_ok_def demo_vfs_def)

lemma demo_root_h: "ramfs_get_file_h 1 demo_ramfs = Some 0x1200" "file_h \<lparr>n_inode = 1, n_fs = f\<rparr> demo_ramfs = done_with 0x1200"
  using file_h_ok(3) [OF demo_ramfs_ok, of "0x1200" "\<lparr>n_inode = 1, n_fs = f\<rparr>"] file_h_ok(1) [OF demo_ramfs_ok, of "0x1200" "\<lparr>n_inode = 1, n_fs = f\<rparr>"]
  by (simp_all add: demo_ramfs_facts)

lemma demo_root_header:
  "headers demo_ramfs 0x1200 = zero_header\<lparr>h_name := ''root'', h_type := FS_DIR, h_mask := 0x1ff, h_inode := 1, h_size := 0, h_links := 1\<rparr>"
  by (simp add: demo_ramfs_def init_ramfs_def Let_def)

lemma demo_open: "\<exists>v'. vfs_open ramfs_ops ''/'' O_RDONLY demo_vfs = done_with (v', 0)"
proof -
  let ?root = "\<lparr>n_inode = 1, n_fs = 0x7000\<rparr>"
  let ?v = "demo_vfs\<lparr>v_taken := v_taken demo_vfs + 1, v_nodes := (v_nodes demo_vfs)(0x8000 := \<lparr>n_inode = 0, n_fs = 0\<rparr>)\<rparr>"
  let ?v1 = "set_node 0x8000 (Some ?root) ?v"
  have d: "v_blk demo_vfs (v_taken demo_vfs) = 0x8000" "v_data ?v1 = demo_ramfs" "v_nodes ?v1 0x8000 = ?root" "v_uid ?v1 = 0"
    "v_file_count ?v1 = 0" "v_files ?v1 = replicate 32 0"
    by (simp_all add: demo_vfs_def set_node_def)
  have f: "fs_find_path ramfs_ops ''/'' ?v = done_with (0, Some ?root)" by (simp add: fs_find_path_def demo_vfs_def)
  have c: "check_perms ramfs_ops ?root O_RDONLY ?v1 = done_with True"
    unfolding check_perms_def d
    by (simp add: ramfs_file_funcs_def ramfs_get_info_def demo_root_h demo_root_header zero_header_def perms_of_def d good_op_def Let_def)
  have o: "f_open ramfs_file_funcs ?root (base_name ''/'') O_RDONLY demo_ramfs = done_with (demo_ramfs, 1)"
    by (simp add: ramfs_file_funcs_def ramfs_open_def demo_root_h)
  let ?w = "?v1\<lparr>v_data := demo_ramfs\<rparr>"
  have "open_node ramfs_ops ''/'' O_RDONLY True 0x8000 ?v1 = done_with (open_slot 0x8000 ?w)"
    unfolding open_node_def Let_def d c by (simp add: o)
  moreover have "first_free (v_files ?w) 0 = 0" "unat (v_file_count ?w) = 0" using d(5,6) by (simp_all add: numeral_eq_Suc)
  then have "snd (open_slot 0x8000 ?w) = 0" by (simp add: open_slot_def Let_def)
  ultimately show ?thesis
    unfolding vfs_open_def Let_def d(1) f by (simp add: split_beta prod_eq_iff)
qed

theorem descriptor_count_exact_witness:
  "\<exists>v'. vfs_open ramfs_ops ''/'' O_RDONLY demo_vfs = done_with (v', 0) \<and> fd_ok v' \<and> unat (v_file_count v') \<le> 32"
proof -
  obtain v' where v': "vfs_open ramfs_ops ''/'' O_RDONLY demo_vfs = done_with (v', 0)" using demo_open by blast
  then have "(fd_step ramfs_ops)\<^sup>*\<^sup>* demo_vfs v'" by (intro r_into_rtranclp fd_step.opened) (simp_all add: demo_vfs_def)
  from descriptor_count_exact [OF this demo_fd_ok] v' show ?thesis by blast
qed

theorem open_lowest_with_freed_node_witness:
  "\<exists>v'. vfs_open ramfs_ops ''/'' O_RDONLY demo_vfs = done_with (v', 0) \<and> fd_file (v_descs v' (v_files v' ! 0)) \<in> set (v_freed v')"
proof -
  obtain v' where v': "vfs_open ramfs_ops ''/'' O_RDONLY demo_vfs = done_with (v', 0)" using demo_open by blast
  have "v_blk demo_vfs (v_taken demo_vfs + 1) \<noteq> 0" by (simp add: demo_vfs_def)
  with open_lowest_with_freed_node [OF v' _ demo_fd_ok] v' show ?thesis by auto
qed

definition demo_two :: "ramfs vfs" where
  "demo_two = demo_vfs\<lparr>v_files := 0x20 # 0x24 # replicate 30 0, v_file_count := 2\<rparr>"

theorem close_hides_highest_witness:
  "\<exists>v'. vfs_close ramfs_ops 0 demo_two = done_with (v', 0) \<and> v_files v' ! 1 \<noteq> 0 \<and> vfs_read ramfs_ops 1 0x50 4 v' = done_with (v', - 1)"
proof -
  have "\<exists>v'. vfs_close ramfs_ops 0 demo_two = done_with (v', 0)"
    by (simp add: vfs_close_def isgoodfd_def demo_two_def ramfs_file_funcs_def ramfs_close_def Let_def)
  then obtain v' where v': "vfs_close ramfs_ops 0 demo_two = done_with (v', 0)" by blast
  have ok: "fd_ok demo_two" "unat (v_file_count demo_two) = 1 + 1" by (simp_all add: fd_ok_def demo_two_def)
  have "\<forall>k\<le>1. v_files demo_two ! k \<noteq> 0" by (auto simp: demo_two_def le_Suc_eq)
  from close_hides_highest [OF ok this _ v', of "0x50" 4] v' show ?thesis by auto
qed

theorem chdir_moves_root_witness:
  "\<exists>v'. chdir ramfs_ops ''.'' demo_vfs = done_with (v', 0) \<and> fs_find_path ramfs_ops ''/'' v' = done_with (0, Some \<lparr>n_inode = 1, n_fs = 0x7000\<rparr>)"
proof (rule chdir_moves_root)
  show "fs_find_path ramfs_ops ''.'' demo_vfs = done_with (0, Some \<lparr>n_inode = 1, n_fs = 0x7000\<rparr>)"
    by (simp add: fs_find_path_def fs_find_node_def demo_vfs_def ramfs_file_funcs_def ramfs_get_info_def demo_root_h Let_def)
qed (simp_all add: demo_vfs_def)

definition demo_mounts :: "ramfs vfs" where
  "demo_mounts = demo_vfs\<lparr>mount_list := 0x30, mount_ids := 2,
     v_lists := (\<lambda>_. zero_llist)(0x30 := zero_llist\<lparr>l_next := 0x40\<rparr>, 0x40 := zero_llist\<lparr>l_prev := 0x30, l_data := 0x50, l_val := 2\<rparr>)\<rparr>"

theorem second_mount_breaks_first_witness:
  "\<exists>v'. register_mount_node \<lparr>n_inode = 9, n_fs = 1\<rparr> demo_mounts = Some (v', 3) \<and> get_mount_node 2 v' = Some (Inl Null_Deref)"
proof -
  have c: "chain (\<lambda>a. l_next (v_lists demo_mounts a)) (mount_list demo_mounts) ([0x30] @ [0x40])"
    by (simp add: demo_mounts_def zero_llist_def)
  show ?thesis
    using second_mount_breaks_first [OF c, of "\<lparr>n_inode = 9, n_fs = 1\<rparr>"]
    by (simp add: demo_mounts_def zero_llist_def) (simp add: demo_vfs_def)
qed

end
