(* ===== verification/Keyboard.thy ===== *)
theory Keyboard
  imports Interrupts Fs
begin

text \<open>
  Keyboard input: the ring buffer of \<open>kern/sys/skio.c\<close> and the driver \<open>kern/drivers/peripherals/kb.c\<close>. A scan code is
  what \<open>inb( 0x60 )\<close> gives to the handler. The table \<open>map\<close> points to is kept by value. What a read of the device waits
  for is an argument: \<open>arrive n\<close> are the scan codes the handler is called with during the \<open>n\<close>-th call of
  \<open>sleep_thread( 3 )\<close>.
\<close>

abbreviation (input) IN_BUF_SIZE :: nat where "IN_BUF_SIZE \<equiv> 64"
abbreviation (input) KB_SH :: u8 where "KB_SH \<equiv> 1"
abbreviation (input) KB_LA :: u8 where "KB_LA \<equiv> 0xf0"
abbreviation (input) KB_RA :: u8 where "KB_RA \<equiv> 0xf1"
abbreviation (input) KB_UA :: u8 where "KB_UA \<equiv> 0xf2"
abbreviation (input) KB_DA :: u8 where "KB_DA \<equiv> 0xf3"
abbreviation (input) IRQ1 :: u8 where "IRQ1 \<equiv> 33"

section \<open>The input buffer\<close>

record kb =
  input_buf :: "u8 list"
  input_buf_p :: u32
  input_buf_i :: u32
  got_input :: u32
  read_buf :: u8
  map_set :: u8
  kb_map :: "u8 list"

definition get_in_char :: "kb \<Rightarrow> kb \<times> u8" where
  "get_in_char s =
    (if got_input s \<noteq> 0
     then let s1 = s\<lparr>input_buf_i := (input_buf_i s + 1) mod of_nat IN_BUF_SIZE, got_input := got_input s - 1\<rparr>
          in (s1, input_buf s1 ! unat (input_buf_i s1))
     else (s, 0))"

definition put_in_char :: "u8 \<Rightarrow> kb \<Rightarrow> kb" where
  "put_in_char buf s =
    (let s1 = s\<lparr>input_buf_p := (input_buf_p s + 1) mod of_nat IN_BUF_SIZE, got_input := got_input s + 1\<rparr>
     in s1\<lparr>input_buf := (input_buf s1)[unat (input_buf_p s1) := buf]\<rparr>)"

section \<open>The driver\<close>

definition us_kbd :: "u8 list" where
  "us_kbd =
    [0, 27] @ map of_char ''1234567890-='' @ [8, 9] @
    map of_char ''qwertyuiop[]'' @ [10, 0] @
    map of_char ''asdfghjkl;'' @ [0x27] @ map of_char ''`'' @ [KB_SH, 0x5c] @
    map of_char ''zxcvbnm,./'' @ [KB_SH] @ map of_char ''*'' @ [0] @ map of_char '' '' @
    replicate 14 0 @
    [KB_UA, 0] @ map of_char ''-'' @ [KB_LA, 0, KB_RA] @ map of_char ''+'' @ [0, KB_DA] @ replicate 47 0"

definition us_kbd_shift :: "u8 list" where
  "us_kbd_shift =
    [0, 27] @ map of_char ''!@#$%^&*()_+'' @ [8, 9] @
    map of_char ''QWERTYUIOP{}'' @ [10, 0] @
    map of_char ''ASDFGHJKL:'' @ [0x22] @ map of_char ''~'' @ [KB_SH] @ map of_char ''|'' @
    map of_char ''ZXCVBNM<>?'' @ [KB_SH] @ map of_char ''*'' @ [0] @ map of_char '' '' @
    replicate 14 0 @
    [KB_UA, 0] @ map of_char ''-'' @ [KB_LA, 0, KB_RA] @ map of_char ''+'' @ [0, KB_DA] @ replicate 47 0"

definition keyboard_handler :: "u8 \<Rightarrow> kb \<Rightarrow> kb" where
  "keyboard_handler scancode s0 =
    (let s = (if map_set s0 = 0 then s0\<lparr>kb_map := us_kbd, map_set := 1\<rparr> else s0)
     in if scancode AND 0x80 \<noteq> 0
        then let buf = kb_map s ! unat (scancode - 0x80)
             in if buf = KB_SH then s\<lparr>kb_map := us_kbd\<rparr> else s
        else let buf = kb_map s ! unat scancode
             in if buf = KB_SH then s\<lparr>kb_map := us_kbd_shift\<rparr> else (put_in_char buf s)\<lparr>read_buf := buf\<rparr>)"

partial_function (option) read_wait :: "(nat \<Rightarrow> u8 list) \<Rightarrow> nat \<Rightarrow> kb \<Rightarrow> (nat \<times> kb) option" where
  "read_wait arrive n s =
    (if read_buf s = 0 then read_wait arrive (Suc n) (fold keyboard_handler (arrive n) s) else Some (n, s))"

fun read_loop :: "(nat \<Rightarrow> u8 list) \<Rightarrow> nat \<Rightarrow> nat \<Rightarrow> kb \<Rightarrow> (u8 list \<times> kb) option" where
  "read_loop arrive n 0 s = Some ([], s)"
| "read_loop arrive n (Suc k) s =
    (case read_wait arrive n s of None \<Rightarrow> None
     | Some (n1, s1) \<Rightarrow>
         case read_loop arrive n1 k (s1\<lparr>read_buf := 0\<rparr>) of None \<Rightarrow> None
         | Some (out_buf, s2) \<Rightarrow> Some (read_buf s1 # out_buf, s2))"

text \<open>The bytes written to the buffer of the caller, the state and the result.\<close>

definition read_kb :: "(nat \<Rightarrow> u8 list) \<Rightarrow> u32 \<Rightarrow> kb \<Rightarrow> (u8 list \<times> kb \<times> u32) option" where
  "read_kb arrive len s =
    (case read_loop arrive 0 (unat len) (s\<lparr>read_buf := 0\<rparr>) of None \<Rightarrow> None
     | Some (out_buf, s1) \<Rightarrow> Some (out_buf, s1\<lparr>read_buf := 0\<rparr>, len))"

definition pread_kb :: "(nat \<Rightarrow> u8 list) \<Rightarrow> u32 \<Rightarrow> u32 \<Rightarrow> kb \<Rightarrow> (u8 list \<times> kb \<times> u32) option" where
  "pread_kb arrive len offset s = read_kb arrive len s"

definition kb_get_info :: "file_node_t \<Rightarrow> file_info_t \<times> int" where
  "kb_get_info node =
    (\<lparr>fi_type = FS_CHAR_D, fi_name = ''kb'', fi_mask = 0x1ff, fi_uid = 0, fi_gid = 0, fi_time = 0, fi_inode = 0,
      fi_size = 0, fi_links = 1, fi_flags = 1, fi_fs = n_fs node, fi_mount_id = 0\<rparr>, 0)"

definition unload_keyboard :: "handlers \<Rightarrow> handlers" where
  "unload_keyboard hs = unregister_interrupt_handler IRQ1 hs"

text \<open>
  The driver structure is constant but for its address; what changes is the table of handlers, where the handler at
  \<open>addr\<close> is entered, and the keyboard state, since the handler is called once with the scan code the port holds.
\<close>

definition keyboard_create :: "u32 \<Rightarrow> u8 \<Rightarrow> handlers \<Rightarrow> kb \<Rightarrow> handlers \<times> kb" where
  "keyboard_create addr scancode hs s = (register_interrupt_handler IRQ1 addr hs, keyboard_handler scancode s)"

section \<open>Queues with a limit\<close>

text \<open>
  What a reader of input relies on: as long as there is room, bytes come out in the order they went in, and an empty
  buffer gives \<open>none\<close> and stays as it is.
\<close>

locale bounded_fifo =
  fixes holds :: "'s \<Rightarrow> bool" and pending :: "'s \<Rightarrow> 'a list" and room :: nat
    and enq :: "'a \<Rightarrow> 's \<Rightarrow> 's" and deq :: "'s \<Rightarrow> 's \<times> 'a" and none :: 'a
  assumes enq_holds: "holds s \<Longrightarrow> length (pending s) < room \<Longrightarrow> holds (enq x s)"
    and enq_pending: "holds s \<Longrightarrow> length (pending s) < room \<Longrightarrow> pending (enq x s) = pending s @ [x]"
    and deq_some: "holds s \<Longrightarrow> pending s = x # xs \<Longrightarrow> holds (fst (deq s)) \<and> pending (fst (deq s)) = xs \<and> snd (deq s) = x"
    and deq_none: "holds s \<Longrightarrow> pending s = [] \<Longrightarrow> deq s = (s, none)"
begin

fun drain :: "nat \<Rightarrow> 's \<Rightarrow> 's \<times> 'a list" where
  "drain 0 s = (s, [])"
| "drain (Suc n) s = (let (s1, x) = deq s; (s2, xs) = drain n s1 in (s2, x # xs))"

lemma enqs_pending:
  "holds s \<Longrightarrow> length (pending s) + length xs \<le> room \<Longrightarrow>
    holds (fold enq xs s) \<and> pending (fold enq xs s) = pending s @ xs"
proof (induction xs arbitrary: s)
  case (Cons x xs)
  have "holds (enq x s)" "pending (enq x s) = pending s @ [x]"
    using Cons.prems enq_holds enq_pending by simp_all
  with Cons.IH [of "enq x s"] Cons.prems show ?case by simp
qed simp

lemma drain_pending:
  "holds s \<Longrightarrow> holds (fst (drain n s)) \<and> pending (fst (drain n s)) = drop n (pending s) \<and>
    snd (drain n s) = take n (pending s) @ replicate (n - length (pending s)) none"
proof (induction n arbitrary: s)
  case (Suc n)
  show ?case
  proof (cases "pending s")
    case Nil
    then show ?thesis using Suc.IH [of s] Suc.prems deq_none [of s] by (simp add: case_prod_beta)
  next
    case (Cons x xs)
    then show ?thesis using deq_some [OF Suc.prems Cons] Suc.IH [of "fst (deq s)"] by (simp add: case_prod_beta Let_def)
  qed
qed simp

end

section \<open>The buffer is a queue\<close>

definition pending_input :: "kb \<Rightarrow> u8 list" where
  "pending_input s = map (\<lambda>k. input_buf s ! ((unat (input_buf_i s) + 1 + k) mod IN_BUF_SIZE)) [0..<unat (got_input s)]"

definition buf_ok :: "kb \<Rightarrow> bool" where
  "buf_ok s \<longleftrightarrow> length (input_buf s) = IN_BUF_SIZE \<and> unat (input_buf_i s) < IN_BUF_SIZE \<and> unat (got_input s) \<le> IN_BUF_SIZE \<and>
     unat (input_buf_p s) = (unat (input_buf_i s) + unat (got_input s)) mod IN_BUF_SIZE"

lemma length_pending [simp]: "length (pending_input s) = unat (got_input s)"
  by (simp add: pending_input_def)

lemma pending_nth:
  "k < unat (got_input s) \<Longrightarrow> pending_input s ! k = input_buf s ! ((unat (input_buf_i s) + 1 + k) mod IN_BUF_SIZE)"
  by (simp add: pending_input_def)

lemma buf_index_next:
  assumes "unat (x :: u32) < 64"
  shows "unat ((x + 1) mod 64) = (unat x + 1) mod 64"
proof -
  have "unat (x + 1) = unat x + 1" using assms by (subst unat_plus_simple [THEN iffD1]) (auto simp: word_le_nat_alt unat_word_ariths)
  then show ?thesis by (simp add: unat_mod_distrib)
qed

lemma mod_shift_inj:
  assumes "(i + k) mod 64 = (i + l) mod (64 :: nat)" "k < 64" "l < 64"
  shows "k = l"
proof -
  have "((i + k) mod 64 + 63 * i) mod 64 = ((i + l) mod 64 + 63 * i) mod 64" using assms(1) by simp
  then have "(i + k + 63 * i) mod 64 = (i + l + 63 * i) mod 64" by (simp only: mod_add_left_eq)
  moreover have "i + k + 63 * i = k + 64 * i" "i + l + 63 * i = l + 64 * i" by simp_all
  ultimately have "(k + 64 * i) mod 64 = (l + 64 * i) mod 64" by simp
  with assms(2,3) show ?thesis by simp
qed

lemma put_in_char_simps [simp]:
  "input_buf_i (put_in_char b s) = input_buf_i s" "got_input (put_in_char b s) = got_input s + 1"
  "map_set (put_in_char b s) = map_set s" "kb_map (put_in_char b s) = kb_map s"
  by (simp_all add: put_in_char_def Let_def)

lemma put_in_char_bufs:
  assumes "buf_ok s"
  shows "input_buf (put_in_char b s) = (input_buf s)[(unat (input_buf_i s) + 1 + unat (got_input s)) mod 64 := b]"
    and "unat (input_buf_p (put_in_char b s)) = (unat (input_buf_i s) + 1 + unat (got_input s)) mod 64"
proof -
  have "unat (input_buf_p s) < 64" using assms by (simp add: buf_ok_def)
  then have "unat ((input_buf_p s + 1) mod 64) = (unat (input_buf_p s) + 1) mod 64" by (rule buf_index_next)
  also have "\<dots> = (unat (input_buf_i s) + 1 + unat (got_input s)) mod 64" using assms by (simp add: buf_ok_def mod_simps)
  finally show "unat (input_buf_p (put_in_char b s)) = (unat (input_buf_i s) + 1 + unat (got_input s)) mod 64"
    "input_buf (put_in_char b s) = (input_buf s)[(unat (input_buf_i s) + 1 + unat (got_input s)) mod 64 := b]"
    by (simp_all add: put_in_char_def Let_def)
qed

lemma got_input_inc:
  assumes "buf_ok s"
  shows "unat (got_input s + 1) = unat (got_input s) + 1"
  using assms by (simp add: buf_ok_def unat_word_ariths)

lemma put_in_char_ok: "buf_ok s \<Longrightarrow> unat (got_input s) < 64 \<Longrightarrow> buf_ok (put_in_char b s)"
  using put_in_char_bufs [of s b] got_input_inc [of s] by (simp add: buf_ok_def)

lemma put_in_char_pending:
  assumes "buf_ok s" "unat (got_input s) < 64"
  shows "pending_input (put_in_char b s) = pending_input s @ [b]"
proof (rule nth_equalityI)
  show "length (pending_input (put_in_char b s)) = length (pending_input s @ [b])"
    using got_input_inc [OF assms(1)] by simp
  fix k assume "k < length (pending_input (put_in_char b s))"
  then have k: "k \<le> unat (got_input s)" using got_input_inc [OF assms(1)] by simp
  have "(unat (input_buf_i s) + 1 + k) mod 64 \<noteq> (unat (input_buf_i s) + 1 + unat (got_input s)) mod 64" if "k < unat (got_input s)"
    using mod_shift_inj [of "unat (input_buf_i s) + 1" k "unat (got_input s)"] that assms(2) by auto
  then show "pending_input (put_in_char b s) ! k = (pending_input s @ [b]) ! k"
    using k put_in_char_bufs(1) [OF assms(1), of b] got_input_inc [OF assms(1)] assms(1)
    by (cases "k = unat (got_input s)") (simp_all add: pending_nth nth_append buf_ok_def)
qed

lemma get_in_char_some:
  assumes "buf_ok s" "pending_input s = x # xs"
  shows "buf_ok (fst (get_in_char s)) \<and> pending_input (fst (get_in_char s)) = xs \<and> snd (get_in_char s) = x"
proof -
  let ?s = "fst (get_in_char s)"
  have g: "unat (got_input s) = Suc (length xs)" using length_pending [of s] assms(2) by simp
  then have nz: "got_input s \<noteq> 0" by auto
  have i: "unat (input_buf_i ?s) = (unat (input_buf_i s) + 1) mod 64"
    using assms(1) nz buf_index_next by (simp add: get_in_char_def Let_def buf_ok_def)
  have g': "unat (got_input ?s) = length xs" using nz g by (simp add: get_in_char_def Let_def unat_minus_one)
  have b: "input_buf ?s = input_buf s" "input_buf_p ?s = input_buf_p s" by (simp_all add: get_in_char_def Let_def)
  have "buf_ok ?s" using assms(1) g unfolding buf_ok_def i g' b by (simp add: mod_simps)
  moreover have "pending_input ?s = xs"
  proof (rule nth_equalityI)
    fix k assume "k < length (pending_input ?s)"
    then have "k < length xs" using g' by simp
    then show "pending_input ?s ! k = xs ! k"
      using pending_nth [of "Suc k" s] g assms(2) mod_add_left_eq [of "Suc (unat (input_buf_i s))" 64 "Suc k"]
      by (simp add: pending_nth g' i b)
  qed (simp add: g')
  moreover have "snd (get_in_char s) = x"
    using pending_nth [of 0 s] g assms(2) nz i by (simp add: get_in_char_def Let_def)
  ultimately show ?thesis by simp
qed

interpretation input_queue: bounded_fifo buf_ok pending_input 64 put_in_char get_in_char 0
proof
  fix s
  assume "buf_ok s" "pending_input s = []"
  then show "get_in_char s = (s, 0)" using length_pending [of s] by (simp add: get_in_char_def unat_eq_0)
qed (simp_all add: put_in_char_ok put_in_char_pending get_in_char_some)

section \<open>The keyboard as a typist sees it\<close>

text \<open>The tables have the same shift keys, at the scan codes of the left and of the right one.\<close>

definition shift_key :: "u8 \<Rightarrow> bool" where
  "shift_key c \<longleftrightarrow> c = 0x2a \<or> c = 0x36"

definition key_char :: "bool \<Rightarrow> u8 \<Rightarrow> u8" where
  "key_char upper c = (if upper then us_kbd_shift else us_kbd) ! unat c"

lemma length_tables: "length us_kbd = 128" "length us_kbd_shift = 128"
  by (simp_all add: us_kbd_def us_kbd_shift_def)

lemma shift_positions:
  "map (\<lambda>c. c = 1) us_kbd = map (\<lambda>i. i = 42 \<or> i = 54) [0..<128]"
  "map (\<lambda>c. c = 1) us_kbd_shift = map (\<lambda>i. i = 42 \<or> i = 54) [0..<128]"
  by code_simp+

lemma key_char_shift:
  assumes "unat c < 128"
  shows "key_char upper c = 1 \<longleftrightarrow> shift_key c"
proof -
  have "us_kbd ! unat c = 1 \<longleftrightarrow> unat c = 42 \<or> unat c = 54"
    using arg_cong [OF shift_positions(1), of "\<lambda>xs. xs ! unat c"] assms by (simp add: length_tables)
  moreover have "us_kbd_shift ! unat c = 1 \<longleftrightarrow> unat c = 42 \<or> unat c = 54"
    using arg_cong [OF shift_positions(2), of "\<lambda>xs. xs ! unat c"] assms by (simp add: length_tables)
  moreover have "shift_key c \<longleftrightarrow> unat c = 42 \<or> unat c = 54" by (simp add: shift_key_def word_unat_eq_iff)
  ultimately show ?thesis by (simp add: key_char_def)
qed

text \<open>
  \<open>get_in_char\<close> runs with interrupts on, so that the handler can come between any two of its accesses to the buffer. The
  stages say how far a call has come: \<open>Tested\<close>, the count was seen not to be 0; \<open>Bumped\<close> and \<open>Wrapped\<close>, the two updates of
  \<open>input_buf_i\<close> have been made; \<open>Loaded\<close>, the count has been read for \<open>got_input--\<close>; \<open>Counted\<close>, it has been written back.
  A step that ends the call gives the result. There is one reader.
\<close>

datatype reader = Idle | Tested | Bumped | Wrapped | Loaded u32 | Counted

fun get_step :: "reader \<times> kb \<Rightarrow> (reader \<times> kb) \<times> u8 list" where
  "get_step (Idle, s) = (if got_input s \<noteq> 0 then ((Tested, s), []) else ((Idle, s), [0]))"
| "get_step (Tested, s) = ((Bumped, s\<lparr>input_buf_i := input_buf_i s + 1\<rparr>), [])"
| "get_step (Bumped, s) = ((Wrapped, s\<lparr>input_buf_i := input_buf_i s mod of_nat IN_BUF_SIZE\<rparr>), [])"
| "get_step (Wrapped, s) = ((Loaded (got_input s), s), [])"
| "get_step (Loaded g, s) = ((Counted, s\<lparr>got_input := g - 1\<rparr>), [])"
| "get_step (Counted, s) = ((Idle, s), [input_buf s ! unat (input_buf_i s)])"

datatype kb_event = Key u8 | Step

fun kb_run :: "kb_event list \<Rightarrow> reader \<times> kb \<Rightarrow> (reader \<times> kb) \<times> u8 list" where
  "kb_run [] x = (x, [])"
| "kb_run (Key c # es) x = kb_run es (fst x, keyboard_handler c (snd x))"
| "kb_run (Step # es) x = (let (x1, cs) = get_step x; (x2, ds) = kb_run es x1 in (x2, cs @ ds))"

text \<open>Without an interrupt the steps are the call.\<close>

lemma get_steps_get_in_char:
  "kb_run (replicate (if got_input s = 0 then 1 else 6) Step) (Idle, s) = ((Idle, fst (get_in_char s)), [snd (get_in_char s)])"
  by (simp add: get_in_char_def Let_def eval_nat_numeral)

text \<open>
  The specification: a shift key is up or down, the other keys are queued as the characters they stand for, and reading
  takes them from the queue; a call that finds a character takes six steps, of which \<open>n\<close> are done. It is silent about
  two things: a key pressed when 64 characters wait, and a key pressed while a call is between reading the count and
  writing it back.
\<close>

fun typist :: "kb_event list \<Rightarrow> nat \<Rightarrow> bool \<Rightarrow> u8 list \<Rightarrow> u8 list option" where
  "typist [] n upper q = Some []"
| "typist (Key c # es) n upper q =
    (if unat c < 128 then
       if shift_key c then typist es n True q
       else if length q < 64 \<and> n \<noteq> 4 then typist es n upper (q @ [key_char upper c]) else None
     else typist es n (upper \<and> \<not> shift_key (c - 0x80)) q)"
| "typist (Step # es) n upper q =
    (if n = 0 \<and> q = [] then map_option ((#) 0) (typist es 0 upper [])
     else if n < 5 then typist es (Suc n) upper q
     else map_option ((#) (hd q)) (typist es 0 upper (tl q)))"

definition kb_level :: "bool \<Rightarrow> kb \<Rightarrow> bool" where
  "kb_level upper s \<longleftrightarrow> (if map_set s = 0 then \<not> upper else kb_map s = (if upper then us_kbd_shift else us_kbd))"

definition kb_shows :: "bool \<Rightarrow> u8 list \<Rightarrow> kb \<Rightarrow> bool" where
  "kb_shows upper q s \<longleftrightarrow> buf_ok s \<and> pending_input s = q \<and> kb_level upper s"

definition kb_started :: "kb \<Rightarrow> kb" where
  "kb_started s = (if map_set s = 0 then s\<lparr>kb_map := us_kbd, map_set := 1\<rparr> else s)"

lemma top_bit_u8: "(c :: u8) AND 0x80 = 0 \<longleftrightarrow> unat c < 128"
proof -
  have "c AND 0x80 = 0 \<longleftrightarrow> \<not> bit c 7" using and_exp_eq_0_iff_not_bit [of c 7] by simp
  also have "\<dots> \<longleftrightarrow> \<not> bit (unat c) 7" by (simp add: bit_unsigned_iff)
  also have "\<dots> \<longleftrightarrow> even (unat c div 128)" by (simp add: bit_iff_odd)
  also have "\<dots> \<longleftrightarrow> unat c div 128 = 0"
  proof -
    have "even n \<longleftrightarrow> n = 0" if "n < 2" for n :: nat using that by (auto simp: less_2_cases_iff)
    moreover have "unat c div 128 < 2" using unsigned_less [of c, where ?'a = nat] by (simp add: div_less_iff_less_mult)
    ultimately show ?thesis by blast
  qed
  finally show ?thesis by (simp add: div_eq_0_iff)
qed

lemma buf_ok_cong: "buf_ok (s\<lparr>kb_map := m, map_set := k\<rparr>) = buf_ok s" "buf_ok (s\<lparr>kb_map := m\<rparr>) = buf_ok s"
  "buf_ok (s\<lparr>read_buf := b\<rparr>) = buf_ok s" "pending_input (s\<lparr>kb_map := m\<rparr>) = pending_input s"
  "pending_input (s\<lparr>kb_map := m, map_set := k\<rparr>) = pending_input s" "pending_input (s\<lparr>read_buf := b\<rparr>) = pending_input s"
  by (simp_all add: buf_ok_def pending_input_def)

lemma kb_started_level:
  "kb_level upper s \<Longrightarrow> kb_map (kb_started s) = (if upper then us_kbd_shift else us_kbd)" "map_set (kb_started s) \<noteq> 0"
  "buf_ok (kb_started s) = buf_ok s" "pending_input (kb_started s) = pending_input s"
  by (auto simp: kb_started_def kb_level_def buf_ok_cong split: if_splits)

lemma keyboard_handler_eq:
  assumes "kb_level upper s"
  shows "keyboard_handler c s =
    (if unat c \<ge> 128 then if key_char upper (c - 0x80) = 1 then (kb_started s)\<lparr>kb_map := us_kbd\<rparr> else kb_started s
     else if key_char upper c = 1 then (kb_started s)\<lparr>kb_map := us_kbd_shift\<rparr>
     else (put_in_char (key_char upper c) (kb_started s))\<lparr>read_buf := key_char upper c\<rparr>)"
proof -
  have "kb_map (kb_started s) ! unat d = key_char upper d" for d
    using kb_started_level(1) [OF assms] by (simp add: key_char_def)
  then show ?thesis by (simp add: keyboard_handler_def top_bit_u8 Let_def kb_started_def [symmetric])
qed

lemma release_below: "unat (c :: u8) \<ge> 128 \<Longrightarrow> unat (c - 0x80) < 128"
  using unsigned_less [of c, where ?'a = nat] by (simp add: unat_sub word_le_nat_alt)

lemma release_shift: "unat c \<ge> 128 \<Longrightarrow> key_char upper (c - 0x80) = 1 \<longleftrightarrow> shift_key (c - 0x80)"
  by (rule key_char_shift) (rule release_below)

lemma keyboard_handler_shows:
  assumes "kb_shows upper q s"
  shows "unat c \<ge> 128 \<Longrightarrow> kb_shows (upper \<and> \<not> shift_key (c - 0x80)) q (keyboard_handler c s)"
    and "unat c < 128 \<Longrightarrow> shift_key c \<Longrightarrow> kb_shows True q (keyboard_handler c s)"
    and "unat c < 128 \<Longrightarrow> \<not> shift_key c \<Longrightarrow> length q < 64 \<Longrightarrow>
      kb_shows upper (q @ [key_char upper c]) (keyboard_handler c s)"
proof -
  have l: "kb_level upper s" and s: "kb_map (kb_started s) = (if upper then us_kbd_shift else us_kbd)"
    "map_set (kb_started s) \<noteq> 0" "buf_ok (kb_started s)" "pending_input (kb_started s) = q"
    using assms kb_started_level(1) [of upper s] kb_started_level(2-4) [of s] by (auto simp: kb_shows_def)
  note h = keyboard_handler_eq [OF l, of c]
  show "kb_shows (upper \<and> \<not> shift_key (c - 0x80)) q (keyboard_handler c s)" if "unat c \<ge> 128"
    using that s release_shift [of c upper] by (simp add: h kb_shows_def kb_level_def buf_ok_cong)
  show "kb_shows True q (keyboard_handler c s)" if "unat c < 128" "shift_key c"
    using that s key_char_shift [of c upper] by (simp add: h kb_shows_def kb_level_def buf_ok_cong)
  show "kb_shows upper (q @ [key_char upper c]) (keyboard_handler c s)" if "unat c < 128" "\<not> shift_key c" "length q < 64"
    using that s key_char_shift [of c upper] input_queue.enq_holds [of "kb_started s"] input_queue.enq_pending [of "kb_started s"]
    by (simp add: h kb_shows_def kb_level_def buf_ok_cong)
qed

lemma get_in_char_shows:
  "kb_shows upper (c # q) s \<Longrightarrow> kb_shows upper q (fst (get_in_char s)) \<and> snd (get_in_char s) = c"
  "kb_shows upper [] s \<Longrightarrow> get_in_char s = (s, 0)"
  using input_queue.deq_some [of s c q] input_queue.deq_none [of s]
  by (auto simp: kb_shows_def kb_level_def get_in_char_def Let_def)

text \<open>
  What the driver holds while a call is under way is what \<open>partway\<close> makes of a state in which the call has not begun.
  The handler does not touch \<open>input_buf_i\<close> and only adds to the count, so it commutes with the part that is done.
\<close>

fun stage_no :: "reader \<Rightarrow> nat" where
  "stage_no Idle = 0" | "stage_no Tested = 1" | "stage_no Bumped = 2" | "stage_no Wrapped = 3" | "stage_no (Loaded g) = 4"
| "stage_no Counted = 5"

fun partway :: "reader \<Rightarrow> kb \<Rightarrow> kb" where
  "partway Bumped t = t\<lparr>input_buf_i := input_buf_i t + 1\<rparr>"
| "partway Wrapped t = t\<lparr>input_buf_i := (input_buf_i t + 1) mod 64\<rparr>"
| "partway (Loaded g) t = t\<lparr>input_buf_i := (input_buf_i t + 1) mod 64\<rparr>"
| "partway Counted t = t\<lparr>input_buf_i := (input_buf_i t + 1) mod 64, got_input := got_input t - 1\<rparr>"
| "partway r t = t"

definition kb_serves :: "bool \<Rightarrow> u8 list \<Rightarrow> reader \<times> kb \<Rightarrow> bool" where
  "kb_serves upper q x \<longleftrightarrow> (\<exists>t. kb_shows upper q t \<and> snd x = partway (fst x) t \<and> (fst x \<noteq> Idle \<longrightarrow> q \<noteq> []) \<and>
     (\<forall>g. fst x = Loaded g \<longrightarrow> g = got_input t))"

lemma keyboard_handler_partway: "keyboard_handler c (partway r t) = partway r (keyboard_handler c t)"
  by (cases r) (simp_all add: keyboard_handler_def put_in_char_def Let_def)

lemma kb_shows_count: "kb_shows upper q t \<Longrightarrow> got_input t = 0 \<longleftrightarrow> q = []"
  unfolding kb_shows_def by (metis length_pending length_0_conv unat_eq_0)

lemma release_keeps_count: "unat c \<ge> 128 \<or> shift_key c \<Longrightarrow> kb_level upper t \<Longrightarrow> got_input (keyboard_handler c t) = got_input t"
  using key_char_shift [of c upper] by (cases "unat c < 128") (auto simp: keyboard_handler_eq kb_started_def)

lemma kb_serves_key:
  assumes "kb_serves upper q (r, s)"
  shows "unat c \<ge> 128 \<Longrightarrow> kb_serves (upper \<and> \<not> shift_key (c - 0x80)) q (r, keyboard_handler c s)"
    and "unat c < 128 \<Longrightarrow> shift_key c \<Longrightarrow> kb_serves True q (r, keyboard_handler c s)"
    and "unat c < 128 \<Longrightarrow> \<not> shift_key c \<Longrightarrow> length q < 64 \<Longrightarrow> stage_no r \<noteq> 4 \<Longrightarrow>
      kb_serves upper (q @ [key_char upper c]) (r, keyboard_handler c s)"
proof -
  obtain t where t: "kb_shows upper q t" "s = partway r t" "r \<noteq> Idle \<longrightarrow> q \<noteq> []" "\<forall>g. r = Loaded g \<longrightarrow> g = got_input t"
    using assms by (auto simp: kb_serves_def)
  have l: "kb_level upper t" using t(1) by (simp add: kb_shows_def)
  note k = keyboard_handler_shows [OF t(1), of c] release_keeps_count [OF _ l, of c] keyboard_handler_partway [of c r t]
  show "kb_serves (upper \<and> \<not> shift_key (c - 0x80)) q (r, keyboard_handler c s)" if "unat c \<ge> 128"
    unfolding kb_serves_def using k t that by (intro exI [of _ "keyboard_handler c t"]) auto
  show "kb_serves True q (r, keyboard_handler c s)" if "unat c < 128" "shift_key c"
    unfolding kb_serves_def using k t that by (intro exI [of _ "keyboard_handler c t"]) auto
  show "kb_serves upper (q @ [key_char upper c]) (r, keyboard_handler c s)"
    if "unat c < 128" "\<not> shift_key c" "length q < 64" "stage_no r \<noteq> 4"
    unfolding kb_serves_def using k t that by (intro exI [of _ "keyboard_handler c t"]) auto
qed

lemma kb_serves_step:
  assumes "kb_serves upper q (r, s)"
  shows "if stage_no r = 0 \<and> q = [] then get_step (r, s) = ((r, s), [0])
    else if stage_no r < 5 then \<exists>r' s'. get_step (r, s) = ((r', s'), []) \<and> stage_no r' = Suc (stage_no r) \<and> kb_serves upper q (r', s')
    else \<exists>s'. get_step (r, s) = ((Idle, s'), [hd q]) \<and> kb_serves upper (tl q) (Idle, s')"
proof -
  obtain t where t: "kb_shows upper q t" "s = partway r t" "r \<noteq> Idle \<longrightarrow> q \<noteq> []" "\<forall>g. r = Loaded g \<longrightarrow> g = got_input t"
    using assms by (auto simp: kb_serves_def)
  note n = kb_shows_count [OF t(1)]
  show ?thesis
  proof (cases r)
    case Counted
    then obtain c q' where q: "q = c # q'" using t(3) by (cases q) auto
    have g: "get_in_char t = (s, input_buf s ! unat (input_buf_i s))" using t(2) Counted n q by (simp add: get_in_char_def Let_def)
    have "kb_shows upper q' s \<and> input_buf s ! unat (input_buf_i s) = c" using get_in_char_shows(1) [OF t(1) [unfolded q]] g by simp
    then show ?thesis using Counted q by (auto simp: kb_serves_def)
  qed (use t n in \<open>auto simp: kb_serves_def\<close>)
qed

lemma kb_run_typist:
  "kb_serves upper q x \<Longrightarrow> typist es (stage_no (fst x)) upper q = Some cs \<Longrightarrow> snd (kb_run es x) = cs"
proof (induction es "stage_no (fst x)" upper q arbitrary: x cs rule: typist.induct)
  case (2 c es upper q)
  then show ?case using kb_serves_key [of upper q "fst x" "snd x" c] by (auto split: if_splits)
next
  case (3 es upper q)
  obtain r s where x: "x = (r, s)" by fastforce
  then show ?case using kb_serves_step [of upper q r s] 3 by (auto simp: case_prod_beta Let_def split: if_splits)
qed simp

text \<open>
  C18. What is typed is what is read, with interrupts at every point of the reader: from every state of the driver, for
  every sequence of key presses and releases and of steps of calls of \<open>get_in_char\<close>, the calls return the characters the
  keys stand for under the shift keys held down, each once and in the order typed, and 0 when none waits. The sequences
  are those in which no character key is pressed while 64 characters wait, the one being read counted, nor in the one
  place where a call has read \<open>got_input\<close> and not yet written it back; what happens there are \<open>input_overrun\<close> and
  \<open>count_race\<close>.
\<close>

theorem keyboard_delivers_typed:
  assumes "kb_shows upper q s" "typist es 0 upper q = Some cs"
  shows "snd (kb_run es (Idle, s)) = cs"
  using kb_run_typist [of upper q "(Idle, s)" es cs] assms by (auto simp: kb_serves_def)

text \<open>The memory of the driver before the first interrupt.\<close>

definition kb_boot :: kb where
  "kb_boot = \<lparr>input_buf = replicate 64 0, input_buf_p = 0, input_buf_i = 0, got_input = 0, read_buf = 0, map_set = 0, kb_map = []\<rparr>"

lemma kb_boot_shows: "kb_shows False [] kb_boot"
  by (simp add: kb_shows_def kb_level_def kb_boot_def buf_ok_def pending_input_def)

theorem keyboard_delivers_typed_witness:
  "snd (kb_run [Key 0x2a, Key 0x23, Step, Key 0xa3, Step, Key 0xaa, Step, Key 0x17, Step, Step, Step,
      Step, Step, Step, Step, Step, Step, Step] (Idle, kb_boot)) = [72, 105, 0]"
  by (rule keyboard_delivers_typed [OF kb_boot_shows])
     (simp add: shift_key_def key_char_def us_kbd_def us_kbd_shift_def)

text \<open>
  A key that comes between the two halves of \<open>got_input--\<close> is stored and not counted: three keys have been pressed, one
  call has returned the first, and the count says that one waits.
\<close>

lemma count_race:
  "case kb_run [Key 0x23, Key 0x17, Step, Step, Step, Step, Key 0x23, Step, Step] (Idle, kb_boot) of
     ((r, s), cs) \<Rightarrow> cs = [104] \<and> got_input s = 1 \<and> input_buf_p s = 3"
  by (simp add: kb_boot_def keyboard_handler_def put_in_char_def us_kbd_def us_kbd_shift_def)

text \<open>
  The 65th waiting character is not refused: it is stored over the first one, is the next to be read, and the first
  character is lost, while the count says that 65 wait.
\<close>

theorem input_overrun:
  assumes "buf_ok s" "unat (got_input s) = 64"
  shows "pending_input (put_in_char b s) = b # tl (pending_input s) @ [b] \<and> unat (got_input (put_in_char b s)) = 65 \<and>
    snd (get_in_char (put_in_char b s)) = b"
proof -
  let ?s = "put_in_char b s" and ?i = "unat (input_buf_i s)"
  have len: "length (input_buf s) = 64" and i: "?i < 64" using assms(1) by (auto simp: buf_ok_def)
  have w: "(65 + ?i) mod 64 = Suc ?i mod 64" using mod_add_self2 [of "Suc ?i" 64] by simp
  then have p: "input_buf ?s = (input_buf s)[(?i + 1) mod 64 := b]"
    using put_in_char_bufs(1) [OF assms(1), of b] assms(2) by simp
  have g: "unat (got_input s + 1) = 65" using got_input_inc [OF assms(1)] assms(2) by simp
  then have nz: "got_input s + 1 \<noteq> 0" by (metis unsigned_0 zero_neq_numeral)
  have "snd (get_in_char ?s) = b" using nz p buf_index_next [OF i] len by (simp add: get_in_char_def Let_def)
  moreover have "pending_input ?s = b # tl (pending_input s) @ [b]"
  proof (rule nth_equalityI)
    fix k assume "k < length (pending_input ?s)"
    then have k: "k < 65" using g by simp
    consider "k = 0" | "k = 64" | "0 < k" "k < 64" using k by linarith
    then show "pending_input ?s ! k = (b # tl (pending_input s) @ [b]) ! k"
    proof cases
      case 3
      then have "(?i + 1 + k) mod 64 \<noteq> (?i + 1) mod 64" using mod_shift_inj [of "?i + 1" k 0] by auto
      moreover have "k - Suc 0 < 63" using 3 by simp
      ultimately show ?thesis
        using 3 pending_nth [of k s] assms(2) g by (simp add: pending_nth p nth_Cons' nth_append nth_tl)
    qed (simp_all add: pending_nth g p len nth_append assms(2) w)
  qed (simp add: g assms(2))
  ultimately show ?thesis using g by simp
qed

theorem input_overrun_witness:
  "pending_input (put_in_char 7 (kb_boot\<lparr>got_input := 64\<rparr>)) = 7 # replicate 63 0 @ [7] \<and>
   unat (got_input (put_in_char 7 (kb_boot\<lparr>got_input := 64\<rparr>))) = 65 \<and>
   snd (get_in_char (put_in_char 7 (kb_boot\<lparr>got_input := 64\<rparr>))) = 7"
proof -
  have "pending_input (kb_boot\<lparr>got_input := 64\<rparr>) = replicate 64 0"
    by (simp add: pending_input_def kb_boot_def list_eq_iff_nth_eq)
  then have "tl (pending_input (kb_boot\<lparr>got_input := 64\<rparr>)) = replicate 63 0" by simp
  moreover have "buf_ok (kb_boot\<lparr>got_input := 64\<rparr>)" by (simp add: buf_ok_def kb_boot_def)
  ultimately show ?thesis using input_overrun [of "kb_boot\<lparr>got_input := 64\<rparr>" 7] by simp
qed

lemma read_wait_now: "read_buf s \<noteq> 0 \<Longrightarrow> read_wait arrive n s = Some (n, s)"
  by (subst read_wait.simps) simp

lemma read_wait_next:
  "read_buf s = 0 \<Longrightarrow> read_wait arrive n s = read_wait arrive (Suc n) (fold keyboard_handler (arrive n) s)"
  by (subst read_wait.simps) simp

text \<open>
  What a scan code does to a reader of the device: the shift level, and the character left in \<open>read_buf\<close>, which every
  press of another key overwrites, with 0 when the key has no character.
\<close>

definition key_effect :: "u8 \<Rightarrow> bool \<times> u8 \<Rightarrow> bool \<times> u8" where
  "key_effect c = (\<lambda>(upper, last).
    if unat c < 128 then if shift_key c then (True, last) else (upper, key_char upper c)
    else (upper \<and> \<not> shift_key (c - 0x80), last))"

text \<open>The characters left by \<open>m\<close> calls of \<open>sleep_thread\<close>, from the one numbered \<open>n\<close> on: at most one each.\<close>

primrec sleep_chars :: "(nat \<Rightarrow> u8 list) \<Rightarrow> nat \<Rightarrow> nat \<Rightarrow> bool \<Rightarrow> u8 list" where
  "sleep_chars arrive n 0 upper = []"
| "sleep_chars arrive n (Suc m) upper =
    (let (upper', c) = fold key_effect (arrive n) (upper, 0)
     in (if c = 0 then [] else [c]) @ sleep_chars arrive (Suc n) m upper')"

lemma keyboard_handler_effect:
  assumes "kb_level upper s" "key_effect c (upper, read_buf s) = (upper', b)"
  shows "kb_level upper' (keyboard_handler c s) \<and> read_buf (keyboard_handler c s) = b"
proof -
  have "read_buf (kb_started s) = read_buf s" by (simp add: kb_started_def)
  then show ?thesis
    using assms release_shift [of c upper] key_char_shift [of c upper] kb_started_level(1) [of upper s] kb_started_level(2) [of s]
    by (auto simp: keyboard_handler_eq kb_level_def key_effect_def split: if_splits)
qed

lemma fold_handler_effect:
  "kb_level upper s \<Longrightarrow> fold key_effect scs (upper, read_buf s) = (upper', b) \<Longrightarrow>
    kb_level upper' (fold keyboard_handler scs s) \<and> read_buf (fold keyboard_handler scs s) = b"
proof (induction scs arbitrary: upper s)
  case (Cons c scs)
  obtain u d where "key_effect c (upper, read_buf s) = (u, d)" by fastforce
  then show ?case using Cons keyboard_handler_effect [of upper s c u d] by auto
qed simp

lemma read_loop_sleep_chars:
  "kb_level upper s \<Longrightarrow> read_buf s = 0 \<Longrightarrow> k \<le> length (sleep_chars arrive n m upper) \<Longrightarrow>
    \<exists>s'. read_loop arrive n k s = Some (take k (sleep_chars arrive n m upper), s')"
proof (induction m arbitrary: n k upper s)
  case (Suc m)
  let ?s = "fold keyboard_handler (arrive n) s"
  obtain u c where e: "fold key_effect (arrive n) (upper, 0) = (u, c)" by fastforce
  then have h: "kb_level u ?s" "read_buf ?s = c" using fold_handler_effect [of upper s "arrive n" u c] Suc.prems by auto
  show ?case
  proof (cases k)
    case (Suc j)
    note w = read_wait_next [OF Suc.prems(2), of arrive n]
    show ?thesis
    proof (cases "c = 0")
      case True
      then have "read_loop arrive n k s = read_loop arrive (Suc n) k ?s" using Suc w by simp
      then show ?thesis using Suc.IH [OF h(1), of k "Suc n"] True h(2) e Suc.prems(3) by simp
    next
      case False
      have "kb_level u (?s\<lparr>read_buf := 0\<rparr>)" using h(1) by (simp add: kb_level_def)
      from Suc.IH [OF this, of j "Suc n"] False e Suc.prems(3) Suc w h(2) show ?thesis by (auto simp: read_wait_now)
    qed
  qed simp
qed simp

text \<open>
  Reading the device gives at most one character per call of \<open>sleep_thread\<close>: the read returns as soon as as many calls
  have left a character as bytes were asked for, with these characters in order. What else was typed during one of these
  calls is lost to the reader: two keys pressed in one sleep give the second only.
\<close>

theorem read_kb_sleep_chars:
  assumes "kb_level upper s" "unat len \<le> length (sleep_chars arrive 0 m upper)"
  shows "\<exists>s'. read_kb arrive len s = Some (take (unat len) (sleep_chars arrive 0 m upper), s', len)"
proof -
  have "kb_level upper (s\<lparr>read_buf := 0\<rparr>)" using assms(1) by (simp add: kb_level_def)
  then show ?thesis using read_loop_sleep_chars [of upper "s\<lparr>read_buf := 0\<rparr>" "unat len" arrive 0 m] assms(2) by (auto simp: read_kb_def)
qed

theorem read_kb_sleep_chars_witness:
  "\<exists>s'. read_kb (\<lambda>n. if n = 0 then [0x2a] else [0x23, 0xa3, 0x17]) 2 kb_boot = Some ([73, 73], s', 2)"
proof -
  have "sleep_chars (\<lambda>n. if n = 0 then [0x2a] else [0x23, 0xa3, 0x17]) 0 3 False = [73, 73]"
    by (simp add: key_effect_def shift_key_def key_char_def us_kbd_def us_kbd_shift_def numeral_3_eq_3)
  then show ?thesis
    using read_kb_sleep_chars [of False kb_boot 2 "\<lambda>n. if n = 0 then [0x2a] else [0x23, 0xa3, 0x17]" 3]
    by (simp add: kb_level_def kb_boot_def)
qed

end
