(* ===== verification/Console.thy ===== *)
theory Console
  imports Fs Blocks
begin

text \<open>
  The text console, \<open>kern/drivers/peripherals/console.c\<close>: a cursor, a colour and the video memory at \<open>0xb8000\<close>, two
  bytes for each of 25 rows of 80 cells. The video memory is part of the byte memory, so that stray writes are seen where
  they go. Writes to ports are a trace.
\<close>

abbreviation XSIZE :: u32 where "XSIZE \<equiv> 80"
abbreviation videoram :: u32 where "videoram \<equiv> 0xb8000"

record console =
  con_mem :: mem
  cur_x_pos :: u16
  cur_y_pos :: u16
  color :: u16
  con_scroll_offset :: u16
  con_ports :: "(u16 \<times> u8) list"

section \<open>Operations\<close>

definition cls :: "console \<Rightarrow> console" where
  "cls s = s\<lparr>con_mem := memset (con_mem s) videoram 0 4000, cur_x_pos := 0, cur_y_pos := 0\<rparr>"

definition move_cursor :: "console \<Rightarrow> console" where
  "move_cursor s =
    (let temp = ucast (cur_y_pos s) * 80 + ucast (cur_x_pos s) :: u32
     in s\<lparr>con_ports := con_ports s @ [(0x3d4, 14), (0x3d5, ucast (drop_bit 8 temp)), (0x3d4, 15), (0x3d5, ucast temp)]\<rparr>)"

text \<open>The first loop copies rows from \<open>i\<close> on; its result is the memory and the last value of \<open>i\<close>.\<close>

function scroll_rows :: "u16 \<Rightarrow> mem \<Rightarrow> mem \<times> u16" where
  "scroll_rows i m =
    (if i < 24
     then scroll_rows (i + 1)
            (memcpy m (videoram + ucast i * XSIZE * 2) (videoram + (ucast i + 1) * XSIZE * 2) (XSIZE * 2))
     else (m, i))"
  by pat_completeness auto
termination
proof (relation "measure (\<lambda>(i, m). 24 - unat i)")
  fix i :: u16
  assume "i < 24"
  then have "unat i < 24" by (simp add: word_less_nat_alt)
  moreover from this have "unat (i + 1) = unat i + 1" by (simp add: unat_word_ariths)
  ultimately show "((i + 1, m), (i, m')) \<in> measure (\<lambda>(i, m). 24 - unat i)" for m m' :: mem by simp
qed simp

function lower_row :: "u16 \<Rightarrow> u16" where
  "lower_row y = (if y > 24 then lower_row (y - 1) else y)"
  by pat_completeness auto
termination
proof (relation "measure unat")
  fix y :: u16
  assume "24 < y"
  then have "0 < unat y" "y \<noteq> 0" by (auto simp: word_less_nat_alt)
  moreover from this have "unat (y - 1) = unat y - 1" by (simp add: unat_minus_one)
  ultimately show "(y - 1, y) \<in> measure unat" by (simp only: in_measure)
qed simp

definition kcheck_scroll :: "console \<Rightarrow> console" where
  "kcheck_scroll s =
    (if cur_y_pos s > 24
     then let (m, i) = scroll_rows (con_scroll_offset s) (con_mem s)
          in s\<lparr>cur_y_pos := lower_row (cur_y_pos s), con_mem := memset m (videoram + ucast i * XSIZE * 2) 0 (XSIZE * 2)\<rparr>
     else s)"

definition set_color :: "u8 \<Rightarrow> console \<Rightarrow> console" where
  "set_color new_color s = s\<lparr>color := ucast new_color\<rparr>"

definition kputchar :: "u8 \<Rightarrow> console \<Rightarrow> console" where
  "kputchar inp s =
    (let pos = ucast (cur_y_pos s) * XSIZE + ucast (cur_x_pos s) :: u32;
         s1 =
          (if inp \<ge> 0x20 \<and> inp < 0x7f then
             let s' = s\<lparr>con_mem := (con_mem s)(videoram + pos * 2 := inp, videoram + (pos * 2 + 1) := ucast (color s),
                                              videoram + (pos * 2 + 3) := ucast (color s)),
                        cur_x_pos := cur_x_pos s + 1\<rparr>
             in if cur_x_pos s' > 80 then s'\<lparr>cur_y_pos := cur_y_pos s' + 1, cur_x_pos := 0\<rparr> else s'
           else if inp = 10 then s\<lparr>cur_y_pos := cur_y_pos s + 1, cur_x_pos := 0\<rparr>
           else if inp = 13 then s\<lparr>cur_x_pos := 0\<rparr>
           else if inp = 9 then s\<lparr>cur_x_pos := cur_x_pos s + (8 - cur_x_pos s mod 8)\<rparr>
           else if inp = 8 then s\<lparr>cur_x_pos := cur_x_pos s - 1, con_mem := (con_mem s)(videoram + (pos * 2 - 2) := 32)\<rparr>
           else if inp \<ge> 0x10 \<and> inp \<le> 0x1f then set_color (inp - 0x10) s
           else s)
     in kcheck_scroll (move_cursor s1))"

text \<open>The length is taken anew in each round, and \<open>i\<close> is a 16-bit counter.\<close>

partial_function (option) kputs_loop :: "u32 \<Rightarrow> u16 \<Rightarrow> console \<Rightarrow> console option" where
  "kputs_loop inp i s =
    (case strlen (con_mem s) inp of None \<Rightarrow> None
     | Some n \<Rightarrow> if ucast i < n then kputs_loop inp (i + 1) (kputchar (con_mem s (inp + ucast i)) s) else Some s)"

definition kputs :: "u32 \<Rightarrow> console \<Rightarrow> console option" where
  "kputs inp s = kputs_loop inp 0 s"

fun write_loop :: "u32 \<Rightarrow> nat \<Rightarrow> console \<Rightarrow> console" where
  "write_loop in_buf 0 s = s"
| "write_loop in_buf (Suc n) s = write_loop (in_buf + 1) n (kputchar (con_mem s in_buf) s)"

definition console_write :: "file_node_t \<Rightarrow> u32 \<Rightarrow> u32 \<Rightarrow> console \<Rightarrow> console \<times> u32" where
  "console_write node buf len s = (write_loop buf (unat len) s, len)"

definition console_pwrite :: "file_node_t \<Rightarrow> u32 \<Rightarrow> u32 \<Rightarrow> u32 \<Rightarrow> console \<Rightarrow> console \<times> u32" where
  "console_pwrite node buf len offset s = console_write node buf len s"

definition console_get_info :: "file_node_t \<Rightarrow> file_info_t \<times> int" where
  "console_get_info node =
    (\<lparr>fi_type = FS_CHAR_D, fi_name = ''tty'', fi_mask = 0x1ff, fi_uid = 0, fi_gid = 0, fi_time = 0, fi_inode = 0,
      fi_size = 0, fi_links = 1, fi_flags = 1, fi_fs = n_fs node, fi_mount_id = 0\<rparr>, 0)"

text \<open>The table leaves \<open>readdir\<close> and \<open>callback\<close> null.\<close>

definition console_funcs :: "console file_funcs_t" where
  "console_funcs =
    \<lparr>f_pread = \<lambda>node buf len offset s. done_with (s, of_int (- ENOTSUP)),
     f_pwrite = \<lambda>node buf len offset s. done_with (console_pwrite node buf len offset s),
     f_mkdir = \<lambda>node name mask s. done_with (s, - ENOTSUP),
     f_mknod = \<lambda>node name type mask s. done_with (s, - ENOTSUP),
     f_unlink = \<lambda>node s. done_with (s, - ENOTSUP),
     f_readdir = \<lambda>node n s. Some (Inl Null_Deref),
     f_open = \<lambda>node path flags s. done_with (s, 1),
     f_close = \<lambda>node s. done_with (s, 0),
     f_get_info = \<lambda>node s. done_with (case console_get_info node of (info, r) \<Rightarrow> (Some info, r)),
     f_callback = \<lambda>node op vr val s. Some (Inl Null_Deref)\<rparr>"

section \<open>The screen by byte offset\<close>

text \<open>Every address is \<open>videoram\<close> plus an offset, so facts about all offsets are facts about the whole memory.\<close>

definition scr :: "console \<Rightarrow> nat \<Rightarrow> u8" where
  "scr s d = con_mem s (videoram + of_nat d)"

lemma scr_memset:
  assumes "d < 2 ^ 32" "x + n < 2 ^ 32"
  shows "memset m (videoram + of_nat x) v (of_nat n) (videoram + of_nat d) =
    (if x \<le> d \<and> d < x + n then v else m (videoram + of_nat d))"
  using assms unat_of_nat_diff_32 [of d x] by (auto simp: memset_apply)

lemma scr_row_up:
  assumes "d < 2 ^ 32" "i < 1000"
  shows "memcpy m (videoram + of_nat (160 * i)) (videoram + of_nat (160 * (i + 1))) 160 (videoram + of_nat d) =
    (if 160 * i \<le> d \<and> d < 160 * (i + 1) then m (videoram + of_nat (d + 160)) else m (videoram + of_nat d))"
proof -
  have "unat (of_nat (160 * i) - of_nat (160 * (i + 1)) :: u32) = 2 ^ 32 - 160"
    using assms(2) by (subst unat_of_nat_diff_32) auto
  then have "unat (160 :: u32) \<le> unat (videoram + of_nat (160 * i) - (videoram + of_nat (160 * (i + 1))))" by simp
  note copy = memcpy_apply [OF disjI2 [OF this], of m "videoram + of_nat d"]
  have dist: "unat (videoram + of_nat d - (videoram + of_nat (160 * i))) = (if 160 * i \<le> d then d - 160 * i else 2 ^ 32 + d - 160 * i)"
    using assms unat_of_nat_diff_32 [of d "160 * i"] by simp
  have src: "videoram + of_nat (160 * (i + 1)) + (videoram + of_nat d - (videoram + of_nat (160 * i))) = videoram + of_nat (d + 160)"
    by (simp add: algebra_simps)
  have "unat (160 :: u32) = 160" by simp
  moreover have "(if 160 * i \<le> d then d - 160 * i else 2 ^ 32 + d - 160 * i) < 160 \<longleftrightarrow> 160 * i \<le> d \<and> d < 160 * (i + 1)"
    using assms by auto
  ultimately show ?thesis unfolding copy dist src by presburger
qed

text \<open>The two loops of a scroll.\<close>

declare scroll_rows.simps [simp del] lower_row.simps [simp del]

lemma row_address: "videoram + ucast (i :: u16) * XSIZE * 2 = videoram + of_nat (160 * unat i)"
  "videoram + (ucast i + 1) * XSIZE * 2 = videoram + of_nat (160 * (unat i + 1))"
proof -
  have "(ucast i :: u32) = of_nat (unat i)" by (simp add: unsigned_of_nat)
  then show "videoram + ucast (i :: u16) * XSIZE * 2 = videoram + of_nat (160 * unat i)"
    "videoram + (ucast i + 1) * XSIZE * 2 = videoram + of_nat (160 * (unat i + 1))" by simp_all
qed

lemma lower_row_24: "lower_row y = (if y > 24 then 24 else y)"
proof (induction y rule: lower_row.induct)
  case (1 y)
  show ?case
  proof (cases "24 < y")
    case True
    then have "24 < unat y" "y \<noteq> 0" by (auto simp: word_less_nat_alt)
    moreover from this have "unat (y - 1) = unat y - 1" by (simp add: unat_minus_one)
    ultimately have "24 < y - 1 \<or> y - 1 = 24" by (auto simp: word_less_nat_alt word_unat_eq_iff)
    with 1 True show ?thesis by (subst lower_row.simps) auto
  qed (simp add: lower_row.simps)
qed

lemma scroll_rows_scr:
  "unat i + k = 24 \<Longrightarrow> snd (scroll_rows i m) = 24 \<and> (\<forall>d < 2 ^ 32. fst (scroll_rows i m) (videoram + of_nat d) =
      (if 160 * unat i \<le> d \<and> d < 160 * 24 then m (videoram + of_nat (d + 160)) else m (videoram + of_nat d)))"
proof (induction k arbitrary: i m)
  case 0
  then have "unat i = unat (24 :: u16)" by simp
  then have "i = 24" by (simp only: word_unat_eq_iff)
  then show ?case by (auto simp: scroll_rows.simps)
next
  case (Suc k)
  let ?m = "memcpy m (videoram + of_nat (160 * unat i)) (videoram + of_nat (160 * (unat i + 1))) 160"
  have i: "i < 24" "unat (i + 1) = unat i + 1" using Suc.prems by (simp_all add: word_less_nat_alt unat_word_ariths)
  then have step: "scroll_rows i m = scroll_rows (i + 1) ?m"
    by (subst scroll_rows.simps) (simp only: row_address if_True, simp)
  have up: "?m (videoram + of_nat d) =
    (if 160 * unat i \<le> d \<and> d < 160 * (unat i + 1) then m (videoram + of_nat (d + 160)) else m (videoram + of_nat d))"
    if "d < 2 ^ 32" for d using scr_row_up [OF that, of "unat i" m] Suc.prems by simp
  have IH: "snd (scroll_rows (i + 1) ?m) = 24" "\<And>d. d < 2 ^ 32 \<Longrightarrow> fst (scroll_rows (i + 1) ?m) (videoram + of_nat d) =
      (if 160 * (unat i + 1) \<le> d \<and> d < 160 * 24 then ?m (videoram + of_nat (d + 160)) else ?m (videoram + of_nat d))"
    using Suc.IH [of "i + 1" ?m] Suc.prems i(2) by simp_all
  have "fst (scroll_rows i m) (videoram + of_nat d) =
      (if 160 * unat i \<le> d \<and> d < 160 * 24 then m (videoram + of_nat (d + 160)) else m (videoram + of_nat d))" if "d < 2 ^ 32" for d
    using IH(2) [OF that] up [OF that] up [of "d + 160"] Suc.prems that unfolding step by (auto simp del: of_nat_add of_nat_mult)
  then show ?case using IH(1) step by simp
qed

text \<open>The bytes of the screen after a scroll.\<close>

lemma kcheck_scroll_scr:
  assumes "unat (con_scroll_offset s) \<le> 24" "d < 2 ^ 32" "cur_y_pos s > 24"
  shows "scr (kcheck_scroll s) d =
    (if 160 * unat (con_scroll_offset s) \<le> d \<and> d < 3840 then scr s (d + 160)
     else if 3840 \<le> d \<and> d < 4000 then 0 else scr s d)"
proof -
  let ?i = "con_scroll_offset s"
  have r: "snd (scroll_rows ?i (con_mem s)) = 24" "fst (scroll_rows ?i (con_mem s)) (videoram + of_nat d) =
      (if 160 * unat ?i \<le> d \<and> d < 160 * 24 then con_mem s (videoram + of_nat (d + 160)) else con_mem s (videoram + of_nat d))"
    using scroll_rows_scr [of ?i "24 - unat ?i" "con_mem s"] assms(1,2) by auto
  have "videoram + ucast (24 :: u16) * XSIZE * 2 = videoram + of_nat 3840" by simp
  then have "scr (kcheck_scroll s) d = memset (fst (scroll_rows ?i (con_mem s))) (videoram + of_nat 3840) 0 (of_nat 160) (videoram + of_nat d)"
    using assms(3) r(1) by (simp add: kcheck_scroll_def scr_def case_prod_beta)
  also have "\<dots> = (if 3840 \<le> d \<and> d < 3840 + 160 then 0 else fst (scroll_rows ?i (con_mem s)) (videoram + of_nat d))"
    by (rule scr_memset) (use assms(2) in simp_all)
  finally show ?thesis unfolding r(2) scr_def by simp
qed

lemma kcheck_scroll_simps [simp]:
  "cur_x_pos (kcheck_scroll s) = cur_x_pos s" "cur_y_pos (kcheck_scroll s) = (if cur_y_pos s > 24 then 24 else cur_y_pos s)"
  "color (kcheck_scroll s) = color s" "con_scroll_offset (kcheck_scroll s) = con_scroll_offset s"
  "cur_y_pos s \<le> 24 \<Longrightarrow> kcheck_scroll s = s"
  by (auto simp: kcheck_scroll_def case_prod_beta lower_row_24)

lemma move_cursor_simps [simp]:
  "cur_x_pos (move_cursor s) = cur_x_pos s" "cur_y_pos (move_cursor s) = cur_y_pos s" "color (move_cursor s) = color s"
  "con_scroll_offset (move_cursor s) = con_scroll_offset s" "con_mem (move_cursor s) = con_mem s" "scr (move_cursor s) = scr s"
  by (simp_all add: move_cursor_def Let_def scr_def fun_eq_iff)

text \<open>
  A line feed in the last row scrolls: each row below the fixed rows at the top shows what the next one showed, the
  last row is blank, the fixed rows and the memory beyond the screen are untouched, and the cursor is at the start of the
  last row.
\<close>

theorem newline_scrolls:
  assumes "unat (con_scroll_offset s) \<le> 24" "cur_y_pos s = 24"
  shows "cur_x_pos (kputchar 10 s) = 0 \<and> cur_y_pos (kputchar 10 s) = 24 \<and>
    (\<forall>row col. row < 25 \<and> col < 160 \<longrightarrow> scr (kputchar 10 s) (160 * row + col) =
      (if row < unat (con_scroll_offset s) then scr s (160 * row + col)
       else if row < 24 then scr s (160 * (row + 1) + col) else 0)) \<and>
    (\<forall>d. 4000 \<le> d \<and> d < 2 ^ 32 \<longrightarrow> scr (kputchar 10 s) d = scr s d)"
proof -
  let ?t = "move_cursor (s\<lparr>cur_y_pos := cur_y_pos s + 1, cur_x_pos := 0\<rparr>)"
  have k: "kputchar 10 s = kcheck_scroll ?t" by (simp add: kputchar_def Let_def)
  have b: "scr (kcheck_scroll ?t) d = (if 160 * unat (con_scroll_offset s) \<le> d \<and> d < 3840 then scr s (d + 160)
     else if 3840 \<le> d \<and> d < 4000 then 0 else scr s d)" if "d < 2 ^ 32" for d
    using kcheck_scroll_scr [of ?t d] assms that by (simp add: scr_def)
  have "scr (kcheck_scroll ?t) (160 * row + col) =
      (if row < unat (con_scroll_offset s) then scr s (160 * row + col)
       else if row < 24 then scr s (160 * (row + 1) + col) else 0)" if "row < 25" "col < 160" for row col
  proof -
    have "160 * unat (con_scroll_offset s) \<le> 160 * row + col \<longleftrightarrow> unat (con_scroll_offset s) \<le> row" using that by linarith
    moreover have "160 * row + col < 3840 \<longleftrightarrow> row < 24" "160 * row + col < 4000" using that by linarith+
    ultimately show ?thesis using b [of "160 * row + col"] assms(1) that by (auto simp: algebra_simps)
  qed
  moreover have "scr (kcheck_scroll ?t) d = scr s d" if "4000 \<le> d" "d < 2 ^ 32" for d using b [OF that(2)] that(1) by simp
  ultimately show ?thesis unfolding k using assms(2) by simp
qed

section \<open>Characters\<close>

definition cursor :: "console \<Rightarrow> nat" where
  "cursor s = 80 * unat (cur_y_pos s) + unat (cur_x_pos s)"

definition con_ok :: "console \<Rightarrow> bool" where
  "con_ok s \<longleftrightarrow> unat (cur_x_pos s) \<le> 80 \<and> unat (cur_y_pos s) \<le> 24 \<and> unat (con_scroll_offset s) \<le> 24"

definition printable :: "u8 \<Rightarrow> bool" where
  "printable c \<longleftrightarrow> c \<ge> 0x20 \<and> c < 0x7f"

lemma cursor_addresses:
  fixes s
  defines "pos \<equiv> ucast (cur_y_pos s) * XSIZE + ucast (cur_x_pos s) :: u32"
  shows "videoram + pos * 2 = videoram + of_nat (2 * cursor s)" "videoram + (pos * 2 + 1) = videoram + of_nat (2 * cursor s + 1)"
    "videoram + (pos * 2 + 3) = videoram + of_nat (2 * cursor s + 3)"
proof -
  have "(ucast (x :: u16) :: u32) = of_nat (unat x)" for x by (simp add: unsigned_of_nat)
  then have "pos = of_nat (cursor s)" by (simp add: pos_def cursor_def)
  then show "videoram + pos * 2 = videoram + of_nat (2 * cursor s)" "videoram + (pos * 2 + 1) = videoram + of_nat (2 * cursor s + 1)"
    "videoram + (pos * 2 + 3) = videoram + of_nat (2 * cursor s + 3)" by simp_all
qed

text \<open>What a printable character does before the check for a scroll, \<open>t\<close> being the state then.\<close>

lemma kputchar_printable:
  assumes "printable c"
  shows "\<exists>t. kputchar c s = kcheck_scroll t \<and> con_scroll_offset t = con_scroll_offset s \<and> color t = color s \<and>
    cur_x_pos t = (if cur_x_pos s + 1 > 80 then 0 else cur_x_pos s + 1) \<and>
    cur_y_pos t = (if cur_x_pos s + 1 > 80 then cur_y_pos s + 1 else cur_y_pos s) \<and>
    (\<forall>d < 2 ^ 32. scr t d = (if d = 2 * cursor s then c else if d = 2 * cursor s + 1 \<or> d = 2 * cursor s + 3 then ucast (color s) else scr s d))"
proof -
  have "unat (cur_x_pos s) < 2 ^ 16" "unat (cur_y_pos s) < 2 ^ 16" using unsigned_less [of "cur_x_pos s", where ?'a = nat]
    unsigned_less [of "cur_y_pos s", where ?'a = nat] by simp_all
  then have "2 * cursor s + 3 < 2 ^ 32" by (simp add: cursor_def)
  define m where "m = (con_mem s)(videoram + of_nat (2 * cursor s) := c, videoram + of_nat (2 * cursor s + 1) := ucast (color s),
      videoram + of_nat (2 * cursor s + 3) := ucast (color s))"
  have m: "m (videoram + of_nat d) =
    (if d = 2 * cursor s then c else if d = 2 * cursor s + 1 \<or> d = 2 * cursor s + 3 then ucast (color s) else scr s d)" if "d < 2 ^ 32" for d
    using \<open>2 * cursor s + 3 < 2 ^ 32\<close> that
      offset_eq_iff [OF that, of "2 * cursor s"] offset_eq_iff [OF that, of "2 * cursor s + 1"] offset_eq_iff [OF that, of "2 * cursor s + 3"]
    unfolding m_def fun_upd_apply scr_def by auto
  let ?t = "move_cursor (if cur_x_pos s + 1 > 80 then s\<lparr>con_mem := m, cur_y_pos := cur_y_pos s + 1, cur_x_pos := 0\<rparr>
    else s\<lparr>con_mem := m, cur_x_pos := cur_x_pos s + 1\<rparr>)"
  have "kputchar c s = kcheck_scroll ?t"
    using assms unfolding kputchar_def printable_def Let_def cursor_addresses m_def [symmetric] by simp
  moreover have "con_mem ?t = m" by simp
  ultimately show ?thesis using m by (intro exI [of _ ?t]) (simp add: scr_def)
qed

lemma kputchar_other:
  assumes "\<not> printable c" "c \<noteq> 8" "c \<noteq> 9"
  shows "\<exists>t. kputchar c s = kcheck_scroll t \<and> con_scroll_offset t = con_scroll_offset s \<and> scr t = scr s \<and>
    (cur_x_pos t = 0 \<and> cur_y_pos t = cur_y_pos s + 1 \<or> cur_x_pos t \<in> {0, cur_x_pos s} \<and> cur_y_pos t = cur_y_pos s)"
proof -
  let ?t = "move_cursor (if c = 10 then s\<lparr>cur_y_pos := cur_y_pos s + 1, cur_x_pos := 0\<rparr> else if c = 13 then s\<lparr>cur_x_pos := 0\<rparr>
    else if c \<ge> 0x10 \<and> c \<le> 0x1f then set_color (c - 0x10) s else s)"
  have "(c \<ge> 0x20 \<and> c < 0x7f) = False" using assms(1) by (simp add: printable_def)
  then have "kputchar c s = kcheck_scroll ?t"
    using assms(2,3) unfolding kputchar_def Let_def by (simp only: if_False simp_thms)
  then show ?thesis by (intro exI [of _ ?t]) (auto simp: set_color_def scr_def fun_eq_iff)
qed

lemma kcheck_scroll_beyond:
  assumes "unat (con_scroll_offset s) \<le> 24" "4000 \<le> d" "d < 2 ^ 32"
  shows "scr (kcheck_scroll s) d = scr s d"
  using assms kcheck_scroll_scr [of s d] by (cases "cur_y_pos s > 24") (auto simp: not_less)

lemma kputchar_ok:
  assumes "con_ok s" "c \<noteq> 8" "c \<noteq> 9"
  shows "con_ok (kputchar c s)" and "4004 \<le> d \<Longrightarrow> d < 2 ^ 32 \<Longrightarrow> scr (kputchar c s) d = scr s d"
proof -
  have x: "unat (cur_x_pos s) \<le> 80" "unat (cur_x_pos s + 1) = unat (cur_x_pos s) + 1" and o: "unat (con_scroll_offset s) \<le> 24"
    using assms(1) by (auto simp: con_ok_def unat_word_ariths)
  have c: "cursor s \<le> 2000" using assms(1) by (simp add: con_ok_def cursor_def)
  show "con_ok (kputchar c s)"
  proof (cases "printable c")
    case True
    from kputchar_printable [OF this, of s] show ?thesis
      using assms(1) x by (auto simp: con_ok_def word_less_nat_alt word_le_nat_alt split: if_splits)
  next
    case False
    from kputchar_other [OF this assms(2,3), of s] show ?thesis
      using assms(1) by (auto simp: con_ok_def word_less_nat_alt)
  qed
  show "scr (kputchar c s) d = scr s d" if d: "4004 \<le> d" "d < 2 ^ 32"
  proof (cases "printable c")
    case True
    from kputchar_printable [OF this, of s] obtain t where t: "kputchar c s = kcheck_scroll t"
      "con_scroll_offset t = con_scroll_offset s" "scr t d = (if d = 2 * cursor s then c
        else if d = 2 * cursor s + 1 \<or> d = 2 * cursor s + 3 then ucast (color s) else scr s d)"
      using d(2) by blast
    then show ?thesis using o c d kcheck_scroll_beyond [of t d] by simp
  next
    case False
    from kputchar_other [OF this assms(2,3), of s] obtain t where "kputchar c s = kcheck_scroll t"
      "con_scroll_offset t = con_scroll_offset s" "scr t = scr s" by blast
    then show ?thesis using o d kcheck_scroll_beyond [of t d] by simp
  qed
qed

text \<open>
  C25. Text without tabs and backspaces stays near the screen: whatever is printed, the cursor stays in the 25 rows and in
  the columns 0 to 80, one more than the screen has, and of the memory outside the 4000 bytes of the screen at most the four
  that follow are changed.
\<close>

theorem console_confined:
  assumes "con_ok s" "8 \<notin> set cs" "9 \<notin> set cs"
  shows "con_ok (fold kputchar cs s) \<and> (\<forall>d. 4004 \<le> d \<and> d < 2 ^ 32 \<longrightarrow> scr (fold kputchar cs s) d = scr s d)"
  using assms
proof (induction cs arbitrary: s)
  case (Cons c cs)
  then have "con_ok (kputchar c s)" using kputchar_ok(1) by simp
  with Cons show ?case using kputchar_ok(2) [of s c] by simp
qed simp

lemma kputchar_in_line:
  assumes "con_ok s" "printable c" "unat (cur_x_pos s) < 80"
  shows "cur_y_pos (kputchar c s) = cur_y_pos s" "unat (cur_x_pos (kputchar c s)) = unat (cur_x_pos s) + 1"
    "color (kputchar c s) = color s" "d < 2 ^ 32 \<Longrightarrow> scr (kputchar c s) d = (if d = 2 * cursor s then c
        else if d = 2 * cursor s + 1 \<or> d = 2 * cursor s + 3 then ucast (color s) else scr s d)"
proof -
  have x: "unat (cur_x_pos s + 1) = unat (cur_x_pos s) + 1" using assms(3) by (simp add: unat_word_ariths)
  then have "\<not> cur_x_pos s + 1 > 80" using assms(3) by (simp add: word_less_nat_alt)
  with kputchar_printable [OF assms(2), of s] obtain t where t: "kputchar c s = kcheck_scroll t" "color t = color s"
    "cur_x_pos t = cur_x_pos s + 1" "cur_y_pos t = cur_y_pos s" "\<forall>d < 2 ^ 32. scr t d = (if d = 2 * cursor s then c
        else if d = 2 * cursor s + 1 \<or> d = 2 * cursor s + 3 then ucast (color s) else scr s d)" by auto
  moreover have "cur_y_pos t \<le> 24" using t(4) assms(1) by (simp add: con_ok_def word_le_nat_alt)
  ultimately show "cur_y_pos (kputchar c s) = cur_y_pos s" "unat (cur_x_pos (kputchar c s)) = unat (cur_x_pos s) + 1"
    "color (kputchar c s) = color s" "d < 2 ^ 32 \<Longrightarrow> scr (kputchar c s) d = (if d = 2 * cursor s then c
        else if d = 2 * cursor s + 1 \<or> d = 2 * cursor s + 3 then ucast (color s) else scr s d)"
    using x by simp_all
qed

lemma printable_not_control: "printable c \<Longrightarrow> c \<noteq> 8" "printable c \<Longrightarrow> c \<noteq> 9" "printable c \<Longrightarrow> c \<noteq> 0"
  by (auto simp: printable_def)

definition shows_line :: "u8 list \<Rightarrow> console \<Rightarrow> console \<Rightarrow> bool" where
  "shows_line cs s s' \<longleftrightarrow> cur_y_pos s' = cur_y_pos s \<and> unat (cur_x_pos s') = unat (cur_x_pos s) + length cs \<and> color s' = color s \<and> con_ok s' \<and>
    (\<forall>k<length cs. scr s' (2 * (cursor s + k)) = cs ! k \<and> scr s' (2 * (cursor s + k) + 1) = ucast (color s)) \<and>
    (\<forall>d < 2 ^ 32. (d < 2 * cursor s \<or> 2 * (cursor s + length cs) \<le> d) \<and> d \<noteq> 2 * (cursor s + length cs) + 1 \<longrightarrow> scr s' d = scr s d)"

lemma fold_kputchar_line:
  "con_ok s \<Longrightarrow> \<forall>c\<in>set cs. printable c \<Longrightarrow> unat (cur_x_pos s) + length cs \<le> 80 \<Longrightarrow> shows_line cs s (fold kputchar cs s)"
proof (induction cs rule: rev_induct)
  case (snoc c cs)
  let ?s = "fold kputchar cs s"
  have IH: "shows_line cs s ?s" and c: "printable c" using snoc by simp_all
  then have s: "con_ok ?s" "unat (cur_x_pos ?s) < 80" "cursor ?s = cursor s + length cs" "cursor s + length cs < 2000"
    using snoc.prems by (auto simp: shows_line_def cursor_def con_ok_def)
  note p = kputchar_in_line [OF s(1) c s(2)]
  have "con_ok (kputchar c ?s)" using kputchar_ok(1) [OF s(1)] printable_not_control [OF c] by simp
  moreover have "scr (kputchar c ?s) (2 * (cursor s + k)) = (cs @ [c]) ! k \<and> scr (kputchar c ?s) (2 * (cursor s + k) + 1) = ucast (color s)"
    if "k < Suc (length cs)" for k
    using that s(3,4) IH p(4) [of "2 * (cursor s + k)"] p(4) [of "2 * (cursor s + k) + 1"]
    by (cases "k = length cs") (auto simp: shows_line_def nth_append)
  moreover have "scr (kputchar c ?s) d = scr s d"
    if "d < 2 ^ 32" "d < 2 * cursor s \<or> 2 * (cursor s + Suc (length cs)) \<le> d" "d \<noteq> 2 * (cursor s + Suc (length cs)) + 1" for d
  proof -
    have "d \<noteq> 2 * (cursor s + length cs)" "d \<noteq> 2 * (cursor s + length cs) + 1" "d \<noteq> 2 * (cursor s + length cs) + 3"
      "d < 2 * cursor s \<or> 2 * (cursor s + length cs) \<le> d" using that(2,3) by auto
    then show ?thesis using IH p(4) [OF that(1)] that(1) s(3) by (simp add: shows_line_def)
  qed
  ultimately show ?case using IH p(1-3) by (simp add: shows_line_def)
qed (simp add: shows_line_def)

text \<open>
  C34. A line that fits is shown as it is: printing characters from column \<open>x\<close> on that end at most at column 80 puts
  each into its cell in the current colour, advances the cursor and changes no other byte but the colour byte of the cell
  behind the last character.
\<close>

theorem console_shows_line:
  assumes "con_ok s" "\<forall>c\<in>set cs. printable c" "unat (cur_x_pos s) + length cs \<le> 80"
  shows "cur_y_pos (fold kputchar cs s) = cur_y_pos s \<and> unat (cur_x_pos (fold kputchar cs s)) = unat (cur_x_pos s) + length cs \<and>
    (\<forall>k<length cs. scr (fold kputchar cs s) (2 * (cursor s + k)) = cs ! k \<and> scr (fold kputchar cs s) (2 * (cursor s + k) + 1) = ucast (color s)) \<and>
    (\<forall>d < 2 ^ 32. (d < 2 * cursor s \<or> 2 * (cursor s + length cs) \<le> d) \<and> d \<noteq> 2 * (cursor s + length cs) + 1 \<longrightarrow>
       scr (fold kputchar cs s) d = scr s d)"
  using fold_kputchar_line [OF assms] unfolding shows_line_def by blast

text \<open>Strings outside the window of the console survive printing.\<close>

definition off_screen :: "u32 \<Rightarrow> nat \<Rightarrow> bool" where
  "off_screen p n \<longleftrightarrow> (\<forall>k\<le>n. 4004 \<le> unat (p + of_nat k - videoram))"

lemma kputchar_mem:
  assumes "con_ok s" "c \<noteq> 8" "c \<noteq> 9" "4004 \<le> unat (a - videoram)"
  shows "con_mem (kputchar c s) a = con_mem s a"
  using kputchar_ok(2) [OF assms unat_u32_less] by (simp add: scr_def)

lemma kputchar_cstr:
  assumes "con_ok s" "c \<noteq> 8" "c \<noteq> 9" "off_screen p (length str)" "cstr (con_mem s) p str"
  shows "cstr (con_mem (kputchar c s)) p str"
  using assms(4,5) kputchar_mem [OF assms(1-3)] unfolding cstr_iff off_screen_def by simp

lemma kputs_loop_prints:
  "con_ok s \<Longrightarrow> cstr (con_mem s) p str \<Longrightarrow> off_screen p (length str) \<Longrightarrow> length str < 2 ^ 16 \<Longrightarrow>
    8 \<notin> set str \<Longrightarrow> 9 \<notin> set str \<Longrightarrow> k + j = length str \<Longrightarrow>
    kputs_loop p (of_nat k) s = Some (fold kputchar (drop k str) s)"
proof (induction j arbitrary: k s)
  case 0
  have "(ucast (of_nat k :: u16) :: u32) = of_nat k" using 0 by (simp add: unsigned_of_nat take_bit_nat_eq_self)
  with 0 show ?case by (subst kputs_loop.simps) (simp add: strlen_cstr)
next
  case (Suc j)
  have k: "k < length str" "k < 2 ^ 16" using Suc.prems by simp_all
  have u: "(ucast (of_nat k :: u16) :: u32) = of_nat k" using k by (simp add: unsigned_of_nat take_bit_nat_eq_self)
  have l: "of_nat k < (of_nat (length str) :: u32)" using k Suc.prems(4) by (simp add: word_less_nat_alt)
  have c: "con_mem s (p + of_nat k) = str ! k" "str ! k \<noteq> 8" "str ! k \<noteq> 9"
    using cstr_nth [OF Suc.prems(2) k(1)] Suc.prems(5,6) nth_mem [OF k(1)] by auto
  have "kputs_loop p (of_nat (Suc k)) (kputchar (str ! k) s) = Some (fold kputchar (drop (Suc k) str) (kputchar (str ! k) s))"
    using Suc.IH [of "kputchar (str ! k) s" "Suc k"] kputchar_ok(1) [OF Suc.prems(1) c(2,3)]
      kputchar_cstr [OF Suc.prems(1) c(2,3) Suc.prems(3,2)] Suc.prems(3-7) by simp
  then show ?case
    using l by (subst kputs_loop.simps) (simp add: strlen_cstr [OF Suc.prems(2)] u c(1) Cons_nth_drop_Suc [OF k(1), symmetric] add.commute)
qed

text \<open>
  \<open>kputs\<close> ends and prints exactly the characters of its string, for every string shorter than \<open>2 ^ 16\<close> that has no
  tabs and backspaces and does not lie in the video memory.
\<close>

theorem kputs_prints:
  assumes "con_ok s" "cstr (con_mem s) p str" "off_screen p (length str)" "length str < 2 ^ 16" "8 \<notin> set str" "9 \<notin> set str"
  shows "kputs p s = Some (fold kputchar str s)"
  using kputs_loop_prints [OF assms, of 0 "length str"] by (simp add: kputs_def)

text \<open>
  A backspace in the first column leaves the screen: the cursor goes to column 65535, and the next character is written
  131070 bytes behind the row, outside the video memory.
\<close>

theorem backspace_leaves_screen:
  assumes "cur_x_pos s = 0" "unat (cur_y_pos s) \<le> 24" "printable c"
  shows "cur_x_pos (kputchar 8 s) = 65535 \<and>
    scr (kputchar c (kputchar 8 s)) (160 * unat (cur_y_pos s) + 131070) = c \<and>
    cur_x_pos (kputchar c (kputchar 8 s)) = 0 \<and> cur_y_pos (kputchar c (kputchar 8 s)) = cur_y_pos s"
proof -
  let ?s = "kputchar 8 s"
  have y: "cur_y_pos s \<le> 24" using assms(2) by (simp add: word_le_nat_alt)
  then have s: "cur_x_pos ?s = 65535" "cur_y_pos ?s = cur_y_pos s"
    using assms(1) by (simp_all add: kputchar_def Let_def)
  have c: "2 * cursor ?s = 160 * unat (cur_y_pos s) + 131070" by (simp add: cursor_def s)
  have w: "(65535 :: u16) + 1 = 0" by simp
  from kputchar_printable [OF assms(3), of ?s] obtain t where t: "kputchar c ?s = kcheck_scroll t" "cur_x_pos t = 0" "cur_y_pos t = cur_y_pos s"
    "scr t (2 * cursor ?s) = c" using c assms(2) unfolding s w by auto
  then have "kputchar c ?s = t" using y by simp
  then show ?thesis using t s(1) c by simp
qed

section \<open>Instances\<close>

definition demo_con :: console where
  "demo_con = \<lparr>con_mem = (\<lambda>a. if a = 0x1000 then 72 else if a = 0x1001 then 105 else 0), cur_x_pos = 0, cur_y_pos = 24, color = 15,
     con_scroll_offset = 0, con_ports = []\<rparr>"

theorem newline_scrolls_witness:
  "cur_y_pos (kputchar 10 demo_con) = 24 \<and> scr (kputchar 10 demo_con) (160 * 24 + 5) = 0"
proof -
  have d: "unat (con_scroll_offset demo_con) = 0" "cur_y_pos demo_con = 24" by (simp_all add: demo_con_def)
  then have "\<forall>row col. row < 25 \<and> col < 160 \<longrightarrow> scr (kputchar 10 demo_con) (160 * row + col) =
      (if row < 0 then scr demo_con (160 * row + col) else if row < 24 then scr demo_con (160 * (row + 1) + col) else 0)"
    and "cur_y_pos (kputchar 10 demo_con) = 24"
    using newline_scrolls [of demo_con] by simp_all
  from this(1) [rule_format, of 24 5] this(2) show ?thesis by simp
qed

theorem console_confined_witness: "con_ok (fold kputchar [72, 105, 10] demo_con)"
  using console_confined [of demo_con "[72, 105, 10]"] by (simp add: demo_con_def con_ok_def)

theorem console_shows_line_witness:
  "scr (fold kputchar [72, 105] demo_con) (2 * (1920 + 1)) = 105 \<and> unat (cur_x_pos (fold kputchar [72, 105] demo_con)) = 2"
proof -
  have "cursor demo_con = 1920" "con_ok demo_con" "unat (cur_x_pos demo_con) = 0" by (simp_all add: cursor_def demo_con_def con_ok_def)
  then have "\<forall>k<length [72, 105 :: u8]. scr (fold kputchar [72, 105] demo_con) (2 * (1920 + k)) = [72, 105] ! k \<and>
      scr (fold kputchar [72, 105] demo_con) (2 * (1920 + k) + 1) = ucast (color demo_con)"
    and "unat (cur_x_pos (fold kputchar [72, 105] demo_con)) = 2"
    using console_shows_line [of demo_con "[72, 105]"] by (simp_all add: printable_def)
  from this(1) [rule_format, of 1] this(2) show ?thesis by simp
qed

theorem kputs_prints_witness: "kputs 0x1000 demo_con = Some (fold kputchar [72, 105] demo_con)"
proof (rule kputs_prints)
  have "k = 0 \<or> k = 1 \<or> k = 2" if "k \<le> length [72, 105 :: u8]" for k using that by auto
  then show "off_screen 0x1000 (length [72, 105 :: u8])" by (fastforce simp: off_screen_def)
qed (simp_all add: demo_con_def con_ok_def)

theorem backspace_leaves_screen_witness: "scr (kputchar 65 (kputchar 8 demo_con)) (160 * 24 + 131070) = 65"
  using backspace_leaves_screen [of demo_con 65] by (simp add: demo_con_def printable_def)

end
