(* ===== verification/User_Alloc.thy ===== *)
theory User_Alloc
  imports Signal Bytes
begin

text \<open>
  The heap of user programs, \<open>user/lib/alloc.c\<close>: a region that is to begin at the break of the process and to double by
  \<open>sbrk\<close>, searched by halving. A block starts with a word that is \<open>MAGIC\<close> while the block is in use.

  The stub \<open>sbrk\<close> of the programs has number 26, which in the table of the kernel is \<open>signal\<close> (\<open>Syscall\<close>): the break never moves.
  The number of bytes arrives as the number of a signal and the second argument, which the stub does not set, is what the
  compiled code left in \<open>ecx\<close>; \<open>signal\<close> registers it as a handler and returns it, and the heap begins there. The state is that
  of the library, the memory, the kernel's task state and the values that \<open>ecx\<close> will have at the calls to come. A program that
  may not access the heap is ended by the page fault (\<open>Interrupts\<close>); here every address can be accessed.
\<close>

abbreviation MAGIC :: u32 where "MAGIC \<equiv> 0xdeadbabe"
abbreviation FREED :: u32 where "FREED \<equiv> 0xfee1dead"

record uproc =
  h_size :: u32
  h_pos :: u32
  t_size :: u32
  u_mem :: mem
  u_sched :: sched
  u_ecx :: "nat \<Rightarrow> u32"

section \<open>Operations\<close>

definition user_sbrk :: "u32 \<Rightarrow> uproc \<Rightarrow> uproc \<times> u32" where
  "user_sbrk inc s =
    (let (t, r) = signal inc (u_ecx s 0) (u_sched s) in (s\<lparr>u_sched := t, u_ecx := \<lambda>n. u_ecx s (Suc n)\<rparr>, r))"

definition resize :: "uproc \<Rightarrow> uproc" where
  "resize s =
    (let s1 = (if h_pos s = 0 then let (s0, r) = user_sbrk 0 s in s0\<lparr>h_pos := r\<rparr> else s)
     in if h_size s1 \<noteq> 0 then (fst (user_sbrk (h_size s1) s1))\<lparr>h_size := h_size s1 * 2\<rparr>
        else (fst (user_sbrk 8 s1))\<lparr>h_size := 8\<rparr>)"

lemma half_less_u32: "\<not> (ns :: u32) div 2 < 4 \<Longrightarrow> unat (ns div 2) < unat ns"
  by (simp add: word_less_nat_alt unat_div_distrib)

function find_free :: "mem \<Rightarrow> u32 \<Rightarrow> u32 \<Rightarrow> u32 \<Rightarrow> mem \<times> u32" where
  "find_free m node node_size len =
    (if node_size div 2 < 4 \<or> (load32 m (node + node_size div 2) = MAGIC \<and> load32 m node = MAGIC) then (m, 0)
     else
       let s = node_size div 2; temp = node + s;
           (m1, ret) =
             (if len < s div 2
              then case find_free m temp s len of (m1, r1) \<Rightarrow> if r1 \<noteq> 0 then (m1, r1) else find_free m1 node s len
              else (m, 0))
       in if ret \<noteq> 0 then (m1, ret)
          else if load32 m1 temp \<noteq> MAGIC then (store32 m1 temp MAGIC, temp + 4)
          else if load32 m1 node \<noteq> MAGIC then (store32 m1 node MAGIC, node + 4)
          else (m1, 0))"
  by pat_completeness auto
termination
  by (relation "measure (\<lambda>(m, node, ns, sz). unat ns)") (auto simp: half_less_u32)

partial_function (option) grow_to :: "u32 \<Rightarrow> uproc \<Rightarrow> uproc option" where
  "grow_to need s = (if need > h_size s div 2 then grow_to need (resize s) else Some s)"

partial_function (option) find_or_grow :: "u32 \<Rightarrow> uproc \<Rightarrow> (uproc \<times> u32) option" where
  "find_or_grow need s =
    (let (m, ret) = find_free (u_mem s) (h_pos s) (h_size s) need; s1 = s\<lparr>u_mem := m\<rparr>
     in if ret = 0 then find_or_grow need (resize s1) else Some (s1, ret))"

definition malloc :: "u32 \<Rightarrow> uproc \<Rightarrow> (uproc \<times> u32) option" where
  "malloc len s =
    (case grow_to (len + 4) (s\<lparr>t_size := t_size s + (len + 8)\<rparr>) of None \<Rightarrow> None
     | Some s1 \<Rightarrow> find_or_grow (len + 4) s1)"

text \<open>The state and whether the program is ended by \<open>exit( 1 )\<close>; the warning is not modelled.\<close>

definition free :: "u32 \<Rightarrow> uproc \<Rightarrow> uproc \<times> bool" where
  "free ptr s =
    (let p = ptr - 4
     in if load32 (u_mem s) p = MAGIC then (s\<lparr>u_mem := store32 (u_mem s) p FREED\<rparr>, False) else (s, True))"

declare find_free.simps [simp del]

section \<open>The search\<close>

definition found :: "mem \<Rightarrow> u32 \<Rightarrow> u32 \<Rightarrow> u32 \<Rightarrow> u32 \<Rightarrow> bool" where
  "found m node ns len a \<longleftrightarrow> load32 m a \<noteq> MAGIC \<and> unat node \<le> unat a \<and> unat a + 4 \<le> unat node + unat ns \<and>
     (unat len \<le> unat ns div 2 \<longrightarrow> unat a + unat len \<le> unat node + unat ns)"

lemma found_nonzero: "found m node ns len a \<Longrightarrow> unat node + unat ns < 2 ^ 32 \<Longrightarrow> a + 4 \<noteq> 0"
proof -
  assume a: "found m node ns len a" "unat node + unat ns < 2 ^ 32"
  then have "unat (a + 4) = unat a + 4" by (simp add: found_def unat_word_ariths)
  then show ?thesis by (metis add_is_0 unsigned_0 zero_neq_numeral)
qed

lemma halves:
  assumes "unat (node :: u32) + unat ns < 2 ^ 32"
  shows "unat (ns div 2) = unat ns div 2" "unat (node + ns div 2) = unat node + unat ns div 2"
proof -
  show n: "unat (ns div 2) = unat ns div 2" by (simp add: unat_div_distrib)
  then show "unat (node + ns div 2) = unat node + unat ns div 2" using assms by (simp add: unat_add_lem [THEN iffD1])
qed

lemma find_free_spec:
  "unat node + unat ns < 2 ^ 32 \<Longrightarrow>
    find_free m node ns len = (m, 0) \<or> (\<exists>a. found m node ns len a \<and> find_free m node ns len = (store32 m a MAGIC, a + 4))"
proof (induction m node ns len rule: find_free.induct)
  case (1 m node ns len)
  let ?s = "ns div 2" and ?t = "node + ns div 2"
  note h = halves [OF "1.prems"]
  show ?case
  proof (cases "?s < 4 \<or> (load32 m ?t = MAGIC \<and> load32 m node = MAGIC)")
    case True
    then show ?thesis by (subst find_free.simps) simp
  next
    case False
    then have s4: "4 \<le> unat ns div 2" using h(1) by (simp add: word_less_nat_alt not_less)
    have up: "found m node ns len a" if "found m ?t ?s len a" "len < ?s div 2" for a
      using that h s4 by (auto simp: found_def word_less_nat_alt unat_div_distrib)
    have dn: "found m node ns len a" if "found m node ?s len a" "len < ?s div 2" for a
      using that h s4 by (auto simp: found_def word_less_nat_alt unat_div_distrib)
    have here: "found m node ns len ?t" if "load32 m ?t \<noteq> MAGIC" using that h s4 by (auto simp: found_def)
    have head: "found m node ns len node" if "load32 m node \<noteq> MAGIC" using that s4 by (auto simp: found_def)
    have IH1: "find_free m ?t ?s len = (m, 0) \<or> (\<exists>a. found m ?t ?s len a \<and> find_free m ?t ?s len = (store32 m a MAGIC, a + 4))"
      if "len < ?s div 2" using "1.IH"(1) [OF False refl refl that] h "1.prems" by simp
    have IH2: "find_free m node ?s len = (m, 0) \<or> (\<exists>a. found m node ?s len a \<and> find_free m node ?s len = (store32 m a MAGIC, a + 4))"
      if "len < ?s div 2" "find_free m ?t ?s len = (m, 0)"
      using "1.IH"(2) [OF False refl refl that(1) that(2) [symmetric]] h "1.prems" by simp
    note nz = found_nonzero [OF _ "1.prems"]
    show ?thesis
    proof (cases "len < ?s div 2")
      case small: True
      from IH1 [OF small] consider "find_free m ?t ?s len = (m, 0)"
        | a where "found m ?t ?s len a" "find_free m ?t ?s len = (store32 m a MAGIC, a + 4)" by blast
      then show ?thesis
      proof cases
        case 1
        from IH2 [OF small 1] consider "find_free m node ?s len = (m, 0)"
          | a where "found m node ?s len a" "find_free m node ?s len = (store32 m a MAGIC, a + 4)" by blast
        then show ?thesis
        proof cases
          case 2
          with dn [OF _ small] nz have "a + 4 \<noteq> 0" "found m node ns len a" by blast+
          then show ?thesis using False small 1 2 by (subst (1 2) find_free.simps) (auto simp: Let_def)
        qed (use False small 1 here head in \<open>subst (1 2) find_free.simps, auto simp: Let_def\<close>)
      next
        case 2
        with up [OF _ small] nz have "a + 4 \<noteq> 0" "found m node ns len a" by blast+
        then show ?thesis using False small 2 by (subst (1 2) find_free.simps) (auto simp: Let_def)
      qed
    next
      case False2: False
      then show ?thesis using False here head by (subst (1 2) find_free.simps) (auto simp: Let_def)
    qed
  qed
qed

lemma find_free_succeeds:
  assumes "unat node + unat ns < 2 ^ 32" "8 \<le> unat ns" "load32 m (node + ns div 2) \<noteq> MAGIC"
  shows "snd (find_free m node ns len) \<noteq> 0"
proof -
  let ?s = "ns div 2" and ?t = "node + ns div 2"
  note h = halves [OF assms(1)]
  have go: "\<not> (?s < 4 \<or> (load32 m ?t = MAGIC \<and> load32 m node = MAGIC))" using assms(2,3) h by (simp add: word_less_nat_alt)
  have "unat (?t + 4) = unat ?t + 4" using assms(1,2) h by (simp add: unat_word_ariths)
  then have t: "?t + 4 \<noteq> 0" by (metis add_is_0 unsigned_0 zero_neq_numeral)
  have r: "find_free m n ?s len = (m, 0) \<or> snd (find_free m n ?s len) \<noteq> 0" if "unat n + unat ?s < 2 ^ 32" for n
    using find_free_spec [OF that, of m len] found_nonzero [OF _ that] by auto
  have r2: "find_free m ?t ?s len = (m, 0) \<or> snd (find_free m ?t ?s len) \<noteq> 0"
    "find_free m node ?s len = (m, 0) \<or> snd (find_free m node ?s len) \<noteq> 0"
    using r [of ?t] r [of node] h assms(1) by simp_all
  then show ?thesis
    using go assms(3) t by (subst find_free.simps) (auto simp: Let_def split: prod.splits)
qed

section \<open>The heap of a process\<close>

text \<open>
  \<open>heap_base\<close> is where the heap begins, or will begin. \<open>heap_ready\<close>: the heap does not begin at 0, and no word behind it is
  \<open>MAGIC\<close>.
\<close>

definition heap_base :: "uproc \<Rightarrow> u32" where
  "heap_base s = (if h_size s = 0 then u_ecx s 0 else h_pos s)"

definition heap_ready :: "uproc \<Rightarrow> bool" where
  "heap_ready s \<longleftrightarrow> 4 \<le> unat (heap_base s) \<and> (if h_size s = 0 then h_pos s = 0 else 8 \<le> unat (h_size s)) \<and>
     (\<forall>a. heap_base s + h_size s \<le> a \<longrightarrow> load32 (u_mem s) a \<noteq> MAGIC)"

text \<open>What the calls of \<open>sbrk\<close> leave of the tasks: breaks and address ranges.\<close>

definition same_ranges :: "uproc \<Rightarrow> uproc \<Rightarrow> bool" where
  "same_ranges s s' \<longleftrightarrow> maps (u_sched s') = maps (u_sched s) \<and>
     (\<forall>p. t_brk (tasks (u_sched s') p) = t_brk (tasks (u_sched s) p) \<and> t_maps (tasks (u_sched s') p) = t_maps (tasks (u_sched s) p))"

lemma same_ranges_trans: "same_ranges s s1 \<Longrightarrow> same_ranges s1 s2 \<Longrightarrow> same_ranges s s2"
  by (simp add: same_ranges_def)

lemma user_sbrk_frame [simp]:
  "same_ranges s (fst (user_sbrk n s))" "h_size (fst (user_sbrk n s)) = h_size s" "h_pos (fst (user_sbrk n s)) = h_pos s"
  "u_mem (fst (user_sbrk n s)) = u_mem s" "n < 32 \<Longrightarrow> snd (user_sbrk n s) = u_ecx s 0"
  by (auto simp: user_sbrk_def signal_def same_ranges_def upd_task_def Let_def)

lemma same_ranges_simps [simp]:
  "same_ranges (s\<lparr>h_pos := p\<rparr>) s' = same_ranges s s'" "same_ranges s (s'\<lparr>h_pos := p\<rparr>) = same_ranges s s'"
  "same_ranges s (s'\<lparr>h_size := n\<rparr>) = same_ranges s s'" "same_ranges (s\<lparr>t_size := n\<rparr>) s' = same_ranges s s'"
  "same_ranges (s\<lparr>u_mem := m\<rparr>) s' = same_ranges s s'" "same_ranges s (s'\<lparr>u_mem := m\<rparr>) = same_ranges s s'" "same_ranges s s"
  by (simp_all add: same_ranges_def)

lemma resize_frame: "same_ranges s (resize s)" "u_mem (resize s) = u_mem s"
proof -
  have "same_ranges (fst (user_sbrk 0 s)) (fst (user_sbrk n ((fst (user_sbrk 0 s))\<lparr>h_pos := p\<rparr>)))" for n p
    using user_sbrk_frame(1) [of "(fst (user_sbrk 0 s))\<lparr>h_pos := p\<rparr>" n] by (simp del: user_sbrk_frame)
  then have "same_ranges s (fst (user_sbrk n ((fst (user_sbrk 0 s))\<lparr>h_pos := p\<rparr>)))" for n p
    by (rule same_ranges_trans [OF user_sbrk_frame(1)])
  then show "same_ranges s (resize s)" "u_mem (resize s) = u_mem s"
    by (simp_all add: resize_def Let_def split_beta)
qed

text \<open>The first call of \<open>resize\<close> makes two registers the handlers of the signals 0 and 8 of the program.\<close>

theorem resize_registers_handlers:
  assumes "h_pos s = 0" "h_size s = 0"
  shows "t_sighandle (tasks (u_sched (resize s)) (current_task (u_sched s))) =
      (t_sighandle (tasks (u_sched s) (current_task (u_sched s))))[0 := u_ecx s 0, 8 := u_ecx s 1]"
    "h_pos (resize s) = u_ecx s 0"
  using assms by (simp_all add: resize_def user_sbrk_def signal_def Let_def split_beta)

lemma resize_grows:
  assumes "heap_ready s" "unat (heap_base s) + 2 ^ 31 < 2 ^ 32" "unat (h_size s) \<le> 2 ^ 29"
  shows "heap_ready (resize s)" "heap_base (resize s) = heap_base s"
    "unat (h_size (resize s)) = (if h_size s = 0 then 8 else 2 * unat (h_size s))"
proof -
  have two: "unat (h_size s * 2) = 2 * unat (h_size s)" using assms(3) by (simp add: unat_word_ariths)
  have sz: "h_size (resize s) = (if h_size s = 0 then 8 else h_size s * 2)"
    by (simp add: resize_def Let_def split_beta)
  show n: "unat (h_size (resize s)) = (if h_size s = 0 then 8 else 2 * unat (h_size s))" using sz two by simp
  then have nz: "h_size (resize s) \<noteq> 0" by (auto simp: unat_eq_0 split: if_splits)
  have "h_pos s \<noteq> 0" if "h_size s \<noteq> 0" using assms(1) that by (auto simp: heap_ready_def heap_base_def)
  then have pos: "h_pos (resize s) = heap_base s"
    using assms(1) by (auto simp: resize_def heap_base_def heap_ready_def Let_def split_beta)
  then show base: "heap_base (resize s) = heap_base s" using nz by (simp add: heap_base_def)
  have "heap_base s + h_size s \<le> a" if "heap_base s + h_size (resize s) \<le> a" for a
    using that n assms(2,3) by (auto simp: word_le_nat_alt unat_add_lem [THEN iffD1] split: if_splits)
  moreover have "8 \<le> unat (h_size (resize s))" using n assms(1) by (auto simp: heap_ready_def)
  ultimately show "heap_ready (resize s)"
    using assms(1) nz base by (auto simp: heap_ready_def resize_frame(2))
qed

text \<open>The room of the address space that the largest heap considered here needs.\<close>

definition has_room :: "uproc \<Rightarrow> bool" where
  "has_room s \<longleftrightarrow> unat (heap_base s) + 2 ^ 31 < 2 ^ 32"

lemma grow_to_ends:
  assumes "heap_ready s" "has_room s" "unat (h_size s) \<le> 2 ^ 29" "4 \<le> unat need" "unat need \<le> 2 ^ 27"
  shows "\<exists>s'. grow_to need s = Some s' \<and> heap_ready s' \<and> u_mem s' = u_mem s \<and> heap_base s' = heap_base s \<and> same_ranges s s' \<and>
    unat need \<le> unat (h_size s') div 2 \<and> unat (h_size s') \<le> 2 ^ 29"
  using assms
proof (induction "2 ^ 30 - unat (h_size s)" arbitrary: s rule: less_induct)
  case less
  have h: "unat (h_size s div 2) = unat (h_size s) div 2" by (simp add: unat_div_distrib)
  show ?case
  proof (cases "need > h_size s div 2")
    case False
    then show ?thesis using less.prems h by (subst grow_to.simps) (auto simp: word_less_nat_alt)
  next
    case True
    note g = resize_grows [OF less.prems(1) less.prems(2) [unfolded has_room_def] less.prems(3)]
    have lt: "unat (h_size s) < 2 ^ 28" using True h less.prems(5) by (simp add: word_less_nat_alt)
    then have le: "unat (h_size (resize s)) \<le> 2 ^ 29" using g(3) by simp
    have "unat (h_size s) < unat (h_size (resize s))" using g(3) by (auto simp: unat_gt_0)
    then have d: "2 ^ 30 - unat (h_size (resize s)) < 2 ^ 30 - unat (h_size s)" by (rule diff_less_mono2) (use lt in simp)
    have "has_room (resize s)" using less.prems(2) g(2) by (simp add: has_room_def)
    then obtain s' where "grow_to need (resize s) = Some s'" "heap_ready s'" "u_mem s' = u_mem (resize s)"
      "heap_base s' = heap_base (resize s)" "same_ranges (resize s) s'" "unat need \<le> unat (h_size s') div 2" "unat (h_size s') \<le> 2 ^ 29"
      using less.hyps [OF d g(1) _ le less.prems(4,5)] by blast
    then show ?thesis using True g(2) resize_frame [of s] same_ranges_trans by (subst grow_to.simps) auto
  qed
qed

lemma heap_ready_store:
  assumes "heap_ready s" "h_size s \<noteq> 0" "unat (h_pos s) + unat (h_size s) < 2 ^ 32" "unat (h_pos s) \<le> unat a"
    "unat a + 4 \<le> unat (h_pos s) + unat (h_size s)"
  shows "heap_ready (s\<lparr>u_mem := store32 (u_mem s) a v\<rparr>)"
proof -
  have "load32 (store32 (u_mem s) a v) b = load32 (u_mem s) b" if "h_pos s + h_size s \<le> b" for b
  proof (rule load_store_other)
    have b: "unat a + 4 \<le> unat b" using that assms(3,5) by (simp add: word_le_nat_alt unat_add_lem [THEN iffD1])
    have "4 \<le> unat a" using assms(1,2,4) by (auto simp: heap_ready_def heap_base_def)
    moreover have "unat (b - a) = unat b - unat a" using b by (intro unat_sub) (simp add: word_le_nat_alt)
    moreover have "unat (a - b) = 2 ^ 32 + unat a - unat b"
      using unat_minus_cases [of a b] b by (auto simp: word_le_nat_alt)
    ultimately show "apart 4 a b" using b unat_u32_less [of b] unfolding apart_def by (intro conjI) linarith+
  qed
  then show ?thesis using assms(1,2) by (simp add: heap_ready_def heap_base_def)
qed

text \<open>What \<open>malloc\<close> promises: the block \<open>a\<close> in the state \<open>s'\<close> was free in \<open>s\<close>.\<close>

definition allocates :: "u32 \<Rightarrow> uproc \<Rightarrow> uproc \<Rightarrow> u32 \<Rightarrow> bool" where
  "allocates need s s' a \<longleftrightarrow> heap_ready s' \<and> heap_base s' = heap_base s \<and> same_ranges s s' \<and> load32 (u_mem s) a \<noteq> MAGIC \<and>
     u_mem s' = store32 (u_mem s) a MAGIC \<and> unat (heap_base s) \<le> unat a \<and>
     unat a + unat need \<le> unat (heap_base s') + unat (h_size s')"

lemma find_or_grow_found:
  assumes "heap_ready s" "has_room s" "unat (h_size s) \<le> 2 ^ 30" "h_size s \<noteq> 0" "unat need \<le> unat (h_size s) div 2"
    "snd (find_free (u_mem s) (h_pos s) (h_size s) need) \<noteq> 0"
  shows "\<exists>s' a. find_or_grow need s = Some (s', a + 4) \<and> allocates need s s' a"
proof -
  have sm: "unat (h_pos s) + unat (h_size s) < 2 ^ 32" using assms(2-4) by (simp add: has_room_def heap_base_def)
  obtain a where a: "find_free (u_mem s) (h_pos s) (h_size s) need = (store32 (u_mem s) a MAGIC, a + 4)" "a + 4 \<noteq> 0"
    "found (u_mem s) (h_pos s) (h_size s) need a" using find_free_spec [OF sm, of "u_mem s" need] found_nonzero [OF _ sm] assms(6) by force
  let ?s' = "s\<lparr>u_mem := store32 (u_mem s) a MAGIC\<rparr>"
  have "heap_ready ?s'" using heap_ready_store [OF assms(1,4) sm] a(3) by (simp add: found_def)
  then have "allocates need s ?s' a"
    using a(3) assms(4,5) by (simp add: allocates_def found_def heap_base_def)
  moreover have "find_or_grow need s = Some (?s', a + 4)" using a(1,2) by (subst find_or_grow.simps) (simp add: Let_def)
  ultimately show ?thesis by blast
qed

lemma find_or_grow_ends:
  assumes "heap_ready s" "has_room s" "unat (h_size s) \<le> 2 ^ 29" "h_size s \<noteq> 0" "unat need \<le> unat (h_size s) div 2"
  shows "\<exists>s' a. find_or_grow need s = Some (s', a + 4) \<and> allocates need s s' a"
proof (cases "snd (find_free (u_mem s) (h_pos s) (h_size s) need) = 0")
  case False
  then show ?thesis using find_or_grow_found [OF assms(1,2) _ assms(4,5)] assms(3) by simp
next
  case True
  let ?s1 = "resize s"
  have sm: "unat (h_pos s) + unat (h_size s) < 2 ^ 32" using assms(2-4) by (simp add: has_room_def heap_base_def)
  have f: "find_free (u_mem s) (h_pos s) (h_size s) need = (u_mem s, 0)"
    using find_free_spec [OF sm, of "u_mem s" need] found_nonzero [OF _ sm] True by auto
  note g = resize_grows [OF assms(1) assms(2) [unfolded has_room_def] assms(3)]
  have n: "unat (h_size ?s1) = 2 * unat (h_size s)" using g(3) assms(4) by simp
  have nz: "h_size ?s1 \<noteq> 0" using n assms(4) by (auto simp: unat_eq_0)
  have rm: "has_room ?s1" "unat (h_size ?s1) \<le> 2 ^ 30" using assms(2,3) g(2) n by (simp_all add: has_room_def)
  have p: "h_pos ?s1 = h_pos s" using g(2) nz assms(4) by (simp add: heap_base_def)
  have sm1: "unat (h_pos ?s1) + unat (h_size ?s1) < 2 ^ 32" using rm nz by (simp add: has_room_def heap_base_def)
  have "h_size ?s1 div 2 = h_size s" using halves(1) [OF sm1] n by (simp add: word_unat_eq_iff)
  then have "load32 (u_mem ?s1) (h_pos ?s1 + h_size ?s1 div 2) \<noteq> MAGIC"
    using assms(1,4) p by (simp add: heap_ready_def heap_base_def resize_frame(2))
  moreover have "8 \<le> unat (h_size ?s1)" using g(1) nz by (simp add: heap_ready_def)
  ultimately have "snd (find_free (u_mem ?s1) (h_pos ?s1) (h_size ?s1) need) \<noteq> 0" using find_free_succeeds [OF sm1] by simp
  moreover have "unat need \<le> unat (h_size ?s1) div 2" using assms(5) n by linarith
  ultimately obtain s' a where "find_or_grow need ?s1 = Some (s', a + 4)" "allocates need ?s1 s' a"
    using find_or_grow_found [OF g(1) rm nz] by blast
  moreover have "find_or_grow need s = find_or_grow need ?s1" using f by (subst find_or_grow.simps) (simp add: Let_def)
  ultimately show ?thesis using g(2) resize_frame [of s] same_ranges_trans by (auto simp: allocates_def)
qed

text \<open>
  \<open>malloc\<close> returns, for every request up to 128 MB, when the heap can be accessed and has no stray \<open>MAGIC\<close> behind it: its two
  loops end after finitely many calls of \<open>resize\<close>. The block lies between the start of the heap and its end by \<open>h_size\<close>, and behind
  its header there is room for the request; the header was not marked as in use before and is now, and no other word of
  memory has changed. But the program has been given no memory: no break and no address range is other than before.
\<close>

theorem malloc_returns:
  assumes "heap_ready s" "unat (heap_base s) + 2 ^ 31 < 2 ^ 32" "unat (h_size s) \<le> 2 ^ 29" "unat len + 4 \<le> 2 ^ 27"
  shows "\<exists>s' a. malloc len s = Some (s', a + 4) \<and> heap_ready s' \<and> heap_base s' = heap_base s \<and> same_ranges s s' \<and>
    load32 (u_mem s) a \<noteq> MAGIC \<and> u_mem s' = store32 (u_mem s) a MAGIC \<and> unat (heap_base s) \<le> unat a \<and>
    unat a + 4 + unat len \<le> unat (heap_base s') + unat (h_size s')"
proof -
  let ?s = "s\<lparr>t_size := t_size s + (len + 8)\<rparr>"
  have n: "unat (len + 4) = unat len + 4" using assms(4) by (simp add: unat_word_ariths)
  have r: "heap_ready ?s" "heap_base ?s = heap_base s" using assms(1) by (auto simp: heap_ready_def heap_base_def split: if_splits)
  obtain s1 where s1: "grow_to (len + 4) ?s = Some s1" "heap_ready s1" "u_mem s1 = u_mem s" "heap_base s1 = heap_base s"
    "same_ranges s s1" "unat (len + 4) \<le> unat (h_size s1) div 2" "unat (h_size s1) \<le> 2 ^ 29"
    using grow_to_ends [OF r(1), of "len + 4"] assms(2-4) n r(2) by (auto simp: has_room_def)
  have "h_size s1 \<noteq> 0" using s1(6) n by auto
  then obtain s' a where f: "find_or_grow (len + 4) s1 = Some (s', a + 4)" "allocates (len + 4) s1 s' a"
    using find_or_grow_ends [OF s1(2) _ s1(7) _ s1(6)] assms(2) s1(4) by (auto simp: has_room_def)
  have "same_ranges s s'" using s1(5) f(2) same_ranges_trans unfolding allocates_def by blast
  moreover have "unat a + 4 + unat len \<le> unat (heap_base s') + unat (h_size s')"
    using f(2) n unfolding allocates_def by (metis add.assoc add.commute)
  ultimately show ?thesis using f s1 by (intro exI [of _ s'] exI [of _ a]) (simp add: malloc_def allocates_def)
qed

text \<open>A block can be freed once: the second call ends the program.\<close>

theorem free_once:
  assumes "load32 (u_mem s) (ptr - 4) = MAGIC"
  shows "\<exists>s'. free ptr s = (s', False) \<and> load32 (u_mem s') (ptr - 4) = FREED \<and> free ptr s' = (s', True) \<and>
    (\<forall>a. 4 \<le> unat (a - (ptr - 4)) \<longrightarrow> u_mem s' a = u_mem s a)"
  using assms by (intro exI [of _ "s\<lparr>u_mem := store32 (u_mem s) (ptr - 4) FREED\<rparr>"]) (simp add: free_def Let_def store32_other)

text \<open>
  A marked header does not protect the block it heads: in a heap of 256 bytes, with 124 bytes in use from \<open>0x1084\<close> on, a
  request for 14 bytes is served at \<open>0x10f4\<close>, inside that block.
\<close>

lemma load_zero_mem: "load32 (\<lambda>_. 0) a = 0"
  by (simp add: load32_def)

theorem find_free_overlaps:
  "find_free (\<lambda>_. 0) 0x1000 256 124 = (store32 (\<lambda>_. 0) 0x1080 MAGIC, 0x1084)"
  "snd (find_free (store32 (\<lambda>_. 0) 0x1080 MAGIC) 0x1000 256 14) = 0x10f4"
proof -
  show "find_free (\<lambda>_. 0) 0x1000 256 124 = (store32 (\<lambda>_. 0) 0x1080 MAGIC, 0x1084)"
    by (subst find_free.simps) (simp add: load_zero_mem)
  have l: "load32 (store32 (\<lambda>_. 0) 0x1080 MAGIC) b = 0" if "b \<in> {0x1000, 0x10c0, 0x10e0, 0x10f0}" for b
    using that by (auto simp: load_zero_mem apart_def)
  have 1: "find_free (store32 (\<lambda>_. 0) 0x1080 MAGIC) 0x10e0 32 14 = (store32 (store32 (\<lambda>_. 0) 0x1080 MAGIC) 0x10f0 MAGIC, 0x10f4)"
    by (subst find_free.simps) (simp add: l)
  have 2: "find_free (store32 (\<lambda>_. 0) 0x1080 MAGIC) 0x10c0 64 14 = (store32 (store32 (\<lambda>_. 0) 0x1080 MAGIC) 0x10f0 MAGIC, 0x10f4)"
    by (subst find_free.simps) (simp add: l 1)
  have 3: "find_free (store32 (\<lambda>_. 0) 0x1080 MAGIC) 0x1080 128 14 = (store32 (store32 (\<lambda>_. 0) 0x1080 MAGIC) 0x10f0 MAGIC, 0x10f4)"
    by (subst find_free.simps) (simp add: l 2)
  show "snd (find_free (store32 (\<lambda>_. 0) 0x1080 MAGIC) 0x1000 256 14) = 0x10f4"
    by (subst find_free.simps) (simp add: l 3)
qed

section \<open>Instances\<close>

definition demo_proc :: uproc where
  "demo_proc = \<lparr>h_size = 0, h_pos = 0, t_size = 0, u_mem = (\<lambda>_. 0), u_sched = demo_sched, u_ecx = (\<lambda>_. 0x100000)\<rparr>"

lemma demo_proc_ready: "heap_ready demo_proc" "heap_base demo_proc = 0x100000" "h_size demo_proc = 0" "u_mem demo_proc = (\<lambda>_. 0)"
  by (simp_all add: heap_ready_def heap_base_def demo_proc_def load_zero_mem)

theorem malloc_returns_witness:
  "\<exists>s' a. malloc 100 demo_proc = Some (s', a + 4) \<and> u_mem s' = store32 (\<lambda>_. 0) a MAGIC \<and> 0x100000 \<le> unat a"
  using malloc_returns [OF demo_proc_ready(1), of 100] unfolding demo_proc_ready by auto

theorem free_once_witness:
  "\<exists>s'. free 0x1004 (demo_proc\<lparr>u_mem := store32 (\<lambda>_. 0) 0x1000 MAGIC\<rparr>) = (s', False) \<and> free 0x1004 s' = (s', True)"
  using free_once [of "demo_proc\<lparr>u_mem := store32 (\<lambda>_. 0) 0x1000 MAGIC\<rparr>" "0x1004"] by auto

end
