(* ===== verification/Shell.thy ===== *)
theory Shell
  imports Blocks
begin

text \<open>
  The command line of the kernel's shell, \<open>kshell\<close> of \<open>kern/sys/kshell.c\<close>: reading a line with backspaces, cutting it
  into arguments in place, and looking the command up. The line and the table of arguments lie in byte memory, so that
  the pointers in the table and the zeros written over the line are those of the code. The shell of the user programs,
  \<open>user/shell.c\<close>, has the same loops.

  What is typed is an argument: \<open>inp n\<close> is the byte the \<open>n\<close>-th \<open>read\<close> from the keyboard stores.
\<close>

abbreviation (input) STR_LIMIT :: u32 where "STR_LIMIT \<equiv> 128"

section \<open>Operations\<close>

text \<open>The loop that reads a line: reads so far, length, memory and echo.\<close>

partial_function (option) read_line :: "(nat \<Rightarrow> u8) \<Rightarrow> u32 \<Rightarrow> nat \<Rightarrow> u32 \<Rightarrow> mem \<Rightarrow> u8 list \<Rightarrow> (nat \<times> u32 \<times> mem \<times> u8 list) option" where
  "read_line inp cmd n i m out =
    (if inp n \<noteq> 10 \<and> i < STR_LIMIT then
       if inp n = 8 then
         read_line inp cmd (n + 1) (if i > 0 then i - 1 else i) (m(cmd + i := 0)) (if i > 0 then out @ [inp n] else out)
       else read_line inp cmd (n + 1) (i + 1) (m(cmd + i := inp n)) (out @ [inp n])
     else Some (n, i, m(cmd + i := 0), out @ [10]))"

text \<open>\<open>for ( cmd++; *cmd != '\'' && *cmd != '\"' && *cmd != 0; cmd++ );\<close>\<close>

partial_function (option) to_quote :: "mem \<Rightarrow> u32 \<Rightarrow> u32 option" where
  "to_quote m cmd = (if m cmd \<noteq> 39 \<and> m cmd \<noteq> 34 \<and> m cmd \<noteq> 0 then to_quote m (cmd + 1) else Some cmd)"

partial_function (option) split_loop :: "u32 \<Rightarrow> u32 \<Rightarrow> u32 \<Rightarrow> u32 \<Rightarrow> mem \<Rightarrow> (u32 \<times> u32 \<times> mem) option" where
  "split_loop args cmd j arg_no m =
    (if m cmd \<noteq> 0 then
       let (j1, arg_no1, m1) =
             (if m cmd = 32 then (j + 1, arg_no + 1, (store32 m (args + 4 * j) (cmd + 1))(cmd := 0)) else (j, arg_no, m))
       in if m1 cmd = 39 \<or> m1 cmd = 34 then
            let m2 = m1(cmd := 0); p = args + 4 * (j1 - 1); m3 = store32 m2 p (load32 m2 p + 1)
            in case to_quote m3 (cmd + 1) of None \<Rightarrow> None
               | Some cmd2 \<Rightarrow> split_loop args (cmd2 + 1) j1 arg_no1 (m3(cmd2 := 0))
          else split_loop args (cmd + 1) j1 arg_no1 m1
     else Some (j, arg_no, m))"

text \<open>\<open>cmd\<close> is what \<open>args[0]\<close> holds; the result is the number of arguments and the memory.\<close>

definition split_args :: "u32 \<Rightarrow> u32 \<Rightarrow> mem \<Rightarrow> (u32 \<times> mem) option" where
  "split_args args cmd m =
    (case split_loop args cmd 1 1 m of None \<Rightarrow> None
     | Some (j, arg_no, m1) \<Rightarrow> Some (arg_no, store32 m1 (args + 4 * j) 0))"

text \<open>
  \<open>for ( j = 0; j < cmd_count; j++ )\<close>: the table holds names and functions, either of which may be a null pointer; the
  functions are called with the number of arguments and the table and may change the memory.
\<close>

type_synonym shell_func = "u32 \<Rightarrow> u32 \<Rightarrow> mem \<Rightarrow> mem"

record shell_cmd =
  cmd_name :: u32
  cmd_help :: u32
  cmd_function :: "shell_func option"

definition register_shell_func :: "u32 \<Rightarrow> shell_func option \<Rightarrow> shell_cmd list \<Rightarrow> shell_cmd list" where
  "register_shell_func name f commands = commands @ [\<lparr>cmd_name = name, cmd_help = 0, cmd_function = f\<rparr>]"

fun find_command :: "shell_cmd list \<Rightarrow> u32 \<Rightarrow> u32 \<Rightarrow> bool \<Rightarrow> mem \<Rightarrow> (bool \<times> mem) option" where
  "find_command [] args arg_no cmd_found m = Some (cmd_found, m)"
| "find_command (c # commands) args arg_no cmd_found m =
    (case cmd_function c of None \<Rightarrow> find_command commands args arg_no cmd_found m
     | Some f \<Rightarrow>
         if cmd_name c = 0 then find_command commands args arg_no cmd_found m
         else (case strcmp m (load32 m args) (cmd_name c) of None \<Rightarrow> None
               | Some r \<Rightarrow> if r = 0 then find_command commands args arg_no True (f arg_no args m)
                           else find_command commands args arg_no cmd_found m))"

text \<open>What the shell does after the commands of the table: it ends, runs a file as a program, or prompts again.\<close>

datatype shell_next = Exits | Executes u32 | Prompts

definition after_command :: "u32 \<Rightarrow> u32 \<Rightarrow> bool \<Rightarrow> mem \<Rightarrow> shell_next option" where
  "after_command exit_str args cmd_found m =
    (case strcmp m (load32 m args) exit_str of None \<Rightarrow> None
     | Some r \<Rightarrow>
         if r = 0 then Some Exits
         else if cmd_found then Some Prompts
         else (case strlen m (load32 m args) of None \<Rightarrow> None
               | Some n \<Rightarrow> Some (if n = 0 then Prompts else Executes (load32 m args))))"

text \<open>One line, from the first key to the commands it runs.\<close>

definition run_line :: "(nat \<Rightarrow> u8) \<Rightarrow> shell_cmd list \<Rightarrow> u32 \<Rightarrow> u32 \<Rightarrow> mem \<Rightarrow> (bool \<times> mem) option" where
  "run_line inp commands args cmd m =
    (case read_line inp cmd 0 0 m [] of None \<Rightarrow> None
     | Some (n, i, m1, out) \<Rightarrow>
         (case split_args args cmd m1 of None \<Rightarrow> None
          | Some (arg_no, m2) \<Rightarrow> find_command commands args arg_no False m2))"

section \<open>Editing a line\<close>

text \<open>The line that is left after the keys, and what is echoed, given the line so far.\<close>

definition edit_key :: "u8 \<Rightarrow> u8 list \<Rightarrow> u8 list" where
  "edit_key c l = (if c = 8 then butlast l else l @ [c])"

fun edited :: "u8 list \<Rightarrow> u8 list \<Rightarrow> u8 list" where
  "edited l [] = l"
| "edited l (c # cs) = edited (edit_key c l) cs"

fun echoed :: "u8 list \<Rightarrow> u8 list \<Rightarrow> u8 list" where
  "echoed l [] = []"
| "echoed l (c # cs) = (if c = 8 \<and> l = [] then [] else [c]) @ echoed (edit_key c l) cs"

text \<open>Every key finds room, is no line feed and no zero.\<close>

fun fits :: "u8 list \<Rightarrow> u8 list \<Rightarrow> bool" where
  "fits l [] \<longleftrightarrow> length l \<le> 128"
| "fits l (c # cs) \<longleftrightarrow> c \<noteq> 10 \<and> c \<noteq> 0 \<and> length l < 128 \<and> fits (edit_key c l) cs"

section \<open>Lines\<close>

text \<open>An argument as it is typed: plain, or between two quotes of any kind.\<close>

datatype word_t = Plain "u8 list" | Quoted u8 "u8 list" u8

fun typed :: "word_t \<Rightarrow> u8 list" where
  "typed (Plain w) = w"
| "typed (Quoted q w r) = q # w @ [r]"

fun meant :: "word_t \<Rightarrow> u8 list" where
  "meant (Plain w) = w"
| "meant (Quoted q w r) = w"

definition is_quote :: "u8 \<Rightarrow> bool" where
  "is_quote c \<longleftrightarrow> c = 39 \<or> c = 34"

fun proper :: "word_t \<Rightarrow> bool" where
  "proper (Plain w) \<longleftrightarrow> (\<forall>c\<in>set w. c \<noteq> 0 \<and> c \<noteq> 32 \<and> \<not> is_quote c)"
| "proper (Quoted q w r) \<longleftrightarrow> is_quote q \<and> is_quote r \<and> (\<forall>c\<in>set w. c \<noteq> 0 \<and> \<not> is_quote c)"

fun line :: "word_t list \<Rightarrow> u8 list" where
  "line [] = []"
| "line [w] = typed w"
| "line (w # ws) = typed w @ 32 # line ws"

text \<open>\<open>text_at m b d cs\<close>: the bytes at offset \<open>d\<close> are \<open>cs\<close>.\<close>

definition text_at :: "mem \<Rightarrow> u32 \<Rightarrow> nat \<Rightarrow> u8 list \<Rightarrow> bool" where
  "text_at m b d cs \<longleftrightarrow> (\<forall>k<length cs. m (b + of_nat (d + k)) = cs ! k)"

lemma text_at_append: "text_at m b d (xs @ ys) \<longleftrightarrow> text_at m b d xs \<and> text_at m b (d + length xs) ys"
proof -
  have "text_at m b d (xs @ ys) \<Longrightarrow> text_at m b (d + length xs) ys"
    unfolding text_at_def by (metis add.assoc add_less_cancel_left length_append nth_append_length_plus)
  moreover have "text_at m b d (xs @ ys) \<Longrightarrow> text_at m b d xs" by (auto simp: text_at_def nth_append)
  moreover have "text_at m b d (xs @ ys)" if xs: "text_at m b d xs" and ys: "text_at m b (d + length xs) ys"
    unfolding text_at_def
  proof (intro allI impI)
    fix k assume k: "k < length (xs @ ys)"
    show "m (b + of_nat (d + k)) = (xs @ ys) ! k"
    proof (cases "k < length xs")
      case False
      then have "k - length xs < length ys" using k by simp
      with ys have "m (b + of_nat (d + length xs + (k - length xs))) = ys ! (k - length xs)" unfolding text_at_def by blast
      moreover have "d + length xs + (k - length xs) = d + k" using False by simp
      ultimately show ?thesis using False by (simp only: nth_append if_False)
    qed (use xs in \<open>auto simp: text_at_def nth_append\<close>)
  qed
  ultimately show ?thesis by blast
qed

lemma text_at_Cons: "text_at m b d (c # cs) \<longleftrightarrow> m (b + of_nat d) = c \<and> text_at m b (Suc d) cs"
  using text_at_append [of m b d "[c]" cs] by (simp add: text_at_def)

lemma same_on_text:
  assumes "same_on m m' b lo hi" "text_at m b d cs" "lo \<le> d" "d + length cs \<le> hi"
  shows "text_at m' b d cs"
  using assms same_onD [OF assms(1)] by (auto simp: text_at_def simp del: of_nat_add)

lemma text_at_cstr:
  assumes "text_at m b d cs" "m (b + of_nat (d + length cs)) = 0" "0 \<notin> set cs"
  shows "cstr m (b + of_nat d) cs"
  using assms unfolding cstr_iff text_at_def by (auto simp: add.assoc in_set_conv_nth)

lemma text_at_butlast: "text_at m b d cs \<Longrightarrow> text_at m b d (butlast cs)"
  by (auto simp: text_at_def nth_butlast)

lemma fits_length: "fits l cs \<Longrightarrow> length (edited l cs) \<le> 128"
  by (induction l cs rule: fits.induct) auto

lemma read_key:
  assumes c: "inp n = c" "c \<noteq> 10" and l: "length l < 128" "text_at m b 0 l"
  shows "\<exists>m1. read_line inp b n (of_nat (length l)) m out =
      read_line inp b (n + 1) (of_nat (length (edit_key c l))) m1 (out @ (if c = 8 \<and> l = [] then [] else [c])) \<and>
    text_at m1 b 0 (edit_key c l) \<and> changed m m1 b {0..<128}"
proof -
  let ?i = "length l"
  have i: "of_nat ?i < (128 :: u32)" "0 < (of_nat ?i :: u32) \<longleftrightarrow> l \<noteq> []" using l(1) by (simp_all add: word_less_nat_alt)
  have k: "kept m (m(b + of_nat ?i := v)) b ?i (Suc ?i)" for v by (rule kept_upd) (use l(1) in simp)
  then have ch: "changed m (m(b + of_nat ?i := v)) b {0..<128}" for v
    using kept_changed [OF k [of v]] l(1) by (rule_tac changed_trans [OF changed_refl [where X = "{}"]]) auto
  have t: "text_at (m(b + of_nat ?i := v)) b 0 l" for v by (rule same_on_text [OF kept_same_on [OF k, of ?i 0] l(2)]) (use l(1) in auto)
  have run: "read_line inp b n (of_nat ?i) m out =
      (if c = 8 then read_line inp b (n + 1) (if l \<noteq> [] then of_nat ?i - 1 else of_nat ?i) (m(b + of_nat ?i := 0)) (if l \<noteq> [] then out @ [c] else out)
       else read_line inp b (n + 1) (of_nat ?i + 1) (m(b + of_nat ?i := c)) (out @ [c]))"
    using c i by (subst read_line.simps) simp
  show ?thesis
  proof (cases "c = 8")
    case True
    have "(if l \<noteq> [] then of_nat ?i - 1 else of_nat ?i) = (of_nat (length (butlast l)) :: u32)" by (cases l) simp_all
    then show ?thesis using run True ch [of 0] text_at_butlast [OF t [of 0]]
      by (intro exI [of _ "m(b + of_nat ?i := 0)"]) (simp add: edit_key_def)
  next
    case False
    have "text_at (m(b + of_nat ?i := c)) b 0 (l @ [c])" unfolding text_at_append using t by (simp add: text_at_def)
    then show ?thesis using run False ch [of c]
      by (intro exI [of _ "m(b + of_nat ?i := c)"]) (simp add: edit_key_def add.commute)
  qed
qed

lemma read_line_from:
  "fits l ks \<Longrightarrow> (\<And>j. j < length ks \<Longrightarrow> inp (n + j) = ks ! j) \<Longrightarrow> inp (n + length ks) = 10 \<or> length (edited l ks) = 128 \<Longrightarrow>
    text_at m b 0 l \<Longrightarrow>
    \<exists>m'. read_line inp b n (of_nat (length l)) m out =
        Some (n + length ks, of_nat (length (edited l ks)), m', out @ echoed l ks @ [10]) \<and>
      text_at m' b 0 (edited l ks) \<and> m' (b + of_nat (length (edited l ks))) = 0 \<and> changed m m' b {0..<129}"
proof (induction l ks arbitrary: n m out rule: fits.induct)
  case (1 l)
  let ?i = "length l" and ?m = "m(b + of_nat (length l) := 0)"
  have k: "kept m ?m b ?i (Suc ?i)" by (rule kept_upd) (use 1 in simp)
  have "of_nat ?i < (128 :: u32) \<longleftrightarrow> ?i < 128" using 1 by (simp add: word_less_nat_alt)
  then have "(inp n \<noteq> 10 \<and> of_nat ?i < (128 :: u32)) = False" using 1(3) by auto
  then have "read_line inp b n (of_nat ?i) m out = Some (n, of_nat ?i, ?m, out @ [10])"
    by (subst read_line.simps) (simp only: if_False)
  moreover have "text_at ?m b 0 l" by (rule same_on_text [OF kept_same_on [OF k, of ?i 0] 1(4)]) (use 1 in auto)
  moreover have "changed m ?m b {0..<129}"
    using changed_trans [OF changed_refl [where X = "{}"] kept_changed [OF k]] 1(1) by auto
  ultimately show ?case by (intro exI [of _ ?m]) (simp del: fun_upd_apply add: fun_upd_same)
next
  case (2 l c cs)
  have c: "inp n = c" "c \<noteq> 10" "length l < 128" using 2(2) 2(3) [of 0] by auto
  obtain m1 where m1: "read_line inp b n (of_nat (length l)) m out =
      read_line inp b (n + 1) (of_nat (length (edit_key c l))) m1 (out @ (if c = 8 \<and> l = [] then [] else [c]))"
    "text_at m1 b 0 (edit_key c l)" "changed m m1 b {0..<128}" using read_key [where inp = inp and n = n, OF c 2(5)] by blast
  have "fits (edit_key c l) cs" "inp (n + 1 + length cs) = 10 \<or> length (edited (edit_key c l) cs) = 128"
    and "\<And>j. j < length cs \<Longrightarrow> inp (n + 1 + j) = cs ! j" using 2(2,4) 2(3) [of "Suc j" for j] by auto
  from 2(1) [OF this(1,3,2) m1(2), of "out @ (if c = 8 \<and> l = [] then [] else [c])"] obtain m' where
    m': "read_line inp b (n + 1) (of_nat (length (edit_key c l))) m1 (out @ (if c = 8 \<and> l = [] then [] else [c])) =
        Some (n + 1 + length cs, of_nat (length (edited (edit_key c l) cs)), m', (out @ (if c = 8 \<and> l = [] then [] else [c])) @ echoed (edit_key c l) cs @ [10])"
      "text_at m' b 0 (edited (edit_key c l) cs)" "m' (b + of_nat (length (edited (edit_key c l) cs))) = 0" "changed m1 m' b {0..<129}" by blast
  have "changed m m' b {0..<129}" using m1(3) m'(4) by (rule changed_trans) auto
  then show ?case using m1(1) m' by (intro exI [of _ m']) simp
qed

lemma edited_no_zero: "fits l ks \<Longrightarrow> 0 \<notin> set l \<Longrightarrow> 0 \<notin> set (edited l ks)"
proof (induction l ks rule: fits.induct)
  case (2 l c cs)
  then have "0 \<notin> set (edit_key c l)" by (auto simp: edit_key_def dest: in_set_butlastD)
  then show ?case using 2 by simp
qed simp

lemma read_line_at:
  assumes "fits [] ks" "\<And>j. j < length ks \<Longrightarrow> inp j = ks ! j" "inp (length ks) = 10 \<or> length (edited [] ks) = 128"
  shows "\<exists>m'. read_line inp cmd 0 0 m [] = Some (length ks, of_nat (length (edited [] ks)), m', echoed [] ks @ [10]) \<and>
    cstr m' cmd (edited [] ks) \<and> changed m m' cmd {0..<129}"
proof -
  from read_line_from [of "[]" ks inp 0 m cmd "[]"] assms obtain m' where
    m': "read_line inp cmd 0 0 m [] = Some (length ks, of_nat (length (edited [] ks)), m', echoed [] ks @ [10])"
      "text_at m' cmd 0 (edited [] ks)" "m' (cmd + of_nat (length (edited [] ks))) = 0" "changed m m' cmd {0..<129}"
    by (auto simp: text_at_def)
  have "cstr m' (cmd + of_nat 0) (edited [] ks)"
    by (rule text_at_cstr [OF m'(2)]) (use m'(3) edited_no_zero [OF assms(1)] in simp_all)
  then show ?thesis using m' by (intro exI [of _ m']) simp
qed

section \<open>Cutting a line into arguments\<close>

lemma split_plain:
  "text_at m b d w \<Longrightarrow> \<forall>c\<in>set w. c \<noteq> 0 \<and> c \<noteq> 32 \<and> \<not> is_quote c \<Longrightarrow>
    split_loop args (b + of_nat d) j n m = split_loop args (b + of_nat (d + length w)) j n m"
proof (induction w arbitrary: d)
  case (Cons c w)
  then have c: "m (b + of_nat d) = c" "c \<noteq> 0" "c \<noteq> 32" "c \<noteq> 39" "c \<noteq> 34" and w: "text_at m b (Suc d) w"
    by (auto simp: text_at_Cons is_quote_def)
  have "split_loop args (b + of_nat d) j n m = split_loop args (b + of_nat (Suc d)) j n m"
    using c by (subst split_loop.simps) (simp add: add.commute add.left_commute)
  then show ?case using Cons.IH [OF w] Cons.prems(2) by simp
qed simp

lemma to_quote_found:
  "text_at m b d w \<Longrightarrow> \<forall>c\<in>set w. c \<noteq> 0 \<and> \<not> is_quote c \<Longrightarrow> is_quote (m (b + of_nat (d + length w))) \<Longrightarrow>
    to_quote m (b + of_nat d) = Some (b + of_nat (d + length w))"
proof (induction w arbitrary: d)
  case Nil
  then show ?case by (subst to_quote.simps) (auto simp: is_quote_def)
next
  case (Cons c w)
  then have c: "m (b + of_nat d) = c" "c \<noteq> 0" "c \<noteq> 39" "c \<noteq> 34" and w: "text_at m b (Suc d) w"
    by (auto simp: text_at_Cons is_quote_def)
  have "to_quote m (b + of_nat d) = to_quote m (b + of_nat (Suc d))"
    using c by (subst to_quote.simps) (simp add: add.commute add.left_commute)
  then show ?case using Cons.IH [OF w] Cons.prems(2,3) by simp
qed

text \<open>The entry of the table for the argument \<open>k\<close>.\<close>

abbreviation entry :: "mem \<Rightarrow> u32 \<Rightarrow> nat \<Rightarrow> nat \<Rightarrow> u32" where
  "entry m b A k \<equiv> load32 m (b + of_nat (A + 4 * k))"

definition cut_word :: "mem \<Rightarrow> u32 \<Rightarrow> nat \<Rightarrow> nat \<Rightarrow> u8 list \<Rightarrow> mem \<Rightarrow> nat \<Rightarrow> nat \<Rightarrow> bool" where
  "cut_word m b A k w m1 d e \<longleftrightarrow> changed m m1 b ({d..<e} \<union> {A + 4 * k..<A + 4 * k + 4}) \<and>
     (\<exists>u. d \<le> u \<and> u + length w \<le> e \<and> entry m1 b A k = b + of_nat u \<and> text_at m1 b u w \<and>
       (u + length w = e \<or> m1 (b + of_nat (u + length w)) = 0))"

lemma split_quoted:
  assumes t: "text_at m b d (q # w @ [r])" "proper (Quoted q w r)" and en: "entry m b A k = b + of_nat d"
    and A: "d + length w + 2 \<le> A" "A + 4 * k + 4 \<le> 2 ^ 32" "unat j = Suc k"
  shows "\<exists>m1. split_loop (b + of_nat A) (b + of_nat d) j n m = split_loop (b + of_nat A) (b + of_nat (d + length w + 2)) j n m1 \<and>
    cut_word m b A k w m1 d (d + length w + 2)"
proof -
  let ?e = "d + 1 + length w" and ?p = "b + of_nat (A + 4 * k)"
  let ?m2 = "m(b + of_nat d := 0)"
  let ?m3 = "store32 ?m2 ?p (load32 ?m2 ?p + 1)"
  let ?m4 = "?m3(b + of_nat ?e := 0)"
  have tx: "m (b + of_nat d) = q" "text_at m b (d + 1) w" "m (b + of_nat ?e) = r"
    using t(1) by (auto simp: text_at_Cons text_at_append simp del: of_nat_add)
  have q: "is_quote q" "is_quote r" "\<forall>c\<in>set w. c \<noteq> 0 \<and> \<not> is_quote c" using t(2) by auto
  have j: "b + of_nat A + 4 * (j - 1) = ?p"
  proof -
    have "of_nat (unat j) = j" by simp
    then have "j = of_nat (Suc k)" unfolding A(3) by simp
    then show ?thesis by simp
  qed
  have k2: "kept m ?m2 b d (Suc d)" by (rule kept_upd) (use A in simp)
  have k3: "kept ?m2 ?m3 b (A + 4 * k) (A + 4 * k + 4)" by (rule kept_store32 [OF A(2)])
  have k4: "kept ?m3 ?m4 b ?e (Suc ?e)" by (rule kept_upd) (use A in simp)
  have s3: "same_on m ?m3 b (d + 1) (?e + 1)"
    by (rule same_on_trans [OF kept_same_on [OF k2] kept_same_on [OF k3]]) (use A in auto)
  have e2: "load32 ?m2 ?p = b + of_nat d" using kept_load32 [OF k2, of "A + 4 * k"] en A by simp
  have w3: "text_at ?m3 b (d + 1) w" by (rule same_on_text [OF s3 tx(2)]) auto
  have r3: "?m3 (b + of_nat ?e) = r" using same_onD [OF s3, of ?e] tx(3) by simp
  have tq: "to_quote ?m3 (b + of_nat (d + 1)) = Some (b + of_nat ?e)" by (rule to_quote_found [OF w3 q(3)]) (use r3 q(2) in simp)
  have nx: "b + of_nat d + 1 = b + of_nat (d + 1)" "b + of_nat ?e + 1 = b + of_nat (d + length w + 2)" by simp_all
  have "split_loop (b + of_nat A) (b + of_nat d) j n m = split_loop (b + of_nat A) (b + of_nat (d + length w + 2)) j n ?m4"
  proof -
    have "(m (b + of_nat d) \<noteq> 0) = True" "(m (b + of_nat d) = 32) = False" "(m (b + of_nat d) = 39 \<or> m (b + of_nat d) = 34) = True"
      using tx(1) q(1) by (auto simp: is_quote_def)
    then show ?thesis by (subst split_loop.simps) (simp only: if_True if_False Let_def prod.case j nx tq option.case)
  qed
  moreover have "cut_word m b A k w ?m4 d (d + length w + 2)"
    unfolding cut_word_def
  proof (intro conjI exI [of _ "d + 1"])
    show "changed m ?m4 b ({d..<d + length w + 2} \<union> {A + 4 * k..<A + 4 * k + 4})"
      using kept_changed [OF k2] kept_changed [OF k3] kept_changed [OF k4] by (rule changed_trans3) auto
    have "load32 ?m4 ?p = load32 ?m3 ?p" by (rule kept_load32 [OF k4 A(2)]) (use A in auto)
    then show "load32 ?m4 ?p = b + of_nat (d + 1)" using e2 by (simp add: add.commute add.left_commute)
    show "text_at ?m4 b (d + 1) w"
      by (rule same_on_text [OF kept_same_on [OF k4, of ?e "d + 1"] w3]) (use A in auto)
    show "d + 1 + length w = d + length w + 2 \<or> ?m4 (b + of_nat (d + 1 + length w)) = 0" by simp
  qed (use A in auto)
  ultimately show ?thesis by blast
qed

lemma split_word:
  assumes t: "text_at m b d (typed w)" "proper w" and en: "entry m b A k = b + of_nat d"
    and A: "d + length (typed w) \<le> A" "A + 4 * k + 4 \<le> 2 ^ 32" "unat j = Suc k"
  shows "\<exists>m1. split_loop (b + of_nat A) (b + of_nat d) j n m = split_loop (b + of_nat A) (b + of_nat (d + length (typed w))) j n m1 \<and>
    cut_word m b A k (meant w) m1 d (d + length (typed w))"
proof (cases w)
  case (Plain v)
  then have "split_loop (b + of_nat A) (b + of_nat d) j n m = split_loop (b + of_nat A) (b + of_nat (d + length v)) j n m"
    using split_plain [of m b d v] t by simp
  then show ?thesis using Plain t en by (intro exI [of _ m]) (auto simp: cut_word_def)
next
  case (Quoted q v r)
  then show ?thesis using split_quoted [of m b d q v r A k j n] assms by simp
qed

text \<open>A space ends a word: the next entry points behind it.\<close>

lemma split_space:
  assumes "m (b + of_nat e) = 32" "e < A" "A + 4 * k + 4 \<le> 2 ^ 32" "unat j = k"
  shows "\<exists>m1. split_loop (b + of_nat A) (b + of_nat e) j n m = split_loop (b + of_nat A) (b + of_nat (Suc e)) (j + 1) (n + 1) m1 \<and>
    changed m m1 b ({e..<Suc e} \<union> {A + 4 * k..<A + 4 * k + 4}) \<and> entry m1 b A k = b + of_nat (Suc e) \<and> m1 (b + of_nat e) = 0"
proof -
  let ?p = "b + of_nat (A + 4 * k)"
  let ?m1 = "store32 m ?p (b + of_nat (Suc e))"
  let ?m2 = "?m1(b + of_nat e := 0)"
  have j: "b + of_nat A + 4 * j = ?p"
  proof -
    have "of_nat (unat j) = j" by simp
    then have "j = of_nat k" unfolding assms(4) by simp
    then show ?thesis by simp
  qed
  have k1: "kept m ?m1 b (A + 4 * k) (A + 4 * k + 4)" by (rule kept_store32 [OF assms(3)])
  have k2: "kept ?m1 ?m2 b e (Suc e)" by (rule kept_upd) (use assms in simp)
  have nx: "b + of_nat e + 1 = b + of_nat (Suc e)" by (simp add: add.commute add.left_commute)
  have "(m (b + of_nat e) \<noteq> 0) = True" "(m (b + of_nat e) = 32) = True" "(?m2 (b + of_nat e) = 39 \<or> ?m2 (b + of_nat e) = 34) = False"
    using assms(1) by simp_all
  then have "split_loop (b + of_nat A) (b + of_nat e) j n m = split_loop (b + of_nat A) (b + of_nat (Suc e)) (j + 1) (n + 1) ?m2"
    by (subst split_loop.simps) (simp only: if_True if_False Let_def prod.case j nx)
  moreover have "changed m ?m2 b ({e..<Suc e} \<union> {A + 4 * k..<A + 4 * k + 4})"
    using kept_changed [OF k1] kept_changed [OF k2] by (rule changed_trans) auto
  moreover have "load32 ?m2 ?p = load32 ?m1 ?p" by (rule kept_load32 [OF k2 assms(3)]) (use assms in auto)
  ultimately show ?thesis by (intro exI [of _ ?m2]) simp
qed

text \<open>
  \<open>arg_at m b A lo hi k w\<close>: the entry \<open>k\<close> of the table points between \<open>lo\<close> and \<open>hi\<close> to the string \<open>w\<close>.
\<close>

definition arg_at :: "mem \<Rightarrow> u32 \<Rightarrow> nat \<Rightarrow> nat \<Rightarrow> nat \<Rightarrow> nat \<Rightarrow> u8 list \<Rightarrow> bool" where
  "arg_at m b A lo hi k w \<longleftrightarrow> (\<exists>u. lo \<le> u \<and> u + length w \<le> hi \<and> entry m b A k = b + of_nat u \<and> cstr m (b + of_nat u) w)"

lemma same_on_arg_at:
  assumes "arg_at m b A lo hi k w" "same_on m m' b lo (Suc hi)" "same_on m m' b (A + 4 * k) (A + 4 * k + 4)"
  shows "arg_at m' b A lo hi k w"
proof -
  obtain u where u: "lo \<le> u" "u + length w \<le> hi" "entry m b A k = b + of_nat u" "cstr m (b + of_nat u) w"
    using assms(1) by (auto simp: arg_at_def)
  have "cstr m' (b + of_nat u) w" by (rule same_on_cstr [OF assms(2) u(4,1)]) (use u(2) in simp)
  moreover have "entry m' b A k = entry m b A k" by (rule same_on_load32 [OF assms(3)]) simp_all
  ultimately show ?thesis using u by (auto simp: arg_at_def)
qed

lemma arg_at_mono: "arg_at m b A lo hi k w \<Longrightarrow> lo' \<le> lo \<Longrightarrow> hi \<le> hi' \<Longrightarrow> arg_at m b A lo' hi' k w"
  unfolding arg_at_def by (meson le_trans)

lemma cut_word_arg_at:
  assumes "cut_word m b A k w m1 d e" "same_on m1 m2 b d e" "same_on m1 m2 b (A + 4 * k) (A + 4 * k + 4)"
    "m2 (b + of_nat e) = 0" "0 \<notin> set w"
  shows "arg_at m2 b A d e k w"
proof -
  obtain u where u: "d \<le> u" "u + length w \<le> e" "entry m1 b A k = b + of_nat u" "text_at m1 b u w"
    "u + length w = e \<or> m1 (b + of_nat (u + length w)) = 0" using assms(1) by (auto simp: cut_word_def)
  have t: "text_at m2 b u w" by (rule same_on_text [OF assms(2) u(4)]) (use u in auto)
  have "m2 (b + of_nat (u + length w)) = 0"
  proof (cases "u + length w = e")
    case False
    then show ?thesis using u same_onD [OF assms(2), of "u + length w"] by simp
  qed (use assms(4) in simp)
  then have "cstr m2 (b + of_nat u) w" by (rule text_at_cstr [OF t _ assms(5)])
  moreover have "entry m2 b A k = entry m1 b A k" by (rule same_on_load32 [OF assms(3)]) simp_all
  ultimately show ?thesis using u(1-3) by (auto simp: arg_at_def)
qed

lemma same_on_refl: "same_on m m b lo hi"
  by (simp add: same_on_def)

lemma length_meant: "length (meant w) \<le> length (line (w # ws))"
  by (cases w; cases ws) auto

lemma meant_no_zero: "proper w \<Longrightarrow> 0 \<notin> set (meant w)"
  by (cases w) auto

lemma split_words:
  "text_at m b d (line (w # ws)) \<Longrightarrow> m (b + of_nat L) = 0 \<Longrightarrow> L = d + length (line (w # ws)) \<Longrightarrow> \<forall>v\<in>set (w # ws). proper v \<Longrightarrow>
    entry m b A k = b + of_nat d \<Longrightarrow> L < A \<Longrightarrow> A + 4 * (k + length ws) + 4 \<le> 2 ^ 32 \<Longrightarrow> unat j = Suc k \<Longrightarrow>
    \<exists>m'. split_loop (b + of_nat A) (b + of_nat d) j n m = Some (j + of_nat (length ws), n + of_nat (length ws), m') \<and>
      changed m m' b ({d..<L} \<union> {A + 4 * k..<A + 4 * (k + length ws) + 4}) \<and>
      (\<forall>i<length (w # ws). arg_at m' b A d L (k + i) (meant ((w # ws) ! i)))"
proof (induction ws arbitrary: w d k j n m)
  case Nil
  have L: "L = d + length (typed w)" using Nil by simp
  obtain m1 where m1: "split_loop (b + of_nat A) (b + of_nat d) j n m = split_loop (b + of_nat A) (b + of_nat L) j n m1"
    "cut_word m b A k (meant w) m1 d L" using split_word [of m b d w A k j n] Nil by auto
  then have c: "changed m m1 b ({d..<L} \<union> {A + 4 * k..<A + 4 * k + 4})" by (simp add: cut_word_def)
  have z: "m1 (b + of_nat L) = 0" using same_onD [OF changed_same_on [OF c, of L "Suc L"], of L] Nil by auto
  have "split_loop (b + of_nat A) (b + of_nat L) j n m1 = Some (j, n, m1)" using z by (subst split_loop.simps) simp
  moreover have "arg_at m1 b A d L k (meant w)"
    by (rule cut_word_arg_at [OF m1(2) same_on_refl same_on_refl z]) (use Nil meant_no_zero in simp)
  ultimately show ?case using m1(1) c by (intro exI [of _ m1]) simp
next
  case (Cons v ws)
  define e where "e = d + length (typed w)"
  have L: "L = Suc e + length (line (v # ws))" using Cons.prems(3) by (simp add: e_def)
  have tx: "text_at m b d (typed w)" "m (b + of_nat e) = 32" "text_at m b (Suc e) (line (v # ws))"
    using Cons.prems(1) by (auto simp: text_at_append text_at_Cons e_def simp del: of_nat_add)
  have ks: "A + 4 * k + 4 \<le> 2 ^ 32" "A + 4 * Suc k + 4 \<le> 2 ^ 32" "A + 4 * (Suc k + length ws) + 4 \<le> 2 ^ 32" "e < A"
    using Cons.prems(6,7) L by simp_all
  obtain m1 where m1: "split_loop (b + of_nat A) (b + of_nat d) j n m = split_loop (b + of_nat A) (b + of_nat e) j n m1"
    "cut_word m b A k (meant w) m1 d e"
    using split_word [OF tx(1) _ Cons.prems(5) _ ks(1) Cons.prems(8), of n] Cons.prems(4) ks(4) by (auto simp: e_def)
  then have c1: "changed m m1 b ({d..<e} \<union> {A + 4 * k..<A + 4 * k + 4})" by (simp add: cut_word_def)
  have s1: "same_on m m1 b e (Suc L)" by (rule changed_same_on [OF c1]) (use Cons.prems(6) ks in auto)
  have "m1 (b + of_nat e) = 32" using same_onD [OF s1, of e] tx(2) L by simp
  from split_space [of m1 b e A "Suc k" j n, OF this ks(4,2) Cons.prems(8)] obtain m2 where
    m2: "split_loop (b + of_nat A) (b + of_nat e) j n m1 = split_loop (b + of_nat A) (b + of_nat (Suc e)) (j + 1) (n + 1) m2"
    and c2: "changed m1 m2 b ({e..<Suc e} \<union> {A + 4 * Suc k..<A + 4 * Suc k + 4})"
    and e2: "entry m2 b A (Suc k) = b + of_nat (Suc e)" "m2 (b + of_nat e) = 0" by blast
  have s2: "same_on m1 m2 b (Suc e) (Suc L)" "same_on m1 m2 b d e" "same_on m1 m2 b (A + 4 * k) (A + 4 * k + 4)"
    by (rule changed_same_on [OF c2]; use Cons.prems(6) ks in auto)+
  have s: "same_on m m2 b (Suc e) (Suc L)" using same_on_trans [OF same_on_mono [OF s1] s2(1)] by simp
  have t2: "text_at m2 b (Suc e) (line (v # ws))" by (rule same_on_text [OF s tx(3)]) (use L in auto)
  have z2: "m2 (b + of_nat L) = 0" using same_onD [OF s, of L] Cons.prems(2) L by simp
  have j1: "unat (j + 1) = Suc (Suc k)" using Cons.prems(8) ks(1) by (simp add: unat_word_ariths)
  obtain m' where m': "split_loop (b + of_nat A) (b + of_nat (Suc e)) (j + 1) (n + 1) m2 = Some (j + 1 + of_nat (length ws), n + 1 + of_nat (length ws), m')"
    and c3: "changed m2 m' b ({Suc e..<L} \<union> {A + 4 * Suc k..<A + 4 * (Suc k + length ws) + 4})"
    and a: "\<And>i. i < length (v # ws) \<Longrightarrow> arg_at m' b A (Suc e) L (Suc k + i) (meant ((v # ws) ! i))"
    using Cons.IH [OF t2 z2 L _ e2(1) Cons.prems(6) ks(3) j1, of "n + 1"] Cons.prems(4) by auto
  have "arg_at m2 b A d e k (meant w)"
    by (rule cut_word_arg_at [OF m1(2) s2(2,3) e2(2)]) (use Cons.prems(4) meant_no_zero in simp)
  then have "arg_at m' b A d e k (meant w)"
    by (rule same_on_arg_at; intro changed_same_on [OF c3]) (use ks Cons.prems(6) in auto)
  then have a0: "arg_at m' b A d L k (meant w)" by (rule arg_at_mono) (use L in simp_all)
  have "arg_at m' b A d L (k + i) (meant ((w # v # ws) ! i))" if "i < length (w # v # ws)" for i
  proof (cases i)
    case (Suc i')
    then show ?thesis using arg_at_mono [OF a [of i'], of d L] that e_def by simp
  qed (use a0 in simp)
  moreover have "changed m m' b ({d..<L} \<union> {A + 4 * k..<A + 4 * (k + length (v # ws)) + 4})"
    using c1 c2 c3 by (rule changed_trans3) (use L e_def in auto)
  ultimately show ?case using m1(1) m2 m' by (intro exI [of _ m']) (simp add: add.commute add.left_commute)
qed

lemma split_args_cut:
  assumes "cstr m cmd (line (w # ws))" "\<forall>v\<in>set (w # ws). proper v" "load32 m args = cmd"
    and "length (line (w # ws)) < unat (args - cmd)" "unat (args - cmd) + 4 * length ws + 8 \<le> 2 ^ 32"
  shows "\<exists>m'. split_args args cmd m = Some (of_nat (Suc (length ws)), m') \<and>
    (\<forall>i\<le>length ws. cstr m' (load32 m' (args + 4 * of_nat i)) (meant ((w # ws) ! i))) \<and>
    load32 m' (args + 4 * of_nat (Suc (length ws))) = 0 \<and>
    changed m m' cmd ({0..<length (line (w # ws))} \<union> {unat (args - cmd)..<unat (args - cmd) + 4 * length ws + 8})"
proof -
  let ?A = "unat (args - cmd)" and ?L = "length (line (w # ws))" and ?n = "length ws"
  have A: "cmd + of_nat ?A = args" by simp
  have z: "m (cmd + of_nat ?L) = 0" and t: "text_at m cmd 0 (line (w # ws))" using assms(1) by (auto simp: cstr_iff text_at_def)
  obtain m1 where m1: "split_loop args cmd 1 1 m = Some (1 + of_nat ?n, 1 + of_nat ?n, m1)"
    and c1: "changed m m1 cmd ({0..<?L} \<union> {?A + 4 * 0..<?A + 4 * (0 + ?n) + 4})"
    and a: "\<And>i. i < length (w # ws) \<Longrightarrow> arg_at m1 cmd ?A 0 ?L (0 + i) (meant ((w # ws) ! i))"
    using split_words [OF t z _ assms(2), of ?A 0 1 1] assms(3-5) by auto
  let ?p = "cmd + of_nat (?A + 4 * Suc ?n)"
  have p: "args + 4 * (1 + of_nat ?n) = ?p" "args + 4 * of_nat (Suc ?n) = ?p" by simp_all
  have k: "kept m1 (store32 m1 ?p 0) cmd (?A + 4 * Suc ?n) (?A + 4 * Suc ?n + 4)" by (rule kept_store32) (use assms(5) in simp)
  have "cstr (store32 m1 ?p 0) (load32 (store32 m1 ?p 0) (args + 4 * of_nat i)) (meant ((w # ws) ! i))" if i: "i \<le> ?n" for i
  proof -
    have "arg_at m1 cmd ?A 0 ?L i (meant ((w # ws) ! i))" using a [of i] i by simp
    then have "arg_at (store32 m1 ?p 0) cmd ?A 0 ?L i (meant ((w # ws) ! i))"
      by (rule same_on_arg_at; intro kept_same_on [OF k]) (use assms(4,5) i in auto)
    then obtain u where u: "entry (store32 m1 ?p 0) cmd ?A i = cmd + of_nat u"
      "cstr (store32 m1 ?p 0) (cmd + of_nat u) (meant ((w # ws) ! i))" unfolding arg_at_def by blast
    have "args + 4 * of_nat i = cmd + of_nat (?A + 4 * i)" by simp
    then show ?thesis using u by (simp only:)
  qed
  moreover have "changed m (store32 m1 ?p 0) cmd ({0..<?L} \<union> {?A..<?A + 4 * ?n + 8})"
    using c1 kept_changed [OF k] by (rule changed_trans) auto
  moreover have "split_args args cmd m = Some (of_nat (Suc ?n), store32 m1 ?p 0)"
    using m1 by (simp only: split_args_def option.case prod.case p(1)) simp
  ultimately show ?thesis using p(2) by (intro exI [of _ "store32 m1 ?p 0"]) simp
qed

section \<open>Commands\<close>

text \<open>\<open>named m b A B p t\<close>: the string \<open>t\<close> at \<open>p\<close> lies apart from the line at \<open>b\<close> and the table at \<open>A\<close> to \<open>B\<close>.\<close>

definition named :: "mem \<Rightarrow> u32 \<Rightarrow> nat \<Rightarrow> nat \<Rightarrow> u32 \<Rightarrow> u8 list \<Rightarrow> bool" where
  "named m b A B p t \<longleftrightarrow> cstr m p t \<and> 129 \<le> unat (p - b) \<and>
     (unat (p - b) + length t < A \<or> B \<le> unat (p - b) \<and> unat (p - b) + length t < 2 ^ 32)"

lemma named_cstr:
  assumes "named m b A B p t" "changed m m' b X" "X \<subseteq> {0..<129} \<union> {A..<B}" "A < 2 ^ 32"
  shows "cstr m' p t"
proof -
  let ?d = "unat (p - b)"
  have t: "cstr m (b + of_nat ?d) t" and d: "129 \<le> ?d" "?d + length t < A \<or> B \<le> ?d \<and> ?d + length t < 2 ^ 32"
    using assms(1) by (auto simp: named_def)
  have "same_on m m' b ?d (?d + length t + 1)" by (rule changed_same_on [OF assms(2)]) (use assms(3,4) d in \<open>fastforce+\<close>)
  then have "cstr m' (b + of_nat ?d) t" by (rule same_on_cstr [OF _ t]) simp_all
  then show ?thesis by simp
qed

text \<open>Commands with other names, or without a name or function, are passed over.\<close>

definition other_command :: "mem \<Rightarrow> u8 list \<Rightarrow> shell_cmd \<Rightarrow> bool" where
  "other_command m s c \<longleftrightarrow> cmd_function c = None \<or> cmd_name c = 0 \<or> (\<exists>t. cstr m (cmd_name c) t \<and> length t < 2 ^ 32 \<and> t \<noteq> s)"

lemma find_command_other:
  assumes "cstr m (load32 m args) s" "length s < 2 ^ 32" "\<forall>c\<in>set cs. other_command m s c"
  shows "find_command (cs @ ds) args n found m = find_command ds args n found m"
  using assms(3)
proof (induction cs)
  case (Cons c cs)
  then have IH: "find_command (cs @ ds) args n found m = find_command ds args n found m" and o: "other_command m s c" by simp_all
  show ?case
  proof (cases "cmd_function c = None \<or> cmd_name c = 0")
    case True
    then show ?thesis using IH by (auto split: option.split)
  next
    case False
    then obtain t where "cstr m (cmd_name c) t" "length t < 2 ^ 32" "t \<noteq> s" using o by (auto simp: other_command_def)
    then obtain r where "strcmp m (load32 m args) (cmd_name c) = Some r" "r \<noteq> 0" using strcmp_zero_iff [OF assms(1) _ assms(2)] by blast
    then show ?thesis using IH False by auto
  qed
qed simp

lemma find_command_match:
  assumes "cstr m (load32 m args) s" "length s < 2 ^ 32" "cmd_function c = Some f" "cmd_name c \<noteq> 0" "cstr m (cmd_name c) s"
  shows "find_command (c # cs) args n found m = find_command cs args n True (f n args m)"
  using strcmp_zero_iff [OF assms(1,5,2,2)] assms(3,4) by auto

text \<open>The keys \<open>b\<close>, backspace and \<open>a 'b c'\<close>; a table with the command \<open>a\<close>, whose function does nothing.\<close>

definition demo_keys :: "u8 list" where
  "demo_keys = [98, 8, 97, 32, 39, 98, 32, 99, 39]"

definition demo_shell :: mem where
  "demo_shell = store32 ((\<lambda>_. 0)(0x2000 := 98, 0x2010 := 97)) 0x1100 0x1000"

definition demo_commands :: "shell_cmd list" where
  "demo_commands = register_shell_func 0x2010 (Some (\<lambda>n v m. m)) (register_shell_func 0x2000 (Some (\<lambda>n v m. \<lambda>_. 0)) [])"

text \<open>
  C7. A line that is typed runs its command: whatever backspaces were typed on the way, the first command of the table
  whose name is the first word of the line is called, with the number of words and the table of their addresses; each
  address is that of the word without its quotes, and a null pointer ends the table. The search then goes on.
\<close>

theorem typed_line_runs_command:
  fixes m :: mem and inp :: "nat \<Rightarrow> u8"
  defines "B ws args cmd \<equiv> unat (args - cmd) + 4 * length (ws :: word_t list) + 8"
  assumes keys: "fits [] ks" "\<And>j. j < length ks \<Longrightarrow> inp j = ks ! j" "inp (length ks) = 10" "edited [] ks = line (w # ws)"
    and words: "\<forall>v\<in>set (w # ws). proper v"
    and args: "load32 m args = cmd" "129 \<le> unat (args - cmd)" "B ws args cmd \<le> 2 ^ 32"
    and others: "\<forall>c\<in>set cs. cmd_function c \<noteq> None \<and> cmd_name c \<noteq> 0 \<longrightarrow>
      (\<exists>t. t \<noteq> meant w \<and> length t < 2 ^ 32 \<and> named m cmd (unat (args - cmd)) (B ws args cmd) (cmd_name c) t)"
    and match: "cmd_function c = Some f" "cmd_name c \<noteq> 0" "named m cmd (unat (args - cmd)) (B ws args cmd) (cmd_name c) (meant w)"
  shows "\<exists>m'. run_line inp (cs @ c # ds) args cmd m =
      find_command ds args (of_nat (Suc (length ws))) True (f (of_nat (Suc (length ws))) args m') \<and>
    (\<forall>i\<le>length ws. cstr m' (load32 m' (args + 4 * of_nat i)) (meant ((w # ws) ! i))) \<and>
    load32 m' (args + 4 * of_nat (Suc (length ws))) = 0"
proof -
  let ?A = "unat (args - cmd)" and ?L = "length (line (w # ws))" and ?n = "of_nat (Suc (length ws)) :: u32"
  have L: "?L \<le> 128" using fits_length [OF keys(1)] keys(4) by simp
  obtain m1 out where m1: "read_line inp cmd 0 0 m [] = Some (length ks, of_nat ?L, m1, out)" "cstr m1 cmd (line (w # ws))"
    "changed m m1 cmd {0..<129}" using read_line_at [of ks inp cmd m] keys by auto
  have "same_on m m1 cmd ?A (?A + 4)" by (rule changed_same_on [OF m1(3)]) (use args(2,3) in \<open>auto simp: B_def\<close>)
  then have a1: "load32 m1 args = cmd" using same_on_load32 [of m m1 cmd ?A "?A + 4" ?A] args(1) by simp
  obtain m2 where m2: "split_args args cmd m1 = Some (?n, m2)"
    "\<forall>i\<le>length ws. cstr m2 (load32 m2 (args + 4 * of_nat i)) (meant ((w # ws) ! i))" "load32 m2 (args + 4 * ?n) = 0"
    "changed m1 m2 cmd ({0..<?L} \<union> {?A..<B ws args cmd})"
    using split_args_cut [OF m1(2) words a1] L args(2,3) unfolding B_def by auto
  have ch: "changed m m2 cmd ({0..<129} \<union> {?A..<B ws args cmd})" using m1(3) m2(4) by (rule changed_trans) (use L in auto)
  have s: "cstr m2 (load32 m2 args) (meant w)" using m2(2) [rule_format, of 0] by simp
  have l: "length (meant w) < 2 ^ 32" using L length_meant [of w ws] by simp
  have nm: "cstr m2 p t" if "named m cmd ?A (B ws args cmd) p t" for p t by (rule named_cstr [OF that ch subset_refl]) (use unsigned_less [of "args - cmd"] in simp)
  have "\<forall>c\<in>set cs. other_command m2 (meant w) c" using others nm unfolding other_command_def by blast
  then have "find_command (cs @ c # ds) args ?n False m2 = find_command ds args ?n True (f ?n args m2)"
    using find_command_other [OF s l] find_command_match [OF s l match(1,2) nm [OF match(3)]] by simp
  then have "run_line inp (cs @ c # ds) args cmd m = find_command ds args ?n True (f ?n args m2)"
    using m1(1) m2(1) by (simp add: run_line_def)
  then show ?thesis using m2(2,3) by blast
qed

theorem typed_line_runs_command_witness:
  "\<exists>m'. run_line (\<lambda>n. (demo_keys @ [10]) ! n) demo_commands 0x1100 0x1000 demo_shell = Some (True, m') \<and>
    cstr m' (load32 m' 0x1100) [97] \<and> cstr m' (load32 m' 0x1104) [98, 32, 99] \<and> load32 m' 0x1108 = 0"
proof -
  have cs: "demo_commands = [\<lparr>cmd_name = 0x2000, cmd_help = 0, cmd_function = Some (\<lambda>n v m. \<lambda>_. 0)\<rparr>] @
      \<lparr>cmd_name = 0x2010, cmd_help = 0, cmd_function = Some (\<lambda>n v m. m)\<rparr> # []"
    by (simp add: demo_commands_def register_shell_func_def)
  have k: "fits [] demo_keys" "edited [] demo_keys = line [Plain [97], Quoted 39 [98, 32, 99] 39]"
    by (simp_all add: demo_keys_def edit_key_def)
  have w: "\<forall>v\<in>set [Plain [97], Quoted 39 [98, 32, 99] 39]. proper v" by (simp add: is_quote_def)
  have n: "cstr demo_shell 0x2000 [98]" "cstr demo_shell 0x2010 [97]" by (simp_all add: demo_shell_def store32_apply)
  then have o: "\<exists>t. t \<noteq> [97] \<and> length t < 2 ^ 32 \<and> named demo_shell 0x1000 0x100 0x10c 0x2000 t"
    and n: "named demo_shell 0x1000 0x100 0x10c 0x2010 [97]"
    by (auto simp: named_def intro!: exI [of _ "[98]"])
  have l: "load32 demo_shell 0x1100 = 0x1000" by (simp add: demo_shell_def)
  from typed_line_runs_command [of demo_keys "\<lambda>n. (demo_keys @ [10]) ! n" "Plain [97]" "[Quoted 39 [98, 32, 99] 39]" demo_shell "0x1100" "0x1000"
      "[\<lparr>cmd_name = 0x2000, cmd_help = 0, cmd_function = Some (\<lambda>n v m. \<lambda>_. 0)\<rparr>]" "\<lparr>cmd_name = 0x2010, cmd_help = 0, cmd_function = Some (\<lambda>n v m. m)\<rparr>"
      "\<lambda>n v m. m" "[]", OF k(1) _ _ k(2) w]
  obtain m' where m': "run_line (\<lambda>n. (demo_keys @ [10]) ! n) demo_commands 0x1100 0x1000 demo_shell = Some (True, m')"
    and a: "\<forall>i\<le>1. cstr m' (load32 m' (0x1100 + 4 * of_nat i)) (meant ([Plain [97], Quoted 39 [98, 32, 99] 39] ! i))"
    and z: "load32 m' 0x1108 = 0"
    using n o l by (auto simp: cs nth_append)
  show ?thesis using m' a [rule_format, of 0] a [rule_format, of 1] z by simp
qed

end
