(* ===== verification/Boot.thy ===== *)
theory Boot
  imports Vfs_Paths Keyboard
begin

text \<open>
  The part of \<open>kmain\<close> (\<open>kern/kmain.c\<close>) that sets up the files: the memory file system becomes the root, the first task gets
  it, \<open>/dev\<close> is made, and the keyboard driver is registered and mounted on \<open>/dev/kb0\<close>. The state joins the memory file
  system, the keyboard and the handlers under the virtual file system; the function tables lead to the operations of
  \<open>Ramfs\<close> and of \<open>Keyboard\<close>.

  \<open>arrive k n\<close> are the scan codes the handler is called with during the \<open>n\<close>-th \<open>sleep_thread\<close> of the \<open>k\<close>-th read of the device.
\<close>

section \<open>State and function tables\<close>

record boot =
  b_ram :: ramfs
  b_kb :: kb
  b_handlers :: handlers
  b_reads :: nat

text \<open>What \<open>file_system_t\<close> holds besides the function table and the private data.\<close>

record file_system_t =
  fs_name :: string
  fs_id :: u32
  fs_i_root :: u32

definition on_ram :: "(ramfs \<Rightarrow> (ramfs \<times> 'a) run) \<Rightarrow> boot \<Rightarrow> (boot \<times> 'a) run" where
  "on_ram f s = and_then (f (b_ram s)) (\<lambda>(r, x). done_with (s\<lparr>b_ram := r\<rparr>, x))"

definition ram_funcs :: "boot file_funcs_t" where
  "ram_funcs = \<lparr>f_pread = (\<lambda>node buf len off. on_ram (ramfs_pread node buf len off)),
     f_pwrite = (\<lambda>node buf len off. on_ram (ramfs_pwrite node buf len off)),
     f_mkdir = (\<lambda>node name mode. on_ram (ramfs_mkdir node name mode)),
     f_mknod = (\<lambda>node name mode dev. on_ram (ramfs_mknod node name mode dev)), f_unlink = (\<lambda>node. on_ram (ramfs_unlink node)),
     f_readdir = (\<lambda>node entry s. ramfs_readdir node entry (b_ram s)), f_open = (\<lambda>node name mode. on_ram (ramfs_open node name mode)),
     f_close = (\<lambda>node. on_ram (ramfs_close node)), f_get_info = (\<lambda>node s. ramfs_get_info node (b_ram s)),
     f_callback = (\<lambda>node op var val. on_ram (ramfs_callback node op var val))\<rparr>"

text \<open>The table \<open>kb_funcs\<close> has neither \<open>readdir\<close> nor \<open>callback\<close>: they are null pointers.\<close>

definition kb_unsupported :: "boot \<Rightarrow> (boot \<times> int) run" where
  "kb_unsupported s = done_with (s, - ENOTSUP)"

definition kb_pread :: "(nat \<Rightarrow> nat \<Rightarrow> u8 list) \<Rightarrow> file_node_t \<Rightarrow> u32 \<Rightarrow> u32 \<Rightarrow> u32 \<Rightarrow> boot \<Rightarrow> (boot \<times> u32) run" where
  "kb_pread arrive node buf len offset s =
    (case pread_kb (arrive (b_reads s)) len offset (b_kb s) of None \<Rightarrow> None
     | Some (out_buf, k, ret) \<Rightarrow>
         done_with (s\<lparr>b_kb := k, b_reads := b_reads s + 1, b_ram := (b_ram s)\<lparr>bytes := put_bytes buf out_buf (bytes (b_ram s))\<rparr>\<rparr>, ret))"

definition kb_funcs :: "(nat \<Rightarrow> nat \<Rightarrow> u8 list) \<Rightarrow> boot file_funcs_t" where
  "kb_funcs arrive = \<lparr>f_pread = kb_pread arrive, f_pwrite = (\<lambda>node buf len off s. done_with (s, of_int (- ENOTSUP))),
     f_mkdir = (\<lambda>node name mode. kb_unsupported), f_mknod = (\<lambda>node name mode dev. kb_unsupported), f_unlink = (\<lambda>node. kb_unsupported),
     f_readdir = (\<lambda>node entry s. Some (Inl Null_Deref)), f_open = (\<lambda>node name mode s. done_with (s, 1)),
     f_close = (\<lambda>node s. done_with (s, 0)), f_get_info = (\<lambda>node s. case kb_get_info node of (i, r) \<Rightarrow> done_with (Some i, r)),
     f_callback = (\<lambda>node op var val s. Some (Inl Null_Deref))\<rparr>"

definition boot_ops :: "(nat \<Rightarrow> nat \<Rightarrow> u8 list) \<Rightarrow> u32 \<Rightarrow> boot fs_table" where
  "boot_ops arrive kbfs f = (if f = kbfs then kb_funcs arrive else ram_funcs)"

section \<open>Operations\<close>

text \<open>What \<open>init_tasking\<close> gives to the first task for its files.\<close>

definition first_task :: "'s vfs \<Rightarrow> 's vfs" where
  "first_task v = v\<lparr>v_in_task := True, v_cwd := fs_root v, v_root := fs_root v, v_uid := 0, v_gid := 0,
     v_files := replicate MAX_FILES 0, v_file_count := 0\<rparr>"

text \<open>The body of the loop over the file systems, for the one at \<open>temp\<close>: the keyboard is known by its number 321.\<close>

definition mount_device :: "boot fs_table \<Rightarrow> (u32 \<Rightarrow> file_system_t) \<Rightarrow> u32 \<Rightarrow> boot vfs \<Rightarrow> boot vfs run" where
  "mount_device ops systems temp v =
    (if fs_id (systems temp) = 321 then
       let mountbuf = \<lparr>n_inode = fs_i_root (systems temp), n_fs = temp\<rparr>
       in and_then (mknod ops ''/dev/kb0'' 0x1ff FS_CHAR_D v) (\<lambda>(v1, _, _).
          and_then (fs_find_path ops ''dev/kb0'' v1) (\<lambda>(_, nd).
          with_node nd (\<lambda>nodebuf. and_then (fs_mount ops nodebuf mountbuf v1) (\<lambda>(v2, _).
          and_then (fs_find_path ops ''/dev/kb0'' v2) (\<lambda>_. done_with v2)))))
     else done_with v)"

partial_function (option) mount_devices :: "boot fs_table \<Rightarrow> (u32 \<Rightarrow> file_system_t) \<Rightarrow> u32 \<Rightarrow> boot vfs \<Rightarrow> boot vfs run" where
  "mount_devices ops systems blarg v =
    (if l_next (v_lists v blarg) \<noteq> 0 then
       and_then (mount_device ops systems (l_data (v_lists v blarg)) v) (\<lambda>v1. mount_devices ops systems (l_next (v_lists v1 blarg)) v1)
     else done_with v)"

text \<open>
  \<open>rfs\<close> and \<open>kbfs\<close> are the addresses of the two \<open>file_system_t\<close>, \<open>addr\<close> that of the keyboard handler, \<open>scancode\<close> what the
  keyboard port holds.
\<close>

definition boot_files :: "(nat \<Rightarrow> nat \<Rightarrow> u8 list) \<Rightarrow> u32 \<Rightarrow> u32 \<Rightarrow> u32 \<Rightarrow> u8 \<Rightarrow> boot vfs \<Rightarrow> boot vfs run" where
  "boot_files arrive rfs kbfs addr scancode v =
    (let ops = boot_ops arrive kbfs; d = v_data v; (r, i_root) = init_ramfs (b_ram d);
         systems = (\<lambda>f. if f = kbfs then \<lparr>fs_name = ''ps2keyboard'', fs_id = 321, fs_i_root = 0\<rparr>
                         else \<lparr>fs_name = ''ramfs'', fs_id = 0, fs_i_root = i_root\<rparr>)
     in case register_fs rfs (v\<lparr>v_data := d\<lparr>b_ram := r\<rparr>\<rparr>) of None \<Rightarrow> None
        | Some (v1, _) \<Rightarrow>
            let v2 = first_task (set_fs_root rfs i_root v1)
            in and_then (mkdir ops ''/dev'' 0x1c0 v2) (\<lambda>(v3, _, _).
               and_then (fs_find_path ops ''/dev'' v3) (\<lambda>_.
                 let d3 = v_data v3; (hs, k) = keyboard_create addr scancode (b_handlers d3) (b_kb d3)
                 in case register_fs kbfs (v3\<lparr>v_data := d3\<lparr>b_handlers := hs, b_kb := k\<rparr>\<rparr>) of None \<Rightarrow> None
                    | Some (v4, _) \<Rightarrow> mount_devices ops systems (file_system_list v4) v4)))"

section \<open>The interface of the directories\<close>

lemma on_ram_done: "f (b_ram s) = done_with (r, x) \<Longrightarrow> on_ram f s = done_with (s\<lparr>b_ram := r\<rparr>, x)"
  by (simp add: on_ram_def)

lemma boot_ops_ram: "f \<noteq> kbfs \<Longrightarrow> boot_ops arrive kbfs f = ram_funcs"
  by (simp add: boot_ops_def)

text \<open>The nodes of every file system but the keyboard show the directories of the memory file system.\<close>

interpretation boot_dirs: directory_fs "boot_ops arrive kbfs" "\<lambda>f. f \<noteq> kbfs" "\<lambda>s. dir_is (b_ram s)" "\<lambda>s. node_is (b_ram s)" for arrive kbfs
proof
  fix nd :: file_node_t and s :: boot and xs and n :: nat
  assume "n_fs nd \<noteq> kbfs" "dir_is (b_ram s) (n_inode nd) xs" "n \<le> length xs" "n < 2 ^ 31"
  then show "\<exists>w. f_readdir (file_funcs (boot_ops arrive kbfs) nd) nd (of_nat n) s = done_with (w, if n < length xs then 1 else 0) \<and>
    (n < length xs \<longrightarrow> (\<exists>e. w = Some e \<and> de_name e = fst (xs ! n) \<and> de_inode e = snd (xs ! n))) \<and> (n = length xs \<longrightarrow> w = None)"
    using ramfs_readdir_nth by (simp add: boot_ops_ram ram_funcs_def)
next
  fix nd :: file_node_t and s :: boot and ty m
  assume "n_fs nd \<noteq> kbfs" "node_is (b_ram s) (n_inode nd) ty m"
  then show "\<exists>i. f_get_info (file_funcs (boot_ops arrive kbfs) nd) nd s = done_with (Some i, 0) \<and> fi_type i = ty \<and> fi_mount_id i = m"
    using ramfs_get_info_node by (simp add: boot_ops_ram ram_funcs_def)
qed

lemma short_dev_names: "length ''dev'' < 256" "length ''kb0'' < 256"
  by simp_all

lemma set_mount_id:
  assumes "node_is r (n_inode nd) ty m"
  shows "\<exists>r'. ramfs_callback nd FOP_SET FVAR_MOUNT_ID val r = done_with (r', 0) \<and> node_is r' (n_inode nd) ty val \<and>
    (\<forall>i xs. dir_is r i xs \<longrightarrow> dir_is r' i xs) \<and> (\<forall>j ty m. j \<noteq> n_inode nd \<longrightarrow> node_is r j ty m \<longrightarrow> node_is r' j ty m)"
proof -
  obtain hs es p where p: "ramfs_ok r hs es" "p \<in> set hs" "n_inode nd = h_inode (headers r p)" "h_type (headers r p) = ty"
    using assms by (auto simp: node_is_def)
  let ?r = "upd_header p (\<lambda>h. h\<lparr>h_mount_id := val\<rparr>) r"
  have h: "hlinks ?r = hlinks r" "(\<lambda>a. h_inode (headers ?r a)) = (\<lambda>a. h_inode (headers r a))" "elinks ?r = elinks r"
    "h_type (headers ?r a) = h_type (headers r a)" "h_data (headers ?r a) = h_data (headers r a)" for a
    by (auto simp: fun_eq_iff)
  have ok: "ramfs_ok ?r hs' es'" if "ramfs_ok r hs' es'" for hs' es'
    using that h unfolding ramfs_ok_def dirs_ok_def names_ok_def by (simp add: fun_eq_iff)
  have "ramfs_callback nd FOP_SET FVAR_MOUNT_ID val r = done_with (?r, 0)"
    using file_h_ok(2,3) [OF p(1-3)] by (simp add: ramfs_callback_def)
  moreover have "node_is ?r (n_inode nd) ty val"
    unfolding node_is_def using ok [OF p(1)] p by (intro exI [of _ hs] exI [of _ es] exI [of _ p]) simp
  moreover have "dir_is ?r i xs" if "dir_is r i xs" for i xs
    using that ok unfolding dir_is_def listing_def by (fastforce simp: h)
  moreover have "node_is ?r j ty' m'" if j: "j \<noteq> n_inode nd" "node_is r j ty' m'" for j ty' m'
  proof -
    obtain hs' es' q where q: "ramfs_ok r hs' es'" "q \<in> set hs'" "h_inode (headers r q) = j" "h_type (headers r q) = ty'"
      "h_mount_id (headers r q) = m'" using j(2) by (auto simp: node_is_def)
    then have "q \<noteq> p" using j(1) p(3) by auto
    then show ?thesis unfolding node_is_def using ok [OF q(1)] q by (intro exI [of _ hs'] exI [of _ es'] exI [of _ q]) simp
  qed
  ultimately show ?thesis by blast
qed

section \<open>Lists of file systems and mounts\<close>

lemma last_link_1: "nx a = 0 \<Longrightarrow> last_link nx a = Some a"
  by (subst last_link.simps) simp

lemma last_link_2: "nx a = b \<Longrightarrow> b \<noteq> 0 \<Longrightarrow> nx b = 0 \<Longrightarrow> last_link nx a = Some b"
  by (subst last_link.simps) (simp add: last_link_1)

lemma register_first:
  assumes "file_system_list v = 0" "a0 = v_blk v (v_taken v)" "a1 = v_blk v (v_taken v + 1)" "a0 \<noteq> 0" "a0 \<noteq> a1"
  obtains ls where "register_fs f v = Some (v\<lparr>file_system_list := a0, v_lists := ls, v_taken := v_taken v + 2\<rparr>, 0)"
    "l_next (ls a0) = a1" "l_data (ls a0) = f" "l_next (ls a1) = 0"
proof -
  let ?l = "(v_lists v)(a0 := zero_llist)"
  have "l_last ?l a0 = Some a0" unfolding l_last_def by (rule last_link_1) (simp add: zero_llist_def)
  then show thesis
    using that [of "(?l(a1 := (?l a1)\<lparr>l_next := 0, l_prev := a0\<rparr>))(a0 := zero_llist\<lparr>l_next := a1, l_data := f\<rparr>)"] assms
    by (simp add: register_fs_def l_add_node_end_def Let_def fun_upd_twist)
qed

lemma register_next:
  assumes "file_system_list v = a0" "a0 \<noteq> 0" "l_next (v_lists v a0) = a1" "a1 \<noteq> 0" "a1 \<noteq> a0" "l_next (v_lists v a1) = 0"
    and "a2 = v_blk v (v_taken v)" "a2 \<noteq> a0" "a2 \<noteq> a1"
  obtains ls where "register_fs f v = Some (v\<lparr>v_lists := ls, v_taken := v_taken v + 1\<rparr>, 0)"
    "l_next (ls a0) = a1" "l_data (ls a0) = l_data (v_lists v a0)" "l_next (ls a1) = a2" "l_data (ls a1) = f" "l_next (ls a2) = 0"
proof -
  let ?l = "v_lists v"
  let ?l1 = "(?l(a2 := (?l a2)\<lparr>l_next := 0\<rparr>))(a1 := (?l a1)\<lparr>l_next := a2\<rparr>)"
  let ?l2 = "(?l1(a2 := (?l a2)\<lparr>l_next := 0, l_prev := a1\<rparr>))(a1 := (?l a1)\<lparr>l_next := a2, l_data := f\<rparr>)"
  have "l_last ?l a0 = Some a1" unfolding l_last_def by (rule last_link_2) (use assms in auto)
  then have "l_add_node_end a2 a0 f ?l = Some (?l2, a2)" using assms(2,8,9) by (simp add: l_add_node_end_def Let_def)
  then have "register_fs f v = Some (v\<lparr>v_lists := ?l2, v_taken := v_taken v + 1\<rparr>, 0)"
    using assms(1,2,7) by (simp add: register_fs_def)
  then show thesis by (rule that) (use assms(3,5,8,9) in simp_all)
qed

lemma register_mount_first:
  fixes v :: "'s vfs"
  assumes "mount_list v = 0" "b = v_blk v (v_taken v)" "m0 = v_blk v (v_taken v + 1)" "m1 = v_blk v (v_taken v + 2)"
    and "b \<noteq> 0" "m0 \<noteq> 0" "m1 \<noteq> 0" "m0 \<noteq> m1" "mount_ids v + 1 \<noteq> 0"
  obtains ls where "register_mount_node node v = Some (v\<lparr>v_nodes := (v_nodes v)(b := node), v_lists := ls, v_taken := v_taken v + 3,
      mount_list := m0, mount_ids := mount_ids v + 1\<rparr>, mount_ids v + 1)"
    "\<And>a. a \<noteq> m0 \<Longrightarrow> a \<noteq> m1 \<Longrightarrow> ls a = v_lists v a"
    "\<And>w :: 's vfs. v_lists w = ls \<Longrightarrow> mount_list w = m0 \<Longrightarrow> get_mount_node (mount_ids v + 1) w = done_with (Some (v_nodes w b), 1)"
proof -
  let ?l = "(v_lists v)(m0 := zero_llist)" and ?mid = "mount_ids v + 1"
  let ?ls = "(?l(m1 := (?l m1)\<lparr>l_next := 0, l_prev := m0, l_data := b, l_val := ?mid\<rparr>))(m0 := zero_llist\<lparr>l_next := m1, l_data := 0\<rparr>)"
  have ll: "l_last ?l m0 = Some m0" unfolding l_last_def by (rule last_link_1) (simp add: zero_llist_def)
  have "register_mount_node node v = Some (v\<lparr>v_nodes := (v_nodes v)(b := node), v_lists := ?ls, v_taken := v_taken v + 3,
      mount_list := m0, mount_ids := ?mid\<rparr>, ?mid)"
    using assms ll by (simp add: register_mount_node_def l_add_node_end_def Let_def fun_upd_twist)
  moreover have "?ls a = v_lists v a" if "a \<noteq> m0" "a \<noteq> m1" for a using that by simp
  moreover have "get_mount_node ?mid w = done_with (Some (v_nodes w b), 1)" if w: "v_lists w = ?ls" "mount_list w = m0" for w :: "'s vfs"
  proof -
    have "l_val (?ls m0) = 0" "l_next (?ls m0) = m1" "l_val (?ls m1) = ?mid" "l_data (?ls m1) = b"
      using assms(8) by (simp_all add: zero_llist_def)
    then have "find_link (\<lambda>a. l_next (v_lists w a)) (\<lambda>a. l_val (v_lists w a) = ?mid) (mount_list w) = Some m1"
      unfolding w using assms(6,7,9) by (subst find_link.simps, subst find_link.simps) simp
    then show ?thesis using assms(5,7) w(1) \<open>l_data (?ls m1) = b\<close> by (simp add: get_mount_node_def)
  qed
  ultimately show thesis by (rule that)
qed

section \<open>The boot sequence\<close>

text \<open>The blocks the sequence asks for are distinct.\<close>

definition boot_blocks :: "boot vfs \<Rightarrow> bool" where
  "boot_blocks v \<longleftrightarrow> (let r = b_ram (v_data v) in
     inj_on (blk r) {taken r..<taken r + 9} \<and> 0 \<notin> blk r ` {taken r..<taken r + 9} \<and>
     distinct (0 # map (\<lambda>i. v_blk v (v_taken v + i)) [0, 1, 2, 3, 4, 5, 6, 7, 8]))"

lemma init_stocked:
  assumes "inj_on (blk r) {taken r..<taken r + 9}" "0 \<notin> blk r ` {taken r..<taken r + 9}"
  shows "stocked 6 (fst (init_ramfs r))"
proof -
  let ?r = "fst (init_ramfs r)"
  have t: "blk ?r = blk r" "taken ?r = taken r + 3" by (simp_all add: init_ramfs_def Let_def)
  have root: "blk r (taken r + 2) \<noteq> 0" using assms(2) by (auto simp: image_iff dest!: bspec [of _ _ "taken r + 2"])
  have "blk r i \<noteq> 0 \<and> blk r i \<noteq> blk r (taken r + 2)" if "i \<in> {taken r + 3..<taken r + 3 + 6}" for i
    using that assms(2) inj_onD [OF assms(1), of i "taken r + 2"] by (auto simp: image_iff)
  moreover have "inj_on (blk r) {taken r + 3..<taken r + 3 + 6}" by (rule inj_on_subset [OF assms(1)]) auto
  ultimately show ?thesis
    using ramfs_ok_unique [OF init_ramfs_ok(1) [OF root]] unfolding stocked_def t by fastforce
qed

abbreviation rt_node :: "u32 \<Rightarrow> file_node_t" where
  "rt_node rfs \<equiv> \<lparr>n_inode = 1, n_fs = rfs\<rparr>"

text \<open>Paths of a task start at the root of the memory file system.\<close>

definition rooted :: "u32 \<Rightarrow> 's vfs \<Rightarrow> bool" where
  "rooted rfs v \<longleftrightarrow> v_in_task v \<and> v_cwd v = v_root v \<and> v_nodes v (v_root v) = rt_node rfs"

lemma rooted_paths:
  assumes "rooted rfs v"
  shows "fs_find_path ops ''/dev'' v = fs_find_node ops (rt_node rfs) ''dev'' v"
    "fs_find_path ops ''/dev/kb0'' v = fs_find_node ops (rt_node rfs) ''dev/kb0'' v"
    "fs_find_path ops ''dev/kb0'' v = fs_find_node ops (rt_node rfs) ''dev/kb0'' v"
    "fs_find_path ops ''/'' v = done_with (0, Some (rt_node rfs))"
  using assms by (simp_all add: fs_find_path_def rooted_def)

lemma boot_find_node:
  assumes "n_fs nd \<noteq> kbfs" "node_is (b_ram (v_data v)) (n_inode nd) ty m"
  obtains i where "fi_type i = ty" "fs_find_node (boot_ops arrive kbfs) nd path v =
    find_walk (boot_ops arrive kbfs) v nd i (v_scratch v) (path_names path)"
proof -
  from boot_dirs.get_kind [OF assms(1), of "v_data v" ty m arrive] assms(2) obtain i where
    "f_get_info (file_funcs (boot_ops arrive kbfs) nd) nd (v_data v) = done_with (Some i, 0)" "fi_type i = ty" by blast
  then show thesis using that [of i] by (simp add: fs_find_node_def)
qed

text \<open>
  What the memory file system holds during the sequence: \<open>dev_tree r n\<close> when there is \<open>/dev\<close> with the entries \<open>xs\<close>.
\<close>

definition dev_tree :: "ramfs \<Rightarrow> (string \<times> u32) list \<Rightarrow> bool" where
  "dev_tree r xs \<longleftrightarrow> dir_is r 1 [(''dev'', 2)] \<and> node_is r 1 FS_DIR 0 \<and> dir_is r 2 xs \<and> node_is r 2 FS_DIR 0"

lemma find_dev:
  assumes "rooted rfs v" "rfs \<noteq> kbfs" "dev_tree (b_ram (v_data v)) xs"
  shows "fs_find_path (boot_ops arrive kbfs) ''/dev'' v = done_with (0, Some \<lparr>n_inode = 2, n_fs = rfs\<rparr>)"
proof -
  have t: "dir_is (b_ram (v_data v)) 1 [(''dev'', 2)]" "node_is (b_ram (v_data v)) 1 FS_DIR 0" "node_is (b_ram (v_data v)) 2 FS_DIR 0"
    using assms(3) by (auto simp: dev_tree_def)
  obtain i where i: "fi_type i = FS_DIR" "fs_find_node (boot_ops arrive kbfs) (rt_node rfs) ''dev'' v =
      find_walk (boot_ops arrive kbfs) v (rt_node rfs) i (v_scratch v) [''dev'']"
    by (rule boot_find_node [of "rt_node rfs" kbfs v FS_DIR 0 arrive "''dev''"]) (use assms(2) t in auto)
  have "find_walk (boot_ops arrive kbfs) v (rt_node rfs) i (v_scratch v) [''dev''] = done_with (0, Some \<lparr>n_inode = 2, n_fs = rfs\<rparr>)"
    using boot_dirs.find_walk_step [of "rt_node rfs" kbfs v "[(''dev'', 2)]" i "''dev''" 2 FS_DIR 0 arrive "v_scratch v" "[]"] t i(1) assms(2)
    by (auto simp: Let_def simp del: find_walk.simps)
  then show ?thesis using rooted_paths(1) [OF assms(1)] i(2) by simp
qed

lemma find_in_dev:
  assumes "rfs \<noteq> kbfs" "dev_tree (b_ram (v_data v)) xs" "length xs < 2 ^ 31"
  obtains i d where "fi_type i = FS_DIR" "fs_find_node (boot_ops arrive kbfs) (rt_node rfs) ''dev/kb0'' v =
    find_walk (boot_ops arrive kbfs) v \<lparr>n_inode = 2, n_fs = rfs\<rparr> i d [''kb0'']"
proof -
  have t: "dir_is (b_ram (v_data v)) 1 [(''dev'', 2)]" "node_is (b_ram (v_data v)) 1 FS_DIR 0" "node_is (b_ram (v_data v)) 2 FS_DIR 0"
    using assms(2) by (auto simp: dev_tree_def)
  obtain i where i: "fi_type i = FS_DIR" "fs_find_node (boot_ops arrive kbfs) (rt_node rfs) ''dev/kb0'' v =
      find_walk (boot_ops arrive kbfs) v (rt_node rfs) i (v_scratch v) [''dev'', ''kb0'']"
    by (rule boot_find_node [of "rt_node rfs" kbfs v FS_DIR 0 arrive "''dev/kb0''"]) (use assms(1) t in auto)
  from boot_dirs.find_walk_step [of "rt_node rfs" kbfs v "[(''dev'', 2)]" i "''dev''" 2 FS_DIR 0 arrive "v_scratch v" "[''kb0'']"] t i(1) assms(1)
  obtain i' d' where "fi_type i' = FS_DIR" "find_walk (boot_ops arrive kbfs) v (rt_node rfs) i (v_scratch v) [''dev'', ''kb0''] =
      find_walk (boot_ops arrive kbfs) v \<lparr>n_inode = 2, n_fs = rfs\<rparr> i' d' [''kb0'']"
    by (auto simp: Let_def simp del: find_walk.simps)
  then show thesis using that i(2) by simp
qed

lemma find_kb_missing:
  assumes "rfs \<noteq> kbfs" "dev_tree (b_ram (v_data v)) []"
  shows "fs_find_node (boot_ops arrive kbfs) (rt_node rfs) ''dev/kb0'' v = done_with (- ENOENT, None)"
proof (rule find_in_dev [OF assms, of arrive], simp)
  fix i d
  assume i: "fi_type i = FS_DIR" "fs_find_node (boot_ops arrive kbfs) (rt_node rfs) ''dev/kb0'' v =
    find_walk (boot_ops arrive kbfs) v \<lparr>n_inode = 2, n_fs = rfs\<rparr> i d [''kb0'']"
  have "find_walk (boot_ops arrive kbfs) v \<lparr>n_inode = 2, n_fs = rfs\<rparr> i d [''kb0''] = done_with (- ENOENT, None)"
    by (rule boot_dirs.find_walk_missing [where xs = "[]"]) (use assms i(1) in \<open>auto simp: dev_tree_def\<close>)
  then show ?thesis using i(2) by simp
qed

text \<open>The search for the device follows the mount.\<close>

lemma find_kb:
  assumes "rfs \<noteq> kbfs" "dev_tree (b_ram (v_data v)) [(''kb0'', 3)]" "node_is (b_ram (v_data v)) 3 FS_CHAR_D m"
    and "m \<noteq> 0 \<Longrightarrow> get_mount_node m v = done_with (Some nd, 1)"
  shows "fs_find_node (boot_ops arrive kbfs) (rt_node rfs) ''dev/kb0'' v =
    done_with (0, Some (if m = 0 then \<lparr>n_inode = 3, n_fs = rfs\<rparr> else nd))"
proof (rule find_in_dev [OF assms(1,2), of arrive], simp)
  fix i d
  assume i: "fi_type i = FS_DIR" "fs_find_node (boot_ops arrive kbfs) (rt_node rfs) ''dev/kb0'' v =
    find_walk (boot_ops arrive kbfs) v \<lparr>n_inode = 2, n_fs = rfs\<rparr> i d [''kb0'']"
  have "find_walk (boot_ops arrive kbfs) v \<lparr>n_inode = 2, n_fs = rfs\<rparr> i d [''kb0''] =
      done_with (0, Some (if m = 0 then \<lparr>n_inode = 3, n_fs = rfs\<rparr> else nd))"
    using boot_dirs.find_walk_step [of "\<lparr>n_inode = 2, n_fs = rfs\<rparr>" kbfs v "[(''kb0'', 3)]" i "''kb0''" 3 FS_CHAR_D m arrive d "[]"] assms i(1)
    by (cases "m = 0") (auto simp: dev_tree_def Let_def simp del: find_walk.simps)
  then show ?thesis using i(2) by simp
qed

lemma dev_tree_keeps:
  assumes "dev_tree r xs" "grows 2 xs name r r'"
  shows "dev_tree r' (xs @ [(name, ramfs_i_count r)])"
  using assms unfolding dev_tree_def grows_def by auto

text \<open>The node at \<open>b\<close> is the root of the keyboard driver and the search ends there, as long as it and the lists stay.\<close>

definition kb_mounted :: "(nat \<Rightarrow> nat \<Rightarrow> u8 list) \<Rightarrow> u32 \<Rightarrow> u32 \<Rightarrow> u32 \<Rightarrow> boot vfs \<Rightarrow> bool" where
  "kb_mounted arrive rfs kbfs b v \<longleftrightarrow> v_nodes v b = \<lparr>n_inode = 0, n_fs = kbfs\<rparr> \<and>
    (\<forall>w. rooted rfs w \<longrightarrow> v_data w = v_data v \<longrightarrow> v_lists w = v_lists v \<longrightarrow> mount_list w = mount_list v \<longrightarrow>
       v_nodes w b = \<lparr>n_inode = 0, n_fs = kbfs\<rparr> \<longrightarrow>
       fs_find_path (boot_ops arrive kbfs) ''/dev/kb0'' w = done_with (0, Some \<lparr>n_inode = 0, n_fs = kbfs\<rparr>))"

lemma kb_mounted_find:
  "kb_mounted arrive rfs kbfs b v \<Longrightarrow> rooted rfs v \<Longrightarrow>
    fs_find_path (boot_ops arrive kbfs) ''/dev/kb0'' v = done_with (0, Some \<lparr>n_inode = 0, n_fs = kbfs\<rparr>)"
  by (simp add: kb_mounted_def)

lemma mount_keyboard:
  assumes v: "rooted rfs v" "rfs \<noteq> kbfs" "dev_tree (b_ram (v_data v)) []" "ramfs_i_count (b_ram (v_data v)) = 3" "stocked 3 (b_ram (v_data v))"
    and m: "mount_list v = 0" "mount_ids v = 1" "b = v_blk v (v_taken v)" "m0 = v_blk v (v_taken v + 1)" "m1 = v_blk v (v_taken v + 2)"
      "distinct [b, m0, m1]" "0 \<notin> {b, m0, m1}" "b \<noteq> v_root v"
    and systems: "systems kbfs = \<lparr>fs_name = ''ps2keyboard'', fs_id = 321, fs_i_root = 0\<rparr>"
  shows "\<exists>v'. mount_device (boot_ops arrive kbfs) systems kbfs v = done_with v' \<and> rooted rfs v' \<and>
    kb_mounted arrive rfs kbfs b v' \<and>
    b_kb (v_data v') = b_kb (v_data v) \<and> b_reads (v_data v') = b_reads (v_data v) \<and> v_files v' = v_files v \<and>
    v_file_count v' = v_file_count v \<and> v_blk v' = v_blk v \<and> v_taken v' = v_taken v + 3 \<and> v_root v' = v_root v \<and>
    (\<forall>a. a \<noteq> m0 \<longrightarrow> a \<noteq> m1 \<longrightarrow> v_lists v' a = v_lists v a)"
proof -
  let ?ops = "boot_ops arrive kbfs" and ?r = "b_ram (v_data v)" and ?dev = "\<lparr>n_inode = 2, n_fs = rfs\<rparr>" and ?kb = "\<lparr>n_inode = 3, n_fs = rfs\<rparr>"
  let ?top = "\<lparr>n_inode = 0, n_fs = kbfs\<rparr>"
  have c: "cut_path ''/dev/kb0'' = (''/dev'', ''/dev'', ''kb0'')" by (simp add: cut_path_def base_name_def Let_def)
  have "dir_is ?r (n_inode ?dev) []" "ramfs_i_count ?r < - 1" using v(3,4) by (simp_all add: dev_tree_def)
  then obtain r1 where r1: "ramfs_mknod ?dev ''kb0'' 0x1ff FS_CHAR_D ?r = done_with (r1, 0)" "grows 2 [] ''kb0'' ?r r1" "node_is r1 3 FS_CHAR_D 0"
    using ramfs_mknod_adds [of ?r ?dev "[]" "''kb0''" "0x1ff" FS_CHAR_D] stocked_fresh [OF v(5)] v(4) short_dev_names by (metis file_node_t.select_convs(1) order_refl)
  let ?v1 = "v\<lparr>v_data := (v_data v)\<lparr>b_ram := r1\<rparr>\<rparr>"
  have f1: "fs_find_path ?ops ''/dev/kb0'' v = done_with (- ENOENT, None)" "fs_find_path ?ops ''/dev'' v = done_with (0, Some ?dev)"
    using rooted_paths(2) [OF v(1)] find_kb_missing [OF v(2,3)] find_dev [OF v(1-3)] by simp_all
  then have mk: "mknod ?ops ''/dev/kb0'' 0x1ff FS_CHAR_D v = done_with (?v1, ''/dev'', 0)"
    using c r1(1) v(2) by (simp add: mknod_def with_node_def boot_ops_ram ram_funcs_def on_ram_def)
  have t1: "dev_tree r1 [(''kb0'', 3)]" using dev_tree_keeps [OF v(3) r1(2)] v(4) by simp
  have rt1: "rooted rfs ?v1" using v(1) by (simp add: rooted_def)
  have f2: "fs_find_path ?ops ''dev/kb0'' ?v1 = done_with (0, Some ?kb)"
    using rooted_paths(3) [OF rt1] find_kb [OF v(2), of ?v1 0] t1 r1(3) by simp
  obtain ls where reg: "register_mount_node ?top ?v1 = Some (?v1\<lparr>v_nodes := (v_nodes v)(b := ?top), v_lists := ls, v_taken := v_taken v + 3,
      mount_list := m0, mount_ids := 2\<rparr>, 2)" "\<And>a. a \<noteq> m0 \<Longrightarrow> a \<noteq> m1 \<Longrightarrow> ls a = v_lists v a"
    "\<And>w :: boot vfs. v_lists w = ls \<Longrightarrow> mount_list w = m0 \<Longrightarrow> get_mount_node 2 w = done_with (Some (v_nodes w b), 1)"
    using register_mount_first [of ?v1 b m0 m1 ?top] m by auto
  obtain r2 where r2: "ramfs_callback ?kb FOP_SET FVAR_MOUNT_ID 2 r1 = done_with (r2, 0)" "node_is r2 3 FS_CHAR_D 2"
    "\<And>i xs. dir_is r1 i xs \<Longrightarrow> dir_is r2 i xs" "\<And>j ty m. j \<noteq> 3 \<Longrightarrow> node_is r1 j ty m \<Longrightarrow> node_is r2 j ty m"
    using set_mount_id [of r1 ?kb FS_CHAR_D 0 2] r1(3) by auto
  let ?v2 = "?v1\<lparr>v_nodes := (v_nodes v)(b := ?top), v_lists := ls, v_taken := v_taken v + 3, mount_list := m0, mount_ids := 2,
      v_data := (v_data v)\<lparr>b_ram := r2\<rparr>\<rparr>"
  have mt: "fs_mount ?ops ?kb ?top ?v1 = done_with (?v2, 0)"
    using reg(1) r2(1) v(2) by (simp add: fs_mount_def boot_ops_ram ram_funcs_def on_ram_def)
  have rt2: "rooted rfs ?v2" using v(1) m(8) by (simp add: rooted_def)
  have t2: "dev_tree (b_ram (v_data ?v2)) [(''kb0'', 3)]" using t1 r2(3,4) by (simp add: dev_tree_def)
  have "fs_find_path ?ops ''/dev/kb0'' w = done_with (0, Some ?top)"
    if w: "rooted rfs w" "v_data w = v_data ?v2" "v_lists w = v_lists ?v2" "mount_list w = mount_list ?v2" "v_nodes w b = ?top" for w
    using rooted_paths(2) [OF w(1)] find_kb [OF v(2) t2 [folded w(2)], of 2 ?top arrive] reg(3) [of w] r2(2) w by simp
  then have kbm: "kb_mounted arrive rfs kbfs b ?v2" by (simp add: kb_mounted_def)
  then have f3: "fs_find_path ?ops ''/dev/kb0'' ?v2 = done_with (0, Some ?top)" by (rule kb_mounted_find) (rule rt2)
  have "mount_device ?ops systems kbfs v = done_with ?v2"
    using mk f2 mt f3 by (simp add: mount_device_def systems with_node_def)
  then show ?thesis using rt2 kbm reg(2) by (intro exI [of _ ?v2]) simp
qed

lemma mount_devices_2:
  assumes "l_next (v_lists v a0) = a1" "l_next (v_lists v a1) = a2" "distinct [0, a1, a2]" "l_data (v_lists v a0) = f" "fs_id (systems f) \<noteq> 321"
    and "mount_device ops systems (l_data (v_lists v a1)) v = done_with v'" "v_lists v' a1 = v_lists v a1" "l_next (v_lists v' a2) = 0"
  shows "mount_devices ops systems a0 v = done_with v'"
proof -
  have "mount_device ops systems f v = done_with v" using assms(5) by (simp add: mount_device_def)
  then have "mount_devices ops systems a0 v = mount_devices ops systems a1 v" using assms(1,3,4) by (subst mount_devices.simps) simp
  also have "\<dots> = mount_devices ops systems a2 v'" using assms(2,3,6,7) by (subst mount_devices.simps) simp
  also have "\<dots> = done_with v'" using assms(8) by (subst mount_devices.simps) simp
  finally show ?thesis .
qed

lemma make_dev:
  assumes "rooted rfs v" "rfs \<noteq> kbfs" "dir_is (b_ram (v_data v)) 1 []" "node_is (b_ram (v_data v)) 1 FS_DIR 0"
    "ramfs_i_count (b_ram (v_data v)) = 2" "stocked 6 (b_ram (v_data v))"
  obtains r where "mkdir (boot_ops arrive kbfs) ''/dev'' mode v = done_with (v\<lparr>v_data := (v_data v)\<lparr>b_ram := r\<rparr>\<rparr>, ''/dev'', 0)"
    "dev_tree r []" "ramfs_i_count r = 3" "stocked 3 r"
proof -
  let ?ops = "boot_ops arrive kbfs" and ?r = "b_ram (v_data v)"
  obtain i where i: "fi_type i = FS_DIR" "fs_find_node ?ops (rt_node rfs) ''dev'' v = find_walk ?ops v (rt_node rfs) i (v_scratch v) [''dev'']"
    by (rule boot_find_node [of "rt_node rfs" kbfs v FS_DIR 0 arrive "''dev''"]) (use assms in auto)
  have "find_walk ?ops v (rt_node rfs) i (v_scratch v) [''dev''] = done_with (- ENOENT, None)"
    by (rule boot_dirs.find_walk_missing [where xs = "[]"]) (use assms i(1) in auto)
  then have f: "fs_find_path ?ops ''/dev'' v = done_with (- ENOENT, None)" using rooted_paths(1) [OF assms(1)] i(2) by simp
  have "dir_is ?r (n_inode (rt_node rfs)) []" "ramfs_i_count ?r < - 1" "fresh_blocks ?r"
    using assms(3,5) stocked_fresh [OF assms(6)] by simp_all
  then obtain r where r: "ramfs_mkdir (rt_node rfs) ''dev'' mode ?r = done_with (r, 0)" "grows 1 [] ''dev'' ?r r" "node_is r 2 FS_DIR 0" "dir_is r 2 []"
    using ramfs_mkdir_adds [of ?r "rt_node rfs" "[]" "''dev''" mode] assms(5) short_dev_names by (metis file_node_t.select_convs(1))
  have "mkdir ?ops ''/dev'' mode v = done_with (v\<lparr>v_data := (v_data v)\<lparr>b_ram := r\<rparr>\<rparr>, ''/dev'', 0)"
    using f rooted_paths(4) [OF assms(1)] r(1) assms(2)
    by (simp add: mkdir_def with_node_def cut_path_def boot_ops_ram ram_funcs_def on_ram_def)
  moreover have "dev_tree r []" using r assms(4,5) by (auto simp: dev_tree_def grows_def)
  moreover have "stocked 3 r" "ramfs_i_count r = 3" using r(2) assms(5,6) by (auto simp: grows_def)
  ultimately show thesis using that by blast
qed

text \<open>The sequence up to the first task: the list of file systems has the node \<open>a0\<close> and, empty, \<open>a1\<close>.\<close>

lemma boot_start:
  assumes "file_system_list v = 0" "fs_root v = 0" "a0 = v_blk v (v_taken v)" "a1 = v_blk v (v_taken v + 1)" "rt = v_blk v (v_taken v + 2)"
    and "distinct [0, a0, a1]"
  obtains v1 v2 where "register_fs rfs v = Some (v1, 0)" "first_task (set_fs_root rfs 1 v1) = v2" "rooted rfs v2"
    "v_data v2 = v_data v" "v_blk v2 = v_blk v" "v_taken v2 = v_taken v + 3" "v_root v2 = rt" "mount_list v2 = mount_list v"
    "mount_ids v2 = mount_ids v" "v_files v2 = replicate 32 0" "v_file_count v2 = 0" "file_system_list v2 = a0"
    "l_next (v_lists v2 a0) = a1" "l_data (v_lists v2 a0) = rfs" "l_next (v_lists v2 a1) = 0"
proof -
  obtain ls where ls: "register_fs rfs v = Some (v\<lparr>file_system_list := a0, v_lists := ls, v_taken := v_taken v + 2\<rparr>, 0)"
    "l_next (ls a0) = a1" "l_data (ls a0) = rfs" "l_next (ls a1) = 0"
    using register_first [of v a0 a1 rfs] assms by auto
  show thesis
    by (rule that [OF ls(1) refl]) (use assms(2,5) ls(2-4) in \<open>simp_all add: first_task_def set_fs_root_def rooted_def numeral_3_eq_3\<close>)
qed

text \<open>The sequence from the registration of the keyboard on.\<close>

lemma boot_keyboard:
  assumes v: "rooted rfs v" "rfs \<noteq> kbfs" "dev_tree (b_ram (v_data v)) []" "ramfs_i_count (b_ram (v_data v)) = 3" "stocked 3 (b_ram (v_data v))"
    and l: "file_system_list v = a0" "l_next (v_lists v a0) = a1" "l_data (v_lists v a0) = rfs" "l_next (v_lists v a1) = 0"
    and m: "mount_list v = 0" "mount_ids v = 1" "v_root v = rt" "v_files v = replicate 32 0" "v_file_count v = 0"
    and d: "distinct (0 # a0 # a1 # rt # map (\<lambda>i. v_blk v (v_taken v + i)) [0, 1, 2, 3])"
    and systems: "systems kbfs = \<lparr>fs_name = ''ps2keyboard'', fs_id = 321, fs_i_root = 0\<rparr>" "fs_id (systems rfs) \<noteq> 321"
  shows "\<exists>v5 v'. register_fs kbfs v = Some (v5, 0) \<and> file_system_list v5 = a0 \<and>
    mount_devices (boot_ops arrive kbfs) systems a0 v5 = done_with v' \<and> rooted rfs v' \<and>
    kb_mounted arrive rfs kbfs (v_blk v (v_taken v + 1)) v' \<and>
    b_kb (v_data v') = b_kb (v_data v) \<and> b_reads (v_data v') = b_reads (v_data v) \<and> v_files v' = replicate 32 0 \<and> v_file_count v' = 0 \<and>
    v_blk v' = v_blk v \<and> v_taken v' = v_taken v + 4 \<and> v_root v' = v_root v"
proof -
  let ?ops = "boot_ops arrive kbfs" and ?n = "v_taken v"
  define a2 b m0 m1 where ad: "a2 = v_blk v ?n" "b = v_blk v (?n + 1)" "m0 = v_blk v (?n + 2)" "m1 = v_blk v (?n + 3)"
  have dd: "distinct [0, a0, a1, rt, a2, b, m0, m1]" using d by (simp add: ad)
  obtain ls where reg: "register_fs kbfs v = Some (v\<lparr>v_lists := ls, v_taken := ?n + 1\<rparr>, 0)"
    "l_next (ls a0) = a1" "l_data (ls a0) = rfs" "l_next (ls a1) = a2" "l_data (ls a1) = kbfs" "l_next (ls a2) = 0"
    using register_next [OF l(1) _ l(2) _ _ l(4) ad(1), of kbfs] l(3) dd by auto
  let ?v = "v\<lparr>v_lists := ls, v_taken := ?n + 1\<rparr>"
  have rt: "rooted rfs ?v" using v(1) by (simp add: rooted_def)
  have bs: "b = v_blk ?v (v_taken ?v)" "m0 = v_blk ?v (v_taken ?v + 1)" "m1 = v_blk ?v (v_taken ?v + 2)"
    by (simp_all add: ad numeral_3_eq_3)
  have "dev_tree (b_ram (v_data ?v)) []" "ramfs_i_count (b_ram (v_data ?v)) = 3" "stocked 3 (b_ram (v_data ?v))"
    "mount_list ?v = 0" "mount_ids ?v = 1" "distinct [b, m0, m1]" "0 \<notin> {b, m0, m1}" "b \<noteq> v_root ?v" using v(3-5) m(1-3) dd by auto
  note mk = mount_keyboard [where systems = systems, OF rt v(2) this(1-5) bs this(6-8) systems(1), of arrive]
  obtain v' where v': "mount_device ?ops systems kbfs ?v = done_with v'" "rooted rfs v'"
    "kb_mounted arrive rfs kbfs b v'" "b_kb (v_data v') = b_kb (v_data v)" "b_reads (v_data v') = b_reads (v_data v)"
    "v_blk v' = v_blk v" "v_taken v' = v_taken v + 4" "v_root v' = v_root v" "v_files v' = replicate 32 0" "v_file_count v' = 0" "\<And>a. a \<noteq> m0 \<Longrightarrow> a \<noteq> m1 \<Longrightarrow> v_lists v' a = ls a"
    using mk m(4,5) by auto
  have "mount_devices ?ops systems a0 ?v = done_with v'"
    by (rule mount_devices_2 [where ?a1.0 = a1 and ?a2.0 = a2 and f = rfs]) (use reg v'(1) v'(11) dd systems(2) in simp_all)
  then show ?thesis using reg(1) l(1) v' by (intro exI [of _ ?v] exI [of _ v']) (simp add: ad)
qed

text \<open>What holds after the sequence; nine blocks are enough for it and the first \<open>open\<close>.\<close>

definition booted :: "(nat \<Rightarrow> nat \<Rightarrow> u8 list) \<Rightarrow> u32 \<Rightarrow> u32 \<Rightarrow> boot vfs \<Rightarrow> boot vfs \<Rightarrow> bool" where
  "booted arrive rfs kbfs v v' \<longleftrightarrow> rooted rfs v' \<and>
    kb_mounted arrive rfs kbfs (v_blk v (v_taken v + 4)) v' \<and>
    b_reads (v_data v') = b_reads (v_data v) \<and> v_files v' = replicate 32 0 \<and> v_file_count v' = 0 \<and>
    v_blk v' = v_blk v \<and> v_taken v' = v_taken v + 7 \<and> v_root v' = v_blk v (v_taken v + 2)"

lemma boot_reaches:
  assumes "boot_blocks v" "rfs \<noteq> kbfs" "file_system_list v = 0" "mount_list v = 0" "mount_ids v = 1" "fs_root v = 0"
  shows "\<exists>v'. boot_files arrive rfs kbfs addr scancode v = done_with v' \<and> booted arrive rfs kbfs v v' \<and>
    b_kb (v_data v') = keyboard_handler scancode (b_kb (v_data v))"
proof -
  let ?ops = "boot_ops arrive kbfs" and ?n = "v_taken v" and ?r0 = "b_ram (v_data v)" and ?d = "v_data v"
  define r1 where "r1 = fst (init_ramfs ?r0)"
  have bl: "inj_on (blk ?r0) {taken ?r0..<taken ?r0 + 9}" "0 \<notin> blk ?r0 ` {taken ?r0..<taken ?r0 + 9}"
    "distinct (0 # map (\<lambda>i. v_blk v (?n + i)) [0, 1, 2, 3, 4, 5, 6, 7, 8])" using assms(1) unfolding boot_blocks_def Let_def by blast+
  have root: "blk ?r0 (taken ?r0 + 2) \<noteq> 0" using bl(2) by (auto simp: image_iff dest!: bspec [of _ _ "taken ?r0 + 2"])
  have tr: "dir_is r1 1 []" "node_is r1 1 FS_DIR 0" using init_ramfs_tree [OF root] by (auto simp: ramfs_tree_def r1_def)
  have ir: "init_ramfs ?r0 = (r1, 1)" "ramfs_i_count r1 = 2" by (simp_all add: r1_def init_ramfs_def Let_def zero_header_def)
  define a0 a1 where ad: "a0 = v_blk v ?n" "a1 = v_blk v (?n + 1)"
  obtain v1 v2 where v2: "register_fs rfs (v\<lparr>v_data := ?d\<lparr>b_ram := r1\<rparr>\<rparr>) = Some (v1, 0)" "first_task (set_fs_root rfs 1 v1) = v2"
    "rooted rfs v2" "v_data v2 = ?d\<lparr>b_ram := r1\<rparr>" "v_blk v2 = v_blk v" "v_taken v2 = ?n + 3" "v_root v2 = v_blk v (?n + 2)" "mount_list v2 = 0"
    "mount_ids v2 = 1" "v_files v2 = replicate 32 0" "v_file_count v2 = 0" "file_system_list v2 = a0"
    "l_next (v_lists v2 a0) = a1" "l_data (v_lists v2 a0) = rfs" "l_next (v_lists v2 a1) = 0"
    by (rule boot_start [of "v\<lparr>v_data := ?d\<lparr>b_ram := r1\<rparr>\<rparr>" a0 a1 "v_blk v (?n + 2)" rfs]) (use assms(3-6) bl(3) in \<open>auto simp: ad\<close>)
  obtain r2 where mk: "mkdir ?ops ''/dev'' 0x1c0 v2 = done_with (v2\<lparr>v_data := ?d\<lparr>b_ram := r2\<rparr>\<rparr>, ''/dev'', 0)"
    "dev_tree r2 []" "ramfs_i_count r2 = 3" "stocked 3 r2"
    using make_dev [OF v2(3) assms(2), of arrive "0x1c0"] v2(4) tr ir(2) init_stocked [OF bl(1,2)] r1_def by auto
  let ?v3 = "v2\<lparr>v_data := ?d\<lparr>b_ram := r2\<rparr>\<rparr>"
  have rt3: "rooted rfs ?v3" using v2(3) by (simp add: rooted_def)
  have f3: "fs_find_path ?ops ''/dev'' ?v3 = done_with (0, Some \<lparr>n_inode = 2, n_fs = rfs\<rparr>)" using find_dev [OF rt3 assms(2)] mk(2) by simp
  let ?hs = "register_interrupt_handler IRQ1 addr (b_handlers ?d)" and ?k = "keyboard_handler scancode (b_kb ?d)"
  let ?v4 = "v2\<lparr>v_data := ?d\<lparr>b_ram := r2, b_handlers := ?hs, b_kb := ?k\<rparr>\<rparr>"
  let ?sys = "\<lambda>f. if f = kbfs then \<lparr>fs_name = ''ps2keyboard'', fs_id = 321, fs_i_root = 0\<rparr> else \<lparr>fs_name = ''ramfs'', fs_id = 0, fs_i_root = 1\<rparr>"
  have rt4: "rooted rfs ?v4" using v2(3) by (simp add: rooted_def)
  have "dev_tree (b_ram (v_data ?v4)) []" "ramfs_i_count (b_ram (v_data ?v4)) = 3" "stocked 3 (b_ram (v_data ?v4))"
    "file_system_list ?v4 = a0" "l_next (v_lists ?v4 a0) = a1" "l_data (v_lists ?v4 a0) = rfs" "l_next (v_lists ?v4 a1) = 0"
    "mount_list ?v4 = 0" "mount_ids ?v4 = 1" "v_root ?v4 = v_blk v (?n + 2)" "v_files ?v4 = replicate 32 0" "v_file_count ?v4 = 0"
    "distinct (0 # a0 # a1 # v_blk v (?n + 2) # map (\<lambda>i. v_blk ?v4 (v_taken ?v4 + i)) [0, 1, 2, 3])"
    using mk(2-4) v2(5-15) bl(3) by (simp_all add: ad add.assoc numeral_eq_Suc)
  note bk = boot_keyboard [where systems = ?sys, OF rt4 assms(2) this, of arrive]
  obtain v5 v' where v': "register_fs kbfs ?v4 = Some (v5, 0)" "file_system_list v5 = a0" "mount_devices ?ops ?sys a0 v5 = done_with v'" "rooted rfs v'"
    "kb_mounted arrive rfs kbfs (v_blk v (?n + 4)) v'" "b_kb (v_data v') = ?k" "b_reads (v_data v') = b_reads ?d" "v_blk v' = v_blk v" "v_taken v' = ?n + 7" "v_root v' = v_blk v (?n + 2)" "v_files v' = replicate 32 0" "v_file_count v' = 0"
    using bk assms(2) by (auto simp: v2(5-7) add.commute [of _ "v_taken v"])
  have "boot_files arrive rfs kbfs addr scancode v = done_with v'"
    unfolding boot_files_def using ir(1) v2(1,2) mk(1) f3 v'(1-3) by (simp add: keyboard_create_def Let_def)
  then show ?thesis using v' unfolding booted_def by blast
qed

text \<open>
  C12. The machine comes up with a keyboard: on an allocator that hands out distinct blocks, the boot sequence returns
  without a fault, \<open>/dev/kb0\<close> leads to the keyboard driver and nowhere into the memory file system, the handler has been
  called once, and the first task has no open files.
\<close>

theorem boot_mounts_keyboard:
  assumes "boot_blocks v" "rfs \<noteq> kbfs" "file_system_list v = 0" "mount_list v = 0" "mount_ids v = 1" "fs_root v = 0"
  shows "\<exists>v'. boot_files arrive rfs kbfs addr scancode v = done_with v' \<and> rooted rfs v' \<and>
    fs_find_path (boot_ops arrive kbfs) ''/dev/kb0'' v' = done_with (0, Some \<lparr>n_inode = 0, n_fs = kbfs\<rparr>) \<and>
    b_kb (v_data v') = keyboard_handler scancode (b_kb (v_data v)) \<and> v_files v' = replicate 32 0 \<and> v_file_count v' = 0"
proof -
  obtain v' where "boot_files arrive rfs kbfs addr scancode v = done_with v'" "booted arrive rfs kbfs v v'"
    "b_kb (v_data v') = keyboard_handler scancode (b_kb (v_data v))" using boot_reaches [OF assms] by blast
  then show ?thesis using kb_mounted_find unfolding booted_def by blast
qed

section \<open>Reading the keyboard\<close>

lemma put_bytes_nth:
  "n < length bs \<Longrightarrow> length bs \<le> 2 ^ 32 \<Longrightarrow> put_bytes a bs m (a + of_nat n) = bs ! n"
proof (induction bs arbitrary: a m n)
  case (Cons b bs)
  have other: "length bs \<le> unat (x - a) \<Longrightarrow> put_bytes a bs m x = m x" for a x and m :: mem and bs
  proof (induction bs arbitrary: a m)
    case (Cons b bs)
    then have "x \<noteq> a" by auto
    then have "length bs \<le> unat (x - (a + 1))" using Cons.prems unat_minus_one_add [of x a] by simp
    then show ?case using Cons.IH [of "a + 1" "m(a := b)"] \<open>x \<noteq> a\<close> by (simp del: fun_upd_apply add: fun_upd_other)
  qed simp
  show ?case
  proof (cases n)
    case 0
    have "unat (a - (a + 1)) = 2 ^ 32 - 1" using unat_u32_minus_1 by simp
    then have "put_bytes (a + 1) bs (m(a := b)) a = b" using other [of bs a "a + 1" "m(a := b)"] Cons.prems(2) by simp
    then show ?thesis using 0 by simp
  next
    case (Suc k)
    then show ?thesis using Cons.IH [of k "a + 1" "m(a := b)"] Cons.prems by (simp add: add.assoc del: fun_upd_apply)
  qed
qed simp

lemma kb_readable: "good_op O_RDONLY (perms_of v (fst (kb_get_info nd)))"
  by (simp add: good_op_def perms_of_def kb_get_info_def)

text \<open>The first \<open>open\<close> of the device.\<close>

lemma open_keyboard:
  assumes "booted arrive rfs kbfs v v1" "boot_blocks v"
  obtains v2 d where "vfs_open (boot_ops arrive kbfs) ''/dev/kb0'' O_RDONLY v1 = done_with (v2, 0)" "v_data v2 = v_data v1"
    "isgoodfd 0 v2" "v_files v2 ! 0 = d" "v_nodes v2 (fd_file (v_descs v2 d)) = \<lparr>n_inode = 0, n_fs = kbfs\<rparr>"
proof -
  let ?ops = "boot_ops arrive kbfs" and ?fp = "v_blk v1 (v_taken v1)" and ?d = "v_blk v1 (v_taken v1 + 1)"
  let ?top = "\<lparr>n_inode = 0, n_fs = kbfs\<rparr>" and ?b = "v_blk v (v_taken v + 4)"
  note bt = assms(1) [unfolded booted_def]
  have "?b \<noteq> ?fp" "v_root v1 \<noteq> ?fp" and dist: "?d \<noteq> 0"
    using assms(2) bt by (simp_all add: boot_blocks_def Let_def numeral_eq_Suc)
  note dist = this(1,2) [symmetric] dist
  let ?v = "v1\<lparr>v_taken := v_taken v1 + 1, v_nodes := (v_nodes v1)(?fp := \<lparr>n_inode = 0, n_fs = 0\<rparr>)\<rparr>"
  have "rooted rfs v1" using bt by blast
  then have "rooted rfs ?v" using dist(2) by (simp add: rooted_def)
  moreover have "v_nodes ?v ?b = ?top" using bt dist(1) by (simp add: kb_mounted_def)
  ultimately have f: "fs_find_path ?ops ''/dev/kb0'' ?v = done_with (0, Some ?top)" using bt by (simp add: kb_mounted_def)
  obtain i r where i: "kb_get_info ?top = (i, r)" by (cases "kb_get_info ?top") auto
  show thesis
    by (rule open_first [of ?ops "''/dev/kb0''" v1 ?top i r O_RDONLY "v_data v1" 1])
      (use f i kb_readable [of v1 ?top] bt dist(3) that in \<open>auto simp: boot_ops_def kb_funcs_def\<close>)
qed

text \<open>
  C1. From power on to the first characters: after the boot sequence \<open>open( "/dev/kb0", O_RDONLY )\<close> gives descriptor 0, and
  a \<open>read\<close> of it returns the number of bytes asked for, as soon as that many sleeps of the reader have left a character,
  and the buffer of the caller holds these characters in order. A sleep leaves the character of the last key other than
  shift that was pressed in it, under the shift keys then held down, so that of several keys pressed in one sleep all but
  the last are lost; a sleep without such a key leaves none. The shift level is the one the call of the handler in
  \<open>keyboard_create\<close> has set. Keys arrive while the reader sleeps.
\<close>

theorem boot_then_read:
  assumes "boot_blocks v" "rfs \<noteq> kbfs" "file_system_list v = 0" "mount_list v = 0" "mount_ids v = 1" "fs_root v = 0"
    and "kb_level False (b_kb (v_data v))" "upper = fst (key_effect scancode (False, 0))"
    and "cs = sleep_chars (arrive (b_reads (v_data v))) 0 m upper" "unat len \<le> length cs"
  shows "\<exists>v1 v2 v3. boot_files arrive rfs kbfs addr scancode v = done_with v1 \<and>
    vfs_open (boot_ops arrive kbfs) ''/dev/kb0'' O_RDONLY v1 = done_with (v2, 0) \<and>
    vfs_read (boot_ops arrive kbfs) 0 buf len v2 = done_with (v3, len) \<and>
    (\<forall>n<unat len. bytes (b_ram (v_data v3)) (buf + of_nat n) = cs ! n)"
proof -
  let ?ops = "boot_ops arrive kbfs" and ?cs = "take (unat len) cs"
  obtain v1 where v1: "boot_files arrive rfs kbfs addr scancode v = done_with v1" "booted arrive rfs kbfs v v1"
    "b_kb (v_data v1) = keyboard_handler scancode (b_kb (v_data v))" using boot_reaches [OF assms(1-6)] by blast
  obtain v2 d where v2: "vfs_open ?ops ''/dev/kb0'' O_RDONLY v1 = done_with (v2, 0)" "v_data v2 = v_data v1" "isgoodfd 0 v2"
    "v_files v2 ! 0 = d" "v_nodes v2 (fd_file (v_descs v2 d)) = \<lparr>n_inode = 0, n_fs = kbfs\<rparr>" by (rule open_keyboard [OF v1(2) assms(1)])
  have k: "b_reads (v_data v2) = b_reads (v_data v)" using v1(2) v2(2) by (simp add: booted_def)
  have "fst (key_effect scancode (False, x)) = upper" for x using assms(8) by (simp add: key_effect_def)
  then have "kb_level upper (b_kb (v_data v2))"
    using v1(3) v2(2) keyboard_handler_effect [OF assms(7), of scancode] by (metis prod.collapse)
  then obtain s' where rd: "pread_kb (arrive (b_reads (v_data v2))) len off (b_kb (v_data v2)) = Some (?cs, s', len)" for off
    using read_kb_sleep_chars [of upper "b_kb (v_data v2)" len "arrive (b_reads (v_data v))" m] assms(9,10) k
    unfolding pread_kb_def by auto
  obtain v3 where v3: "vfs_read ?ops 0 buf len v2 = done_with (v3, len)" "bytes (b_ram (v_data v3)) = put_bytes buf ?cs (bytes (b_ram (v_data v2)))"
    using v2(3-5) rd by (auto simp: vfs_read_def Let_def boot_ops_def kb_funcs_def kb_pread_def upd_desc_def)
  have "bytes (b_ram (v_data v3)) (buf + of_nat n) = cs ! n" if "n < unat len" for n
    unfolding v3(2) using that assms(10) unat_u32_less [of len] by (subst put_bytes_nth) simp_all
  then show ?thesis using v1(1) v2(1) v3(1) by blast
qed

section \<open>A machine\<close>

definition demo_boot :: "boot vfs" where
  "demo_boot = \<lparr>v_data = \<lparr>b_ram = \<lparr>headers = \<lambda>_. zero_header,
       entries = \<lambda>_. \<lparr>d_inode = 0, d_size = 0, d_name_len = 0, d_name = [], d_next = 0\<rparr>, bytes = \<lambda>_. 0, ramfs_files = 0, ramfs_i_count = 0,
       blk = \<lambda>n. 0x1000 + 0x100 * of_nat n, taken = 0\<rparr>, b_kb = kb_boot, b_handlers = replicate 256 0, b_reads = 0\<rparr>,
     v_nodes = (\<lambda>_. \<lparr>n_inode = 0, n_fs = 0\<rparr>), v_descs = (\<lambda>_. \<lparr>fd_file = 0, r_offset = 0, w_offset = 0, d_offset = 0\<rparr>),
     v_files = [], v_file_count = 0, v_in_task = False, v_uid = 0, v_gid = 0, v_root = 0, v_cwd = 0, fs_root = 0,
     v_lists = (\<lambda>_. zero_llist), file_system_list = 0, mount_list = 0, mount_ids = 1, v_blk = (\<lambda>n. 0x8000 + 0x20 * of_nat n),
     v_taken = 0, v_freed = [], v_scratch = \<lparr>de_inode = 0, de_size = 0, de_name_len = 0, de_name = []\<rparr>\<rparr>"

lemma demo_boot_ready:
  "file_system_list demo_boot = 0" "mount_list demo_boot = 0" "mount_ids demo_boot = 1" "fs_root demo_boot = 0"
  "b_kb (v_data demo_boot) = kb_boot" "b_reads (v_data demo_boot) = 0"
  by (simp_all add: demo_boot_def)

lemma demo_boot_blocks: "boot_blocks demo_boot"
proof -
  have "{0..<9 :: nat} = {0, 1, 2, 3, 4, 5, 6, 7, 8}" by auto
  then show ?thesis by (simp add: boot_blocks_def demo_boot_def inj_on_def)
qed

theorem boot_mounts_keyboard_witness:
  "\<exists>v'. boot_files (\<lambda>_ _. []) 0x7000 0x7100 0x9000 0 demo_boot = done_with v' \<and>
    fs_find_path (boot_ops (\<lambda>_ _. []) 0x7100) ''/dev/kb0'' v' = done_with (0, Some \<lparr>n_inode = 0, n_fs = 0x7100\<rparr>)"
  using boot_mounts_keyboard [of demo_boot "0x7000" "0x7100" "\<lambda>_ _. []" "0x9000" 0] demo_boot_blocks demo_boot_ready by auto

theorem boot_then_read_witness:
  "\<exists>v1 v2 v3. boot_files (\<lambda>_ n. if n = 0 then [0x2a] else [0x17, 0x23]) 0x7000 0x7100 0x9000 0 demo_boot = done_with v1 \<and>
    vfs_open (boot_ops (\<lambda>_ n. if n = 0 then [0x2a] else [0x17, 0x23]) 0x7100) ''/dev/kb0'' O_RDONLY v1 = done_with (v2, 0) \<and>
    vfs_read (boot_ops (\<lambda>_ n. if n = 0 then [0x2a] else [0x17, 0x23]) 0x7100) 0 0x5000 1 v2 = done_with (v3, 1) \<and>
    bytes (b_ram (v_data v3)) 0x5000 = 72"
proof -
  have c: "sleep_chars (\<lambda>n. if n = 0 then [0x2a] else [0x17, 0x23]) 0 (Suc (Suc 0)) False = [72]"
    by (simp add: key_effect_def shift_key_def key_char_def us_kbd_def us_kbd_shift_def)
  have l: "kb_level False kb_boot" "fst (key_effect 0 (False, 0)) = False"
    by (simp_all add: kb_level_def kb_boot_def key_effect_def shift_key_def)
  show ?thesis
    using boot_then_read [of demo_boot "0x7000" "0x7100" False 0 "[72]" "\<lambda>_ n. if n = 0 then [0x2a] else [0x17, 0x23]" "Suc (Suc 0)" 1 "0x9000" "0x5000"]
      demo_boot_blocks demo_boot_ready l c by auto
qed

end
