(* ===== verification/File_Image.thy ===== *)
theory File_Image
  imports Ramfs_Data Vfs_Paths Blocks
begin

text \<open>
  Files read as images. \<open>image_open v fd img n D\<close> says that a descriptor leads to a file with the bytes \<open>img\<close>; the lemmas give
  what a seek and a read bring into memory, with the regions that are written and those that stay, and how a field of a
  structure in memory relates to the same field of the image.
\<close>

section \<open>Memory\<close>

abbreviation vmem :: "ramfs vfs \<Rightarrow> mem" where
  "vmem v \<equiv> bytes (v_data v)"

definition load16 :: "mem \<Rightarrow> u32 \<Rightarrow> u16" where
  "load16 m a = ucast (m a) + 256 * ucast (m (a + 1))"

text \<open>\<open>knew\<close>: clear a block.\<close>

definition clear_block :: "u32 \<Rightarrow> u32 \<Rightarrow> ramfs vfs \<Rightarrow> ramfs vfs" where
  "clear_block a len v = v\<lparr>v_data := (v_data v)\<lparr>bytes := memset (vmem v) a 0 len\<rparr>\<rparr>"

definition seek_read :: "u32 \<Rightarrow> u32 \<Rightarrow> u32 \<Rightarrow> u32 \<Rightarrow> ramfs vfs \<Rightarrow> (ramfs vfs \<times> u32) run" where
  "seek_read fd offset buf len v = (let (v1, _) = lseek fd offset 0 v in vfs_read ramfs_ops fd buf len v1)"

section \<open>Regions of memory\<close>

definition holds_at :: "mem \<Rightarrow> u32 \<Rightarrow> nat \<Rightarrow> (nat \<Rightarrow> u8) \<Rightarrow> bool" where
  "holds_at m a l f \<longleftrightarrow> (\<forall>k<l. m (a + of_nat k) = f k)"

text \<open>\<open>far a l b k\<close>: \<open>l\<close> bytes at \<open>a\<close> and \<open>k\<close> bytes at \<open>b\<close> do not overlap and neither wraps.\<close>

definition far :: "u32 \<Rightarrow> nat \<Rightarrow> u32 \<Rightarrow> nat \<Rightarrow> bool" where
  "far a l b k \<longleftrightarrow> unat a + l \<le> 2 ^ 32 \<and> unat b + k \<le> 2 ^ 32 \<and> (unat a + l \<le> unat b \<or> unat b + k \<le> unat a)"

definition put_at :: "u32 \<Rightarrow> u32 \<Rightarrow> (nat \<Rightarrow> u8) \<Rightarrow> mem \<Rightarrow> mem" where
  "put_at a len f m = (\<lambda>x. if x - a < len then f (unat (x - a)) else m x)"

lemma far_not_in:
  assumes "far a l b k" "i < l"
  shows "k \<le> unat (a + of_nat i - b)"
proof -
  have a: "unat (a + of_nat i) = unat a + i" using assms by (simp add: far_def unat_word_ariths)
  have "unat (a + of_nat i - b) = (if unat b \<le> unat a + i then unat a + i - unat b else 2 ^ 32 + (unat a + i) - unat b)"
    using unat_of_nat_diff_32 [of "unat (a + of_nat i)" "unat b"] unat_u32_less [of "a + of_nat i"] unat_u32_less [of b]
    by (simp del: of_nat_add add: a [symmetric])
  then show ?thesis using assms unat_u32_less [of b] by (auto simp: far_def)
qed

lemma put_at_far: "far a l b (unat len) \<Longrightarrow> holds_at m a l f \<Longrightarrow> holds_at (put_at b len g m) a l f"
  using far_not_in [of a l b "unat len"] by (fastforce simp: holds_at_def put_at_def word_less_nat_alt not_less)

lemma put_at_holds: "l \<le> unat len \<Longrightarrow> holds_at (put_at b len g m) b l g"
  using unat_u32_less [of len] by (auto simp: holds_at_def put_at_def word_less_nat_alt)

lemma kept_holds_at: "kept m m' b lo hi \<Longrightarrow> far a l b hi \<Longrightarrow> holds_at m a l f \<Longrightarrow> holds_at m' a l f"
  unfolding holds_at_def
proof (intro allI impI)
  fix k assume a: "kept m m' b lo hi" "far a l b hi" "\<forall>k<l. m (a + of_nat k) = f k" "k < l"
  have "m' (b + of_nat (unat (a + of_nat k - b))) = m (b + of_nat (unat (a + of_nat k - b)))"
    by (rule kept_byte [OF a(1) unat_u32_less]) (use far_not_in [OF a(2,4)] in simp)
  then show "m' (a + of_nat k) = f k" using a(3,4) by (simp only: base_offset)
qed

section \<open>Reading the image\<close>

text \<open>The descriptor \<open>fd\<close> leads to a file of \<open>n\<close> bytes, \<open>img\<close>, whose contents lie at \<open>D\<close>.\<close>

definition image_open :: "ramfs vfs \<Rightarrow> u32 \<Rightarrow> (nat \<Rightarrow> u8) \<Rightarrow> nat \<Rightarrow> u32 \<Rightarrow> bool" where
  "image_open v fd img n D \<longleftrightarrow> isgoodfd fd v \<and> n < 2 ^ 31 \<and> holds_at (vmem v) D n img \<and>
     (\<exists>p. file_h (v_nodes v (fd_file (v_descs v (v_files v ! unat fd)))) (v_data v) = done_with p \<and>
        h_size (headers (v_data v) p) = of_nat n \<and> h_data (headers (v_data v) p) = D)"

lemma pread_loop_put:
  assumes "holds_at m D n img" "unat off + unat len \<le> n" "n < 2 ^ 32" "far D n buf (unat len)"
  shows "pread_loop buf D len (of_nat n) off 0 m = (put_at buf len (\<lambda>k. img (unat off + k)) m, off + len)"
proof -
  have "D + (off - 0) + b \<noteq> buf + a" if "a < len" "b < len" for a b
  proof
    assume "D + (off - 0) + b = buf + a"
    then have "D + of_nat (unat off + unat b) - buf = a" by (simp add: algebra_simps)
    moreover have "unat off + unat b < n" using that(2) assms(2) by (simp add: word_less_nat_alt)
    ultimately show False using far_not_in [OF assms(4), of "unat off + unat b"] that(1) by (simp add: word_less_nat_alt)
  qed
  then have "pread_loop buf D len (of_nat n) off 0 m =
      (\<lambda>x. if 0 \<le> x - buf \<and> x - buf < len then m (D + (off - 0) + (x - buf)) else m x, off + (len - 0))"
    by (intro pread_loop_bytes) (use assms(2,3) in auto)
  moreover have "m (D + (off - 0) + (x - buf)) = img (unat off + unat (x - buf))" if "x - buf < len" for x
  proof -
    have "unat off + unat (x - buf) < n" using that assms(2) by (simp add: word_less_nat_alt)
    then have "m (D + of_nat (unat off + unat (x - buf))) = img (unat off + unat (x - buf))" using assms(1) by (simp only: holds_at_def)
    then show ?thesis by (simp add: add.assoc)
  qed
  ultimately show ?thesis by (auto simp: put_at_def fun_eq_iff)
qed

lemma sint_small: "n < 2 ^ 31 \<Longrightarrow> sint (of_nat n :: u32) = int n"
  by (simp add: signed_of_nat signed_take_bit_int_eq_self)

lemma file_h_bytes [simp]: "file_h node (r\<lparr>bytes := m\<rparr>) = file_h node r"
  by (simp add: file_h_def ramfs_get_file_h_def)

lemma isgoodfd_cong: "v_files w = v_files v \<Longrightarrow> v_file_count w = v_file_count v \<Longrightarrow> isgoodfd fd w = isgoodfd fd v"
  by (simp add: isgoodfd_def)

lemma image_open_write:
  assumes "image_open v fd img n D" "far D n a (unat len)"
  shows "image_open (v\<lparr>v_data := (v_data v)\<lparr>bytes := put_at a len f (vmem v)\<rparr>\<rparr>) fd img n D"
  using assms put_at_far [OF assms(2)] unfolding image_open_def by (auto simp: isgoodfd_def)

text \<open>A read of \<open>len\<close> bytes from \<open>off\<close> on brings what is left of the file, at most \<open>len\<close>.\<close>

lemma read_rest:
  assumes "image_open v fd img n D" "unat off \<le> n" "far D n buf (unat len)"
    and "r_offset (v_descs v (v_files v ! unat fd)) = off"
  defines "l \<equiv> min (unat len) (n - unat off)"
  obtains v' where "vfs_read ramfs_ops fd buf len v = done_with (v', of_nat l)" "image_open v' fd img n D"
    "vmem v' = put_at buf (of_nat l) (\<lambda>k. img (unat off + k)) (vmem v)"
    "r_offset (v_descs v' (v_files v' ! unat fd)) = off + of_nat l" "v_files v' = v_files v"
proof -
  let ?d = "v_files v ! unat fd"
  obtain p where p: "file_h (v_nodes v (fd_file (v_descs v ?d))) (v_data v) = done_with p" "h_size (headers (v_data v) p) = of_nat n"
    "h_data (headers (v_data v) p) = D" and o: "isgoodfd fd v" "n < 2 ^ 31" "holds_at (vmem v) D n img"
    using assms(1) by (auto simp: image_open_def)
  have "l < 2 ^ 32" using unat_u32_less [of len] by (simp add: l_def)
  then have l: "unat (of_nat l :: u32) = l" by (rule unat_of_nat_lt32)
  have f: "far D n buf (unat (of_nat l :: u32))" using assms(3) unfolding l by (auto simp: far_def l_def)
  let ?m = "put_at buf (of_nat l) (\<lambda>k. img (unat off + k)) (vmem v)"
  let ?v2 = "upd_desc ?d (\<lambda>f. f\<lparr>r_offset := r_offset f + of_nat l\<rparr>) (v\<lparr>v_data := (v_data v)\<lparr>bytes := ?m\<rparr>\<rparr>)"
  have "pread_loop buf D len (of_nat n) off 0 (vmem v) = pread_loop buf D (of_nat l) (of_nat n) off 0 (vmem v)"
  proof (cases "unat len \<le> n - unat off")
    case True
    then show ?thesis by (simp add: l_def)
  next
    case False
    then show ?thesis using o(2) assms(2) l by (intro pread_loop_short) (simp_all add: l_def word_le_nat_alt)
  qed
  also have "\<dots> = (?m, off + of_nat l)"
    by (rule pread_loop_put [OF o(3) _ _ f]) (use assms(2) o(2) l in \<open>auto simp: l_def\<close>)
  finally have pr: "ramfs_pread (v_nodes v (fd_file (v_descs v ?d))) buf len off (v_data v) = done_with ((v_data v)\<lparr>bytes := ?m\<rparr>, of_nat l)"
    using p by (simp add: ramfs_pread_def Let_def)
  then have "vfs_read ramfs_ops fd buf len v = done_with (?v2, of_nat l)"
    using o(1) assms(4) by (simp add: vfs_read_def Let_def upd_desc_def ramfs_file_funcs_def)
  moreover have "image_open ?v2 fd img n D"
    using image_open_write [OF assms(1) f] unfolding image_open_def by (auto simp: upd_desc_def isgoodfd_def)
  ultimately show thesis using that assms(4) by (simp add: upd_desc_def)
qed

lemma read_image:
  assumes "image_open v fd img n D" "unat off + unat len \<le> n" "far D n buf (unat len)"
    and "r_offset (v_descs v (v_files v ! unat fd)) = off"
  obtains v' where "vfs_read ramfs_ops fd buf len v = done_with (v', len)" "image_open v' fd img n D"
    "vmem v' = put_at buf len (\<lambda>k. img (unat off + k)) (vmem v)"
proof (rule read_rest [OF assms(1) _ assms(3,4)])
  have "min (unat len) (n - unat off) = unat len" using assms(2) by simp
  then show "vfs_read ramfs_ops fd buf len v = done_with (v', of_nat (min (unat len) (n - unat off))) \<Longrightarrow> image_open v' fd img n D \<Longrightarrow>
      vmem v' = put_at buf (of_nat (min (unat len) (n - unat off))) (\<lambda>k. img (unat off + k)) (vmem v) \<Longrightarrow> thesis" for v'
    using that by simp
qed (use assms(2) in simp)

lemma seek_read_image:
  assumes "image_open v fd img n D" "unat off + unat len \<le> n" "far D n buf (unat len)"
  obtains v' where "seek_read fd off buf len v = done_with (v', len)" "image_open v' fd img n D"
    "vmem v' = put_at buf len (\<lambda>k. img (unat off + k)) (vmem v)"
proof -
  let ?d = "v_files v ! unat fd"
  let ?v1 = "upd_desc ?d (\<lambda>f. f\<lparr>r_offset := off, w_offset := off\<rparr>) v"
  have o: "isgoodfd fd v" "unat off < 2 ^ 31" using assms(1,2) by (auto simp: image_open_def)
  then have "sint off = int (unat off)" using sint_small [of "unat off"] by simp
  then have "lseek fd off 0 v = (?v1, sint off)" using o(1) by (simp add: lseek_def Let_def upd_desc_def)
  moreover have "image_open ?v1 fd img n D"
    using assms(1) isgoodfd_cong [of ?v1 v] unfolding image_open_def by (auto simp: upd_desc_def)
  ultimately show thesis
    using read_image [of ?v1 fd img n D off len buf] assms(2,3) that by (auto simp: seek_read_def upd_desc_def)
qed

lemma far_part: "far a l b k \<Longrightarrow> d + k' \<le> k \<Longrightarrow> 0 < k' \<Longrightarrow> far a l (b + of_nat d) k'"
  by (auto simp: far_def unat_word_ariths)

lemma far_sym: "far a l b k \<Longrightarrow> far b k a l"
  by (auto simp: far_def)

lemma far_next: "unat b + d + k \<le> 2 ^ 32 \<Longrightarrow> 0 < k \<Longrightarrow> far b d (b + of_nat d) k"
  by (auto simp: far_def unat_word_ariths)

lemma holds_at_append:
  assumes "holds_at m a l f" "holds_at m (a + of_nat l) k (\<lambda>i. f (l + i))"
  shows "holds_at m a (l + k) f"
  unfolding holds_at_def
proof (intro allI impI)
  fix i assume i: "i < l + k"
  show "m (a + of_nat i) = f i"
  proof (cases "i < l")
    case False
    then have "i - l < k" using i by simp
    then have "m (a + of_nat l + of_nat (i - l)) = f (l + (i - l))" using assms(2) by (simp only: holds_at_def)
    moreover have "a + of_nat l + of_nat (i - l) = a + of_nat i" using False by (simp add: of_nat_diff)
    ultimately show ?thesis using False by simp
  qed (use assms(1) in \<open>simp add: holds_at_def\<close>)
qed

lemma clear_block_image:
  assumes "image_open v fd img n D" "far D n a (unat len)"
  shows "image_open (clear_block a len v) fd img n D" "vmem (clear_block a len v) = put_at a len (\<lambda>_. 0) (vmem v)"
proof -
  show m: "vmem (clear_block a len v) = put_at a len (\<lambda>_. 0) (vmem v)"
    by (auto simp: clear_block_def memset_apply put_at_def word_less_nat_alt fun_eq_iff)
  then have "clear_block a len v = v\<lparr>v_data := (v_data v)\<lparr>bytes := put_at a len (\<lambda>_. 0) (vmem v)\<rparr>\<rparr>" by (simp add: clear_block_def)
  then show "image_open (clear_block a len v) fd img n D" using image_open_write [OF assms] by simp
qed

section \<open>Fields of an image\<close>

definition img32 :: "(nat \<Rightarrow> u8) \<Rightarrow> nat \<Rightarrow> u32" where
  "img32 img i = load32 (\<lambda>a. img (unat a)) (of_nat i)"

definition img16 :: "(nat \<Rightarrow> u8) \<Rightarrow> nat \<Rightarrow> u16" where
  "img16 img i = load16 (\<lambda>a. img (unat a)) (of_nat i)"

lemma holds_at_load32:
  assumes "holds_at m a l (\<lambda>k. f (c + k))" "d + 4 \<le> l" "c + d + 4 \<le> 2 ^ 32"
  shows "load32 m (a + of_nat d) = img32 f (c + d)"
proof -
  have b: "m (a + of_nat d + of_nat k) = f (unat (of_nat (c + d) + of_nat k :: u32))" if "k < 4" for k
  proof -
    have "m (a + of_nat (d + k)) = f (c + (d + k))" using assms(1,2) that by (auto simp: holds_at_def simp del: of_nat_add)
    moreover have "unat (of_nat (c + d + k) :: u32) = c + d + k" by (rule unat_of_nat_lt32) (use assms(3) that in simp)
    ultimately show ?thesis by (simp add: add.assoc)
  qed
  from b [of 0] b [of 1] b [of 2] b [of 3] show ?thesis by (simp add: load32_def img32_def)
qed

lemma holds_at_load16:
  assumes "holds_at m a l (\<lambda>k. f (c + k))" "d + 2 \<le> l" "c + d + 2 \<le> 2 ^ 32"
  shows "load16 m (a + of_nat d) = img16 f (c + d)"
proof -
  have b: "m (a + of_nat d + of_nat k) = f (unat (of_nat (c + d) + of_nat k :: u32))" if "k < 2" for k
  proof -
    have "m (a + of_nat (d + k)) = f (c + (d + k))" using assms(1,2) that by (auto simp: holds_at_def simp del: of_nat_add)
    moreover have "unat (of_nat (c + d + k) :: u32) = c + d + k" by (rule unat_of_nat_lt32) (use assms(3) that in simp)
    ultimately show ?thesis by (simp add: add.assoc)
  qed
  from b [of 0] b [of 1] show ?thesis by (simp add: load16_def img16_def)
qed

section \<open>What \<open>open\<close> keeps\<close>

text \<open>\<open>open\<close> changes no node but the one of its new block.\<close>

definition keeps_nodes :: "u32 \<Rightarrow> 's vfs \<Rightarrow> 's vfs \<Rightarrow> bool" where
  "keeps_nodes fp v w \<longleftrightarrow> v_in_task w = v_in_task v \<and> v_root w = v_root v \<and> fs_root w = fs_root v \<and> v_cwd w = v_cwd v \<and>
     (\<forall>p. p \<noteq> fp \<longrightarrow> v_nodes w p = v_nodes v p)"

lemma open_slot_keeps: "keeps_nodes fp v (fst (open_slot fp v))"
  by (simp add: keeps_nodes_def open_slot_def Let_def)

lemma set_node_keeps: "keeps_nodes fp v (set_node fp nd v)"
  by (simp add: keeps_nodes_def set_node_def split: option.split)

lemma keeps_nodes_trans: "keeps_nodes fp u v \<Longrightarrow> keeps_nodes fp v w \<Longrightarrow> keeps_nodes fp u w"
  by (simp add: keeps_nodes_def)

lemma keeps_nodes_data: "keeps_nodes fp (v\<lparr>v_data := s\<rparr>) w = keeps_nodes fp v w" "keeps_nodes fp v (w\<lparr>v_freed := fs\<rparr>) = keeps_nodes fp v w"
  "keeps_nodes fp v (w\<lparr>v_data := s\<rparr>) = keeps_nodes fp v w"
  by (simp_all add: keeps_nodes_def)

lemma keeps_nodes_refl: "keeps_nodes fp v v"
  by (simp add: keeps_nodes_def)

lemma open_node_keeps:
  assumes "open_node ops path flags found fp v = done_with (w, e)"
  shows "keeps_nodes fp v w"
proof -
  have s: "keeps_nodes fp v (set_node fp nd (v\<lparr>v_data := d\<rparr>))" for nd d
    using set_node_keeps [of fp "v\<lparr>v_data := d\<rparr>" nd] by (simp add: keeps_nodes_data)
  have o: "keeps_nodes fp u w" if "open_slot fp u = (w, e)" for u using open_slot_keeps [of fp u] that by simp
  note o2 = keeps_nodes_trans [OF s o]
  have o1: "keeps_nodes fp v w" if "open_slot fp (v\<lparr>v_data := d\<rparr>) = (w, e)" for d using o [OF that] by (simp add: keeps_nodes_data)
  show ?thesis
    using assms s o1 o2 by (auto simp: open_node_def Let_def and_then_done keeps_nodes_data keeps_nodes_refl split: if_splits)
qed

lemma vfs_open_keeps:
  assumes "vfs_open ops path flags v = done_with (w, e)"
  shows "keeps_nodes (v_blk v (v_taken v)) v w"
proof -
  define fp where "fp = v_blk v (v_taken v)"
  define v1 where "v1 = v\<lparr>v_taken := v_taken v + 1, v_nodes := (v_nodes v)(fp := \<lparr>n_inode = 0, n_fs = 0\<rparr>)\<rparr>"
  have k1: "keeps_nodes fp v (set_node fp nd v1)" for nd
    by (rule keeps_nodes_trans [OF _ set_node_keeps]) (simp add: keeps_nodes_def v1_def)
  have k2: "keeps_nodes fp v (set_node fp nd' (set_node fp nd v1))" for nd nd'
    by (rule keeps_nodes_trans [OF k1 set_node_keeps])
  note on = keeps_nodes_trans [OF k1 open_node_keeps] keeps_nodes_trans [OF k2 open_node_keeps]
  show ?thesis
    using assms k1 k2 on unfolding vfs_open_def Let_def fp_def [symmetric] v1_def [symmetric]
    by (auto simp: and_then_done keeps_nodes_data split: if_splits)
qed

section \<open>A file with a given image\<close>

text \<open>A file system with one file, \<open>disk\<close>, of 4096 bytes.\<close>

definition demo_root :: ramfs_file_header_t where
  "demo_root = zero_header\<lparr>h_type := FS_DIR, h_mask := 0x1ff, h_inode := 1, h_next := 0x1300, h_data := 0x1400\<rparr>"

definition demo_file :: ramfs_file_header_t where
  "demo_file = zero_header\<lparr>h_mask := 0x1ff, h_inode := 2, h_size := 4096, h_data := 0x10000\<rparr>"

definition demo_disk :: "(nat \<Rightarrow> u8) \<Rightarrow> ramfs" where
  "demo_disk img = \<lparr>headers = (\<lambda>_. zero_header)(0x1200 := demo_root, 0x1300 := demo_file),
     entries = (\<lambda>_. \<lparr>d_inode = 2, d_size = 268, d_name_len = 5, d_name = ''disk'', d_next = 0\<rparr>), bytes = (\<lambda>a. img (unat (a - 0x10000))),
     ramfs_files = 0x1200, ramfs_i_count = 3, blk = \<lambda>n. 0x3000 + 0x100 * of_nat n, taken = 0\<rparr>"

lemma demo_disk_ok: "ramfs_ok (demo_disk img) [0x1200, 0x1300] (\<lambda>p. if p = 0x1200 then [0x1400] else [])"
  by (auto simp: ramfs_ok_def dirs_ok_def names_ok_def demo_disk_def demo_root_def demo_file_def zero_header_def)

definition demo_disk_vfs :: "(nat \<Rightarrow> u8) \<Rightarrow> ramfs vfs" where
  "demo_disk_vfs img = demo_vfs\<lparr>v_data := (demo_disk img)\<rparr>"

lemma demo_disk_tree: "ramfs_tree (demo_disk img) [1 \<mapsto> [(''disk'', 2)]]"
proof -
  have d: "dir_is (demo_disk img) 1 [(''disk'', 2)]"
    unfolding dir_is_def by (intro exI [of _ "[0x1200, 0x1300]"] exI [of _ "\<lambda>p. if p = 0x1200 then [0x1400] else []"] exI [of _ "0x1200"] conjI demo_disk_ok)
      (simp_all add: demo_disk_def demo_root_def zero_header_def listing_def)
  have "node_is (demo_disk img) 1 FS_DIR 0" "node_is (demo_disk img) 2 FS_FILE 0"
    unfolding node_is_def by ((intro exI [of _ "[0x1200, 0x1300]"] exI [of _ "\<lambda>p. if p = 0x1200 then [0x1400] else []"] exI [of _ "0x1200"] conjI demo_disk_ok;
      simp add: demo_disk_def demo_root_def zero_header_def), (intro exI [of _ "[0x1200, 0x1300]"] exI [of _ "\<lambda>p. if p = 0x1200 then [0x1400] else []"]
      exI [of _ "0x1300"] conjI demo_disk_ok; simp add: demo_disk_def demo_file_def zero_header_def))
  then show ?thesis using d unfolding ramfs_tree_def by (auto split: if_splits intro!: exI [of _ 0])
qed

text \<open>Opening a path that leads to the root or to the file.\<close>

definition demo_node_block :: "(nat \<Rightarrow> u8) \<Rightarrow> ramfs vfs" where
  "demo_node_block img =
    (demo_disk_vfs img)\<lparr>v_taken := 1, v_nodes := (v_nodes (demo_disk_vfs img))(0x8000 := \<lparr>n_inode = 0, n_fs = 0\<rparr>)\<rparr>"

lemma demo_disk_root: "\<lparr>n_inode = 1, n_fs = 0x7000\<rparr> = v_nodes (demo_node_block img)
    (if v_in_task (demo_node_block img) then v_root (demo_node_block img) else fs_root (demo_node_block img))"
  by (simp add: demo_node_block_def demo_disk_vfs_def demo_vfs_facts)

lemma demo_opens:
  assumes f: "fs_find_path ramfs_ops path (demo_node_block img) = done_with (0, Some nd)"
    and h: "h \<in> {0x1200, 0x1300}" "n_inode nd = h_inode (headers (demo_disk img) h)"
    and flags: "flags = O_RDONLY \<or> flags = O_CREAT OR O_RDONLY \<and> h = 0x1300"
  obtains w where "vfs_open ramfs_ops path flags (demo_disk_vfs img) = done_with (w, 0)" "v_data w = demo_disk img" "isgoodfd 0 w"
    "v_nodes w (fd_file (v_descs w (v_files w ! 0))) = nd" "r_offset (v_descs w (v_files w ! 0)) = 0" "d_offset (v_descs w (v_files w ! 0)) = 0"
    "length (v_files w) = 32" "file_h nd (demo_disk img) = done_with h"
proof -
  let ?v = "demo_disk_vfs img" and ?r = "demo_disk img"
  have hs: "h \<in> set [0x1200, 0x1300]" using h(1) by simp
  note fh = file_h_ok [OF demo_disk_ok hs h(2)]
  have m: "h_mask (headers ?r h) = 0x1ff" "sint (h_inode (headers ?r h)) \<ge> 0"
    using h(1) by (auto simp: demo_disk_def demo_root_def demo_file_def)
  obtain i where i: "ramfs_get_info nd ?r = done_with (Some i, 0)" "fi_mask i = 0x1ff"
    using fh(2,3) m(1) by (auto simp: ramfs_get_info_def Let_def)
  have op: "ramfs_open nd name flags ?r = done_with (?r, sint (h_inode (headers ?r h)))" for name
    using fh(1) h(2) flags by (auto simp: ramfs_open_def demo_disk_def demo_file_def zero_header_def)
  have g: "good_op flags (perms_of ?v i)" using i(2) flags by (auto simp: good_op_def perms_of_def)
  have v: "v_blk ?v 0 = 0x8000" "v_taken ?v = 0" "v_data ?v = ?r" "v_files ?v = replicate 32 0" "v_file_count ?v = 0" "v_blk ?v (v_taken ?v + 1) \<noteq> 0"
    by (simp_all add: demo_disk_vfs_def demo_vfs_def)
  have f': "fs_find_path ramfs_ops path (?v\<lparr>v_taken := v_taken ?v + 1, v_nodes := (v_nodes ?v)(v_blk ?v (v_taken ?v) := \<lparr>n_inode = 0, n_fs = 0\<rparr>)\<rparr>) =
      done_with (0, Some nd)"
    using f by (simp add: v demo_node_block_def)
  have i': "f_get_info (file_funcs ramfs_ops nd) nd (v_data ?v) = done_with (Some i, 0)"
    "f_open (file_funcs ramfs_ops nd) nd (base_name path) flags (v_data ?v) = done_with (?r, sint (h_inode (headers ?r h)))"
    using i op by (simp_all add: v ramfs_file_funcs_def)
  show thesis
    by (rule open_first [OF f' i'(1) g i'(2) m(2) v(4,5,6)]) (rule that; simp add: fh(1))
qed

lemma demo_disk_opens_with:
  assumes "flags = O_RDONLY \<or> flags = O_CREAT OR O_RDONLY"
  obtains v1 where "vfs_open ramfs_ops ''/disk'' flags (demo_disk_vfs img) = done_with (v1, 0)" "image_open v1 0 img 4096 0x10000"
    "r_offset (v_descs v1 (v_files v1 ! 0)) = 0" "v_data v1 = demo_disk img" "length (v_files v1) = 32"
proof -
  let ?nd = "\<lparr>n_inode = 2, n_fs = 0x7000\<rparr>"
  have "ramfs_tree (v_data (demo_node_block img)) [1 \<mapsto> [(''disk'', 2)]]" using demo_disk_tree by (simp add: demo_node_block_def demo_disk_vfs_def)
  from find_path_plain [OF this demo_disk_root, of "[(''disk'', 2)]" "''disk''"]
  have f: "fs_find_path ramfs_ops ''/disk'' (demo_node_block img) = done_with (0, Some ?nd)" by simp
  obtain w where w: "vfs_open ramfs_ops ''/disk'' flags (demo_disk_vfs img) = done_with (w, 0)" "v_data w = demo_disk img" "isgoodfd 0 w"
    "v_nodes w (fd_file (v_descs w (v_files w ! 0))) = ?nd" "r_offset (v_descs w (v_files w ! 0)) = 0" "length (v_files w) = 32"
    "file_h ?nd (demo_disk img) = done_with 0x1300"
    by (rule demo_opens [OF f, of "0x1300" flags]) (use assms in \<open>auto simp: demo_disk_def demo_file_def\<close>)
  have "image_open w 0 img 4096 0x10000"
    unfolding image_open_def using w(2-4,7) by (auto simp: holds_at_def demo_disk_def demo_file_def zero_header_def)
  with w show thesis by (intro that)
qed

lemmas demo_disk_opens = demo_disk_opens_with [OF disjI1 [OF refl]]

text \<open>The length of the file, by its name.\<close>

lemma demo_disk_lstat:
  assumes "vfs_open ramfs_ops ''/disk'' flags (demo_disk_vfs img) = done_with (v1, e)" "v_data v1 = demo_disk img"
  obtains st where "lstat ramfs_ops ''/disk'' v1 = done_with (Some st, 0)" "st_size st = 4096"
proof -
  let ?nd = "\<lparr>n_inode = 2, n_fs = 0x7000\<rparr>"
  note k = vfs_open_keeps [OF assms(1)]
  have r: "\<lparr>n_inode = 1, n_fs = 0x7000\<rparr> = v_nodes v1 (if v_in_task v1 then v_root v1 else fs_root v1)"
    using k by (simp add: keeps_nodes_def demo_disk_vfs_def demo_vfs_def)
  have "ramfs_tree (v_data v1) [1 \<mapsto> [(''disk'', 2)]]" unfolding assms(2) by (rule demo_disk_tree)
  from find_path_plain [OF this r, of "[(''disk'', 2)]" "''disk''"]
  have f: "fs_find_path ramfs_ops ''/disk'' v1 = done_with (0, Some ?nd)" by simp
  have "n_inode ?nd = h_inode (headers (demo_disk img) 0x1300)" by (simp add: demo_disk_def demo_file_def)
  note fh = file_h_ok [OF demo_disk_ok _ this]
  obtain i where i: "ramfs_get_info ?nd (demo_disk img) = done_with (Some i, 0)" "fi_size i = 4096"
    using fh(2,3) by (auto simp: ramfs_get_info_def Let_def demo_disk_def demo_file_def)
  show thesis
    by (rule that [of "\<lparr>st_type = fi_type i, st_uid = fi_uid i, st_gid = fi_gid i, st_time = fi_time i, st_size = fi_size i, st_mask = fi_mask i\<rparr>"])
      (use f i assms(2) in \<open>simp_all add: lstat_def with_node_def ramfs_file_funcs_def Let_def\<close>)
qed

lemma demo_root_opens:
  obtains v1 where "vfs_open ramfs_ops ''/'' O_RDONLY (demo_disk_vfs img) = done_with (v1, 0)" "isgoodfd 0 v1"
    "dir_is (v_data v1) (n_inode (v_nodes v1 (fd_file (v_descs v1 (v_files v1 ! 0))))) [(''disk'', 2)]"
    "d_offset (v_descs v1 (v_files v1 ! 0)) = 0" "length (v_files v1) = 32"
proof -
  let ?nd = "\<lparr>n_inode = 1, n_fs = 0x7000\<rparr>"
  have "fs_find_path ramfs_ops ''/'' (demo_node_block img) = done_with (0, Some ?nd)"
    using demo_disk_root [of img] by (simp add: fs_find_path_def)
  then obtain w where w: "vfs_open ramfs_ops ''/'' O_RDONLY (demo_disk_vfs img) = done_with (w, 0)" "v_data w = demo_disk img" "isgoodfd 0 w"
    "v_nodes w (fd_file (v_descs w (v_files w ! 0))) = ?nd" "d_offset (v_descs w (v_files w ! 0)) = 0" "length (v_files w) = 32"
    by (rule demo_opens [of _ _ _ "0x1200" O_RDONLY]) (auto simp: demo_disk_def demo_root_def)
  moreover have "dir_is (demo_disk img) 1 [(''disk'', 2)]" using demo_disk_tree [of img] by (simp add: ramfs_tree_def)
  ultimately show thesis by (intro that) simp_all
qed

end
