(* ===== verification/Ext2.thy ===== *)
theory Ext2
  imports File_Image
begin

text \<open>
  The reader of ext2 images, \<open>kern/fs/ext2.c\<close>. The image is a file of the memory file system, read with \<open>lseek\<close> and \<open>read\<close>
  of \<open>Vfs\<close>; the superblock, the block descriptors, inodes and buffers lie in the byte memory and are read at the offsets
  of the structures of \<open>kern/include/ext2.h\<close>. The blocks of \<open>kmalloc\<close> are arguments.
\<close>

section \<open>Structures\<close>

text \<open>\<open>ext2_sprblk_t\<close>, \<open>ext2_ex_sprblk_t\<close>, \<open>ext2_block_desc_t\<close> (20 bytes), \<open>ext2_inode_t\<close> and \<open>ext2_dirent_t\<close>.\<close>

definition sb_n_blocks :: "mem \<Rightarrow> u32 \<Rightarrow> u32" where "sb_n_blocks m p = load32 m (p + 4)"
definition sb_block_size :: "mem \<Rightarrow> u32 \<Rightarrow> u32" where "sb_block_size m p = load32 m (p + 24)"
definition sb_n_block_block_grp :: "mem \<Rightarrow> u32 \<Rightarrow> u32" where "sb_n_block_block_grp m p = load32 m (p + 32)"
definition ex_inode_size :: "mem \<Rightarrow> u32 \<Rightarrow> u16" where "ex_inode_size m p = load16 m (p + 4)"
definition bd_inode_table_addr :: "mem \<Rightarrow> u32 \<Rightarrow> u32" where "bd_inode_table_addr m p = load32 m (p + 8)"
definition in_d_ptr :: "mem \<Rightarrow> u32 \<Rightarrow> nat \<Rightarrow> u32" where "in_d_ptr m p i = load32 m (p + 40 + 4 * of_nat i)"
definition de_ext_inode :: "mem \<Rightarrow> u32 \<Rightarrow> u32" where "de_ext_inode m p = load32 m p"
definition de_ext_size :: "mem \<Rightarrow> u32 \<Rightarrow> u16" where "de_ext_size m p = load16 m (p + 4)"

record ext2_device_t =
  e_fd :: u32
  e_block_groups :: u32
  e_block_size :: u32
  e_sprblk :: u32
  e_esprblk :: u32
  e_blkdesc :: u32

section \<open>Operations\<close>

text \<open>The device is \<open>None\<close> when the image cannot be opened; a shift by 32 or more, which C leaves undefined, is 0 here; \<open>spr\<close> and \<open>desc\<close> are the two blocks.\<close>

definition ext2_create_device :: "string \<Rightarrow> u32 \<Rightarrow> u32 \<Rightarrow> ramfs vfs \<Rightarrow> (ramfs vfs \<times> ext2_device_t option) run" where
  "ext2_create_device path spr desc v =
    and_then (vfs_open ramfs_ops path O_RDONLY v) (\<lambda>(v1, fd).
      if fd < 0 then done_with (v1, None)
      else and_then (seek_read (of_int fd) 1024 spr 1024 (clear_block spr 1024 v1)) (\<lambda>(v2, _).
        let bs = push_bit (unat (sb_block_size (vmem v2) spr)) 1024;
            blocks = sb_n_blocks (vmem v2) spr; per_group = sb_n_block_block_grp (vmem v2) spr
        in if per_group = 0 then Some (Inl Div_Zero)
           else let groups = blocks div per_group + (if blocks mod per_group \<noteq> 0 then 1 else 0)
                in and_then (seek_read (of_int fd) (bs * 2) desc (20 * groups) (clear_block desc (20 * groups) v2)) (\<lambda>(v3, _).
                     done_with (v3, Some \<lparr>e_fd = of_int fd, e_block_groups = groups, e_block_size = bs, e_sprblk = spr, e_esprblk = spr + 84,
                       e_blkdesc = desc\<rparr>))))"

definition ext2_read_block :: "ext2_device_t \<Rightarrow> u32 \<Rightarrow> u32 \<Rightarrow> u32 \<Rightarrow> u32 \<Rightarrow> ramfs vfs \<Rightarrow> (ramfs vfs \<times> u32) run" where
  "ext2_read_block dev block_addr buf offset len v =
    seek_read (e_fd dev) (e_block_size dev * block_addr + offset) buf (e_block_size dev - offset - (e_block_size dev - len)) v"

definition ext2_get_inode :: "ext2_device_t \<Rightarrow> u32 \<Rightarrow> u32 \<Rightarrow> ramfs vfs \<Rightarrow> (ramfs vfs \<times> int) run" where
  "ext2_get_inode dev inode buf v =
    (let inode_size = ucast (ex_inode_size (vmem v) (e_esprblk dev));
         inode_addr = e_block_size dev * bd_inode_table_addr (vmem v) (e_blkdesc dev) + (inode - 1) * inode_size
     in and_then (seek_read (e_fd dev) inode_addr buf inode_size v) (\<lambda>(v1, _). done_with (v1, 0)))"

text \<open>The loop; the first argument is how many of the 12 pointers are left. \<open>readsize\<close> is computed but not used.\<close>

fun read_inode_loop :: "nat \<Rightarrow> ext2_device_t \<Rightarrow> u32 \<Rightarrow> u32 \<Rightarrow> u32 \<Rightarrow> u32 \<Rightarrow> u32 \<Rightarrow> ramfs vfs \<Rightarrow> (ramfs vfs \<times> u32) run" where
  "read_inode_loop 0 dev inode buf len i tot v = done_with (v, tot)"
| "read_inode_loop (Suc k) dev inode buf len i tot v =
    (if i < len then
       and_then (ext2_read_block dev (in_d_ptr (vmem v) inode (12 - Suc k)) (buf + i) 0 (e_block_size dev) v) (\<lambda>(v1, n).
         read_inode_loop k dev inode buf len (i + e_block_size dev) (tot + n) v1)
     else done_with (v, tot))"

definition ext2_read_inode :: "ext2_device_t \<Rightarrow> u32 \<Rightarrow> u32 \<Rightarrow> u32 \<Rightarrow> ramfs vfs \<Rightarrow> (ramfs vfs \<times> u32) run" where
  "ext2_read_inode dev inode buf len v = read_inode_loop 12 dev inode buf len 0 0 v"

text \<open>
  The listing of \<open>ext2fs_dump_info\<close>: addresses of the names and inode numbers. The test looks at one byte, the lowest of
  the inode number; an entry of length 0 repeats for ever.
\<close>

partial_function (option) list_dirents :: "mem \<Rightarrow> u32 \<Rightarrow> (u32 \<times> u32) list \<Rightarrow> (u32 \<times> u32) list option" where
  "list_dirents m d out =
    (if m d \<noteq> 0 then list_dirents m (d + ucast (de_ext_size m d)) (out @ [(d + 8, de_ext_inode m d)]) else Some out)"

section \<open>The layout of an image\<close>

text \<open>
  The fields of an image with blocks of 1024 bytes: the reference the reader is held against. The inodes are numbered
  from 1, so many to a block group, and each group has its own table, whose block the group's descriptor names.
\<close>

definition inodes_per_group :: "(nat \<Rightarrow> u8) \<Rightarrow> nat" where
  "inodes_per_group img = unat (img32 img (1024 + 40))"

definition inode_bytes :: "(nat \<Rightarrow> u8) \<Rightarrow> nat" where
  "inode_bytes img = unat (img16 img (1024 + 84 + 4))"

definition inode_at :: "(nat \<Rightarrow> u8) \<Rightarrow> u32 \<Rightarrow> nat" where
  "inode_at img ino =
    (let group = (unat ino - 1) div inodes_per_group img; index = (unat ino - 1) mod inodes_per_group img
     in 1024 * unat (img32 img (2048 + 20 * group + 8)) + index * inode_bytes img)"

lemma inode_at_first_group:
  "0 < ino \<Longrightarrow> unat ino \<le> inodes_per_group img \<Longrightarrow>
    inode_at img ino = 1024 * unat (img32 img (2048 + 8)) + (unat ino - 1) * inode_bytes img"
  by (simp add: inode_at_def Let_def word_less_nat_alt)

definition block_of :: "(nat \<Rightarrow> u8) \<Rightarrow> u32 \<Rightarrow> nat \<Rightarrow> nat" where
  "block_of img ino i = unat (img32 img (inode_at img ino + 40 + 4 * i))"

definition file_byte :: "(nat \<Rightarrow> u8) \<Rightarrow> u32 \<Rightarrow> nat \<Rightarrow> u8" where
  "file_byte img ino j = img (1024 * block_of img ino (j div 1024) + j mod 1024)"

definition groups_of :: "(nat \<Rightarrow> u8) \<Rightarrow> u32" where
  "groups_of img = (let b = img32 img (1024 + 4); g = img32 img (1024 + 32) in b div g + (if b mod g \<noteq> 0 then 1 else 0))"

definition ext2_image :: "(nat \<Rightarrow> u8) \<Rightarrow> nat \<Rightarrow> u32 \<Rightarrow> nat \<Rightarrow> bool" where
  "ext2_image img n ino c \<longleftrightarrow> img32 img (1024 + 24) = 0 \<and> img32 img (1024 + 32) \<noteq> 0 \<and> 0 < groups_of img \<and>
     2048 + 20 * unat (groups_of img) \<le> n \<and> 0 < ino \<and> 88 \<le> inode_bytes img \<and> inode_at img ino + inode_bytes img \<le> n \<and>
     (\<forall>i<c. 1024 * block_of img ino i + 1024 \<le> n)"

section \<open>The reader\<close>

text \<open>After \<open>p\<close> blocks: the image and the inode are in place and the buffer holds the first \<open>p\<close> blocks of the file.\<close>

definition blocks_read :: "ext2_device_t \<Rightarrow> (nat \<Rightarrow> u8) \<Rightarrow> nat \<Rightarrow> u32 \<Rightarrow> u32 \<Rightarrow> u32 \<Rightarrow> u32 \<Rightarrow> nat \<Rightarrow> ramfs vfs \<Rightarrow> bool" where
  "blocks_read dev img n D ino ibuf buf p v \<longleftrightarrow> image_open v (e_fd dev) img n D \<and>
     holds_at (vmem v) ibuf (inode_bytes img) (\<lambda>k. img (inode_at img ino + k)) \<and> holds_at (vmem v) buf (1024 * p) (file_byte img ino)"

lemma read_block_next:
  assumes b: "blocks_read dev img n D ino ibuf buf p v" and im: "ext2_image img n ino c" "p < c" "c \<le> 12"
    and dev: "e_block_size dev = 1024" and f: "far D n buf (1024 * c)" "far ibuf (inode_bytes img) buf (1024 * c)"
  obtains v' where "ext2_read_block dev (in_d_ptr (vmem v) ibuf p) (buf + of_nat (1024 * p)) 0 1024 v = done_with (v', 1024)"
    "blocks_read dev img n D ino ibuf buf (Suc p) v'"
proof -
  have i: "image_open v (e_fd dev) img n D" "holds_at (vmem v) ibuf (inode_bytes img) (\<lambda>k. img (inode_at img ino + k))"
    "holds_at (vmem v) buf (1024 * p) (file_byte img ino)" "n < 2 ^ 31" using b by (auto simp: blocks_read_def image_open_def)
  have e: "1024 * block_of img ino p + 1024 \<le> n" "88 \<le> inode_bytes img" "inode_at img ino + inode_bytes img \<le> n"
    using im by (auto simp: ext2_image_def)
  have "load32 (vmem v) (ibuf + of_nat (40 + 4 * p)) = img32 img (inode_at img ino + (40 + 4 * p))"
    by (rule holds_at_load32 [OF i(2)]) (use e(2,3) i(4) im in auto)
  then have d: "in_d_ptr (vmem v) ibuf p = of_nat (block_of img ino p)" by (simp add: in_d_ptr_def block_of_def add.assoc)
  let ?off = "1024 * of_nat (block_of img ino p) :: u32" and ?a = "buf + of_nat (1024 * p)"
  have "unat (of_nat (1024 * block_of img ino p) :: u32) = 1024 * block_of img ino p" by (rule unat_of_nat_lt32) (use e(1) i(4) in simp)
  then have off: "unat ?off = 1024 * block_of img ino p" by simp
  have fp: "far D n ?a 1024" "far ibuf (inode_bytes img) ?a 1024" by (rule far_part [OF f(1)] far_part [OF f(2)]; use im(2) in simp)+
  have fb: "far buf (1024 * p) ?a 1024" by (rule far_next) (use f(1) im(2) in \<open>auto simp: far_def\<close>)
  obtain v' where v': "seek_read (e_fd dev) ?off ?a 1024 v = done_with (v', 1024)" "image_open v' (e_fd dev) img n D"
    "vmem v' = put_at ?a 1024 (\<lambda>k. img (unat ?off + k)) (vmem v)"
    by (rule seek_read_image [OF i(1), of ?off 1024 ?a]) (use e(1) off fp(1) in auto)
  have "ext2_read_block dev (in_d_ptr (vmem v) ibuf p) ?a 0 1024 v = done_with (v', 1024)"
    using v'(1) dev d by (simp add: ext2_read_block_def)
  moreover have "holds_at (vmem v') ?a 1024 (\<lambda>k. file_byte img ino (1024 * p + k))"
    using put_at_holds [of 1024 1024 ?a "\<lambda>k. img (unat ?off + k)" "vmem v"] unfolding v'(3) holds_at_def off by (simp add: file_byte_def)
  then have "holds_at (vmem v') buf (1024 * p + 1024) (file_byte img ino)"
    by (rule holds_at_append [rotated]) (use put_at_far [of buf "1024 * p" ?a 1024] fb i(3) v'(3) in auto)
  moreover have "holds_at (vmem v') ibuf (inode_bytes img) (\<lambda>k. img (inode_at img ino + k))"
    using put_at_far [of ibuf "inode_bytes img" ?a 1024] fp(2) i(2) v'(3) by auto
  ultimately show thesis using that v'(2) by (simp add: blocks_read_def add.commute)
qed

lemma read_inode_loop_blocks:
  assumes im: "ext2_image img n ino c" "c = min 12 ((unat len + 1023) div 1024)" and dev: "e_block_size dev = 1024"
    and f: "far D n buf (1024 * c)" "far ibuf (inode_bytes img) buf (1024 * c)"
  shows "blocks_read dev img n D ino ibuf buf (12 - k) v \<Longrightarrow> k \<le> 12 \<Longrightarrow> 12 - k \<le> c \<Longrightarrow>
    \<exists>v'. read_inode_loop k dev ibuf buf len (of_nat (1024 * (12 - k))) (of_nat (1024 * (12 - k))) v = done_with (v', of_nat (1024 * c)) \<and>
      blocks_read dev img n D ino ibuf buf c v'"
proof (induction k arbitrary: v)
  case 0
  then have "c = 12" using im(2) by simp
  then show ?case using 0 by simp
next
  case (Suc k)
  let ?p = "12 - Suc k"
  have p: "12 - k = Suc ?p" "c \<le> 12" using Suc.prems(2) im(2) by simp_all
  have u: "unat (of_nat (1024 * ?p) :: u32) = 1024 * ?p" by (rule unat_of_nat_lt32) simp
  have less: "of_nat (1024 * ?p) < len \<longleftrightarrow> ?p < c" unfolding word_less_nat_alt u using im(2) by auto
  show ?case
  proof (cases "?p < c")
    case True
    obtain v1 where v1: "ext2_read_block dev (in_d_ptr (vmem v) ibuf ?p) (buf + of_nat (1024 * ?p)) 0 1024 v = done_with (v1, 1024)"
      "blocks_read dev img n D ino ibuf buf (12 - k) v1"
      unfolding p(1) by (rule read_block_next [OF Suc.prems(1) im(1) True p(2) dev f])
    have s: "of_nat (1024 * ?p) + 1024 = (of_nat (1024 * (12 - k)) :: u32)" unfolding p(1) by simp
    have "read_inode_loop (Suc k) dev ibuf buf len (of_nat (1024 * ?p)) (of_nat (1024 * ?p)) v =
        read_inode_loop k dev ibuf buf len (of_nat (1024 * (12 - k))) (of_nat (1024 * (12 - k))) v1"
      using less True v1(1) dev by (simp only: read_inode_loop.simps if_True and_then_simps prod.case s)
    then show ?thesis using Suc.IH [OF v1(2)] Suc.prems(2) True p(1) by simp
  next
    case False
    then have "?p = c" using Suc.prems(3) by simp
    then show ?thesis using less False Suc.prems(1) by (simp only: read_inode_loop.simps if_False) auto
  qed
qed

definition ext2_device_of :: "(nat \<Rightarrow> u8) \<Rightarrow> u32 \<Rightarrow> u32 \<Rightarrow> u32 \<Rightarrow> ext2_device_t" where
  "ext2_device_of img fd spr desc = \<lparr>e_fd = fd, e_block_groups = groups_of img, e_block_size = 1024, e_sprblk = spr, e_esprblk = spr + 84, e_blkdesc = desc\<rparr>"

lemma create_device_reads:
  assumes op: "vfs_open ramfs_ops path O_RDONLY v = done_with (v1, fd)" "0 \<le> fd" and io: "image_open v1 (of_int fd) img n D"
    and im: "ext2_image img n ino c" and f: "far D n spr 1024" "far D n desc (20 * unat (groups_of img))" "far spr 1024 desc (20 * unat (groups_of img))"
  obtains v2 where "ext2_create_device path spr desc v = done_with (v2, Some (ext2_device_of img (of_int fd) spr desc))"
    "image_open v2 (of_int fd) img n D" "holds_at (vmem v2) spr 1024 (\<lambda>k. img (1024 + k))"
    "holds_at (vmem v2) desc (20 * unat (groups_of img)) (\<lambda>k. img (2048 + k))"
proof -
  let ?g = "groups_of img" and ?fd = "of_int fd :: u32"
  have e: "img32 img (1024 + 24) = 0" "img32 img (1024 + 32) \<noteq> 0" "0 < ?g" "2048 + 20 * unat ?g \<le> n" and n: "n < 2 ^ 31"
    using im io by (auto simp: ext2_image_def image_open_def)
  then have g: "unat (20 * ?g) = 20 * unat ?g" by (simp add: unat_word_ariths)
  have f1: "far D n spr (unat (1024 :: u32))" "far D n desc (unat (20 * ?g))" using f(1,2) g by simp_all
  note cl = clear_block_image [OF io f1(1)]
  obtain w where w: "seek_read ?fd 1024 spr 1024 (clear_block spr 1024 v1) = done_with (w, 1024)" "image_open w ?fd img n D"
    "vmem w = put_at spr 1024 (\<lambda>k. img (unat (1024 :: u32) + k)) (vmem (clear_block spr 1024 v1))"
    by (rule seek_read_image [OF cl(1), of 1024 1024 spr]) (use e(3,4) f1(1) in \<open>auto simp: word_less_nat_alt\<close>)
  have sb: "holds_at (vmem w) spr 1024 (\<lambda>k. img (1024 + k))" unfolding w(3) using put_at_holds [of 1024 1024] by simp
  have "sb_block_size (vmem w) spr = 0" "sb_n_blocks (vmem w) spr = img32 img (1024 + 4)" "sb_n_block_block_grp (vmem w) spr = img32 img (1024 + 32)"
    using holds_at_load32 [OF sb, of 24] holds_at_load32 [OF sb, of 4] holds_at_load32 [OF sb, of 32] e(1)
    by (simp_all add: sb_block_size_def sb_n_blocks_def sb_n_block_block_grp_def)
  note fields = this
  note cl2 = clear_block_image [OF w(2) f1(2)]
  obtain w2 where w2: "seek_read ?fd 2048 desc (20 * ?g) (clear_block desc (20 * ?g) w) = done_with (w2, 20 * ?g)" "image_open w2 ?fd img n D"
    "vmem w2 = put_at desc (20 * ?g) (\<lambda>k. img (unat (2048 :: u32) + k)) (vmem (clear_block desc (20 * ?g) w))"
    by (rule seek_read_image [OF cl2(1), of 2048 "20 * ?g" desc]) (use e(4) f1(2) g in auto)
  have "holds_at (vmem w2) desc (20 * unat ?g) (\<lambda>k. img (2048 + k))" unfolding w2(3) using put_at_holds [of "20 * unat ?g" "20 * ?g"] g by simp
  moreover have "holds_at (vmem w2) spr 1024 (\<lambda>k. img (1024 + k))"
    unfolding w2(3) cl2(2) using f(3) g sb by (intro put_at_far) simp_all
  moreover have "ext2_create_device path spr desc v = done_with (w2, Some (ext2_device_of img ?fd spr desc))"
    using op w(1) w2(1) fields e(2) by (simp add: ext2_create_device_def ext2_device_of_def groups_of_def Let_def)
  ultimately show thesis using that w2(2) by blast
qed

lemma get_inode_reads:
  assumes io: "image_open v fd img n D" "holds_at (vmem v) spr 1024 (\<lambda>k. img (1024 + k))"
    "holds_at (vmem v) desc (20 * unat (groups_of img)) (\<lambda>k. img (2048 + k))"
    and im: "ext2_image img n ino c" "unat ino \<le> inodes_per_group img" and f: "far D n ibuf (inode_bytes img)"
  obtains v' where "ext2_get_inode (ext2_device_of img fd spr desc) ino ibuf v = done_with (v', 0)"
    "blocks_read (ext2_device_of img fd spr desc) img n D ino ibuf buf 0 v'"
proof -
  let ?isz = "ucast (img16 img (1024 + 84 + 4)) :: u32"
  have e: "0 < groups_of img" "0 < ino" "88 \<le> inode_bytes img" "inode_at img ino + inode_bytes img \<le> n" and n: "n < 2 ^ 31"
    using im io by (auto simp: ext2_image_def image_open_def)
  have isz: "unat ?isz = inode_bytes img" 
    using unsigned_less [of "img16 img 1112", where 'a = nat] by (simp add: inode_bytes_def unsigned_ucast_eq take_bit_nat_eq_self_iff)
  have "load16 (vmem v) (spr + of_nat 88) = img16 img (1024 + 88)" by (rule holds_at_load16 [OF io(2)]) simp_all
  then have sz: "ex_inode_size (vmem v) (spr + 84) = img16 img (1024 + 84 + 4)" by (simp add: ex_inode_size_def add.assoc)
  have "load32 (vmem v) (desc + of_nat 8) = img32 img (2048 + 8)"
    by (rule holds_at_load32 [OF io(3)]) (use e(1) in \<open>simp_all add: word_less_nat_alt\<close>)
  then have tb: "bd_inode_table_addr (vmem v) desc = img32 img (2048 + 8)" by (simp add: bd_inode_table_addr_def)
  let ?addr = "1024 * img32 img (2048 + 8) + (ino - 1) * ?isz"
  have "unat (ino - 1) = unat ino - 1" using e(2) by (simp add: unat_minus_one word_gt_0)
  then have "?addr = of_nat (inode_at img ino)"
    using isz by (simp add: inode_at_first_group [OF e(2) im(2)] flip: isz) (metis of_nat_unat ucast_id)
  then have ad: "unat ?addr = inode_at img ino" using e(3,4) n by simp
  obtain v' where v': "seek_read fd ?addr ibuf ?isz v = done_with (v', ?isz)" "image_open v' fd img n D"
    "vmem v' = put_at ibuf ?isz (\<lambda>k. img (unat ?addr + k)) (vmem v)"
    by (rule seek_read_image [OF io(1), of ?addr ?isz ibuf]) (use e(4) ad isz f in auto)
  have "ext2_get_inode (ext2_device_of img fd spr desc) ino ibuf v = done_with (v', 0)"
    using v'(1) sz tb by (simp add: ext2_get_inode_def ext2_device_of_def Let_def)
  moreover have "holds_at (vmem v') ibuf (inode_bytes img) (\<lambda>k. img (inode_at img ino + k))"
    unfolding v'(3) ad using put_at_holds [of "inode_bytes img" ?isz] isz by simp
  ultimately show thesis using that v'(2) by (simp add: blocks_read_def ext2_device_of_def holds_at_def)
qed

text \<open>
  C15. A file of an image is read as the layout of the image says: on an image with blocks of 1024 bytes, opening the
  device, fetching an inode of the first block group and reading \<open>len\<close> bytes through it returns, and the buffer then holds
  the blocks the inode points to, one after the other, of the file's first 12. The reader only moves whole blocks, so it
  reports and writes \<open>len\<close> rounded up to a multiple of 1024: the buffer has to be that long. For an inode of a later
  group the code still goes to the table of the first one, and a pointer 0, which stands for a hole, is read as block 0.
\<close>

theorem ext2_reads_file:
  assumes "vfs_open ramfs_ops path O_RDONLY v = done_with (v1, fd)" "0 \<le> fd" "image_open v1 (of_int fd) img n D"
    and "ext2_image img n ino c" "c = min 12 ((unat len + 1023) div 1024)" "unat ino \<le> inodes_per_group img"
    and "far D n spr 1024" "far D n desc (20 * unat (groups_of img))" "far spr 1024 desc (20 * unat (groups_of img))"
    and "far D n ibuf (inode_bytes img)" "far D n buf (1024 * c)" "far ibuf (inode_bytes img) buf (1024 * c)"
  shows "\<exists>v2 dev v3 v4. ext2_create_device path spr desc v = done_with (v2, Some dev) \<and>
    ext2_get_inode dev ino ibuf v2 = done_with (v3, 0) \<and> ext2_read_inode dev ibuf buf len v3 = done_with (v4, of_nat (1024 * c)) \<and>
    (\<forall>j<1024 * c. vmem v4 (buf + of_nat j) = file_byte img ino j)"
proof -
  let ?dev = "ext2_device_of img (of_int fd) spr desc"
  obtain v2 where v2: "ext2_create_device path spr desc v = done_with (v2, Some ?dev)" "image_open v2 (of_int fd) img n D"
    "holds_at (vmem v2) spr 1024 (\<lambda>k. img (1024 + k))" "holds_at (vmem v2) desc (20 * unat (groups_of img)) (\<lambda>k. img (2048 + k))"
    by (rule create_device_reads [OF assms(1-4,7-9)])
  obtain v3 where v3: "ext2_get_inode ?dev ino ibuf v2 = done_with (v3, 0)" "blocks_read ?dev img n D ino ibuf buf 0 v3"
    by (rule get_inode_reads [OF v2(2-4) assms(4,6,10)])
  have "e_block_size ?dev = 1024" by (simp add: ext2_device_of_def)
  from read_inode_loop_blocks [OF assms(4,5) this assms(11,12), of 12 v3] v3(2) obtain v4 where
    "ext2_read_inode ?dev ibuf buf len v3 = done_with (v4, of_nat (1024 * c))" "blocks_read ?dev img n D ino ibuf buf c v4"
    by (auto simp: ext2_read_inode_def)
  then show ?thesis using v2(1) v3(1) by (fastforce simp: blocks_read_def holds_at_def)
qed

text \<open>
  The listing of a directory does not end when an entry has length 0 and an inode number whose low byte is not 0.
\<close>

lemma list_dirents_loops:
  assumes "m d \<noteq> 0" "de_ext_size m d = 0"
  shows "list_dirents m d out = None"
proof -
  have "\<not> (m d \<noteq> 0 \<and> de_ext_size m d = 0)" if "list_dirents m d out = Some xs" for xs
    by (rule list_dirents.raw_induct [where P = "\<lambda>m d out xs. \<not> (m d \<noteq> 0 \<and> de_ext_size m d = 0)", OF _ that])
      (fastforce split: if_splits)
  then show ?thesis using assms by (cases "list_dirents m d out") auto
qed

section \<open>An image\<close>

definition demo_img :: "nat \<Rightarrow> u8" where
  "demo_img k = (if k = 1028 then 4 else if k = 1056 then 8 else if k = 1064 then 8 else if k = 1112 then 128 else if k = 2056 then 3 else if k = 3112 then 3 else 0)"

lemma demo_img_fields:
  "img32 demo_img 1048 = 0" "img32 demo_img 1064 = 8" "img32 demo_img 1028 = 4" "img32 demo_img 1056 = 8" "img16 demo_img 1112 = 128" "img32 demo_img 2056 = 3"
  "img32 demo_img 3112 = 3"
  by (simp_all add: img32_def img16_def load32_def load16_def demo_img_def)

lemma demo_img_facts: "groups_of demo_img = 1" "inodes_per_group demo_img = 8" "inode_bytes demo_img = 128" "inode_at demo_img 1 = 3072" "block_of demo_img 1 0 = 3"
  by (simp_all add: groups_of_def inode_bytes_def inode_at_def block_of_def inodes_per_group_def demo_img_fields)

lemma demo_img_image: "ext2_image demo_img 4096 1 1"
  by (simp add: ext2_image_def demo_img_facts demo_img_fields)

theorem ext2_reads_file_witness:
  "\<exists>v2 dev v3 v4. ext2_create_device ''/disk'' 0x20000 0x21000 (demo_disk_vfs demo_img) = done_with (v2, Some dev) \<and>
    ext2_get_inode dev 1 0x22000 v2 = done_with (v3, 0) \<and> ext2_read_inode dev 0x22000 0x23000 1024 v3 = done_with (v4, 1024) \<and>
    vmem v4 0x23028 = 3"
proof -
  obtain v1 where o: "vfs_open ramfs_ops ''/disk'' O_RDONLY (demo_disk_vfs demo_img) = done_with (v1, 0)" "image_open v1 0 demo_img 4096 0x10000"
    by (rule demo_disk_opens)
  have io: "image_open v1 (of_int 0) demo_img 4096 0x10000" using o(2) by simp
  have "\<exists>v2 dev v3 v4. ext2_create_device ''/disk'' 0x20000 0x21000 (demo_disk_vfs demo_img) = done_with (v2, Some dev) \<and>
    ext2_get_inode dev 1 0x22000 v2 = done_with (v3, 0) \<and>
    ext2_read_inode dev 0x22000 0x23000 1024 v3 = done_with (v4, of_nat (1024 * 1)) \<and>
    (\<forall>j<1024 * 1. vmem v4 (0x23000 + of_nat j) = file_byte demo_img 1 j)"
    by (rule ext2_reads_file [OF o(1) _ io demo_img_image]) (simp_all add: far_def demo_img_facts)
  moreover have "file_byte demo_img 1 40 = 3" by (simp add: file_byte_def demo_img_facts) (simp add: demo_img_def)
  ultimately show ?thesis by (auto dest!: spec [of _ "40 :: nat"])
qed

end
