(* ===== verification/Clone.thy ===== *)
theory Clone
  imports Paging
begin

text \<open>
  Copies of page directories: \<open>clone_page_dir\<close> of \<open>kern/mem/paging.c\<close> gives a directory that shares the tables of its
  source. What is mapped through a shared table is seen in both, a table that is added later belongs to one of them.
\<close>

section \<open>What mapping a page writes\<close>

text \<open>\<open>writes_table st st' dir li\<close>: only the directory and the table of entry \<open>li\<close> have been written, and no other entry moved.\<close>

definition writes_table :: "kmem \<Rightarrow> kmem \<Rightarrow> u32 \<Rightarrow> u32 \<Rightarrow> bool" where
  "writes_table st st' dir li \<longleftrightarrow>
     (\<forall>i<1024. i \<noteq> li \<or> dir_entry st dir i \<noteq> 0 \<longrightarrow> page_of (dir_entry st' dir i) = page_of (dir_entry st dir i)) \<and>
     (dir_entry st dir li = 0 \<longrightarrow> page_of (dir_entry st' dir li) = align_up (placement st)) \<and>
     (\<forall>b. 4 dvd unat b \<and> page_of b \<notin> {dir, dir + 0x1000, page_of (dir_entry st' dir li)} \<longrightarrow> rd st' b = rd st b)"

lemma writes_table_page_ptr [simp]: "writes_table st (st'\<lparr>page_ptr := p\<rparr>) dir li = writes_table st st' dir li"
  by (simp add: writes_table_def)

lemma set_entry_writes:
  assumes "table_ready st dir (low_index a) t" "perms < 0x1000"
  shows "writes_table st (set_entry a v t perms dir st) dir (low_index a)"
proof -
  note r = table_readyD [OF assms(1)]
  have "b \<noteq> tables_at dir (low_index a) \<and> b \<noteq> t + 4 * high_index a" if "page_of b \<notin> {dir, t}" for b
    using that r by auto
  then show ?thesis
    using r assms(2) by (auto simp: writes_table_def set_entry_dir [OF assms(1)] set_entry_rd [OF assms(1)] page_of_or)
qed

lemma mask_writes:
  assumes "dir_ok st dir" "li < 1024" "dir_entry st dir li \<noteq> 0"
  shows "writes_table st (wr (tables_at dir li) (page_of (dir_entry st dir li)) st) dir li"
proof -
  note d = dir_okD [OF assms(1)]
  have "rd (wr (tables_at dir li) v st) b = rd st b" if "4 dvd unat b" "page_of b \<noteq> dir" for b v
    using that assms(2) d by (simp add: tables_at_def rd_wr_slot)
  moreover have "dir_entry (wr (tables_at dir li) v st) dir i = (if li = i then v else dir_entry st dir i)" if "i < 1024" for v i
    by (rule rd_dir_wr_dir [OF d(1) assms(2) that])
  ultimately show ?thesis using assms(2,3) by (simp add: writes_table_def page_of_0_iff)
qed

lemma map_page_writes:
  assumes "dir_ok st dir" "unat (placement st) + 0x2000 < 2 ^ 32" "perms < 0x1000" "stack_bottom st < page_ptr st"
    and "map_page_with kmalloc_early a perms dir st = done_with st'"
  shows "writes_table st st' dir (low_index a)"
proof -
  let ?li = "low_index a"
  obtain st1 t where e: "ensure_table kmalloc_early a perms dir st = done_with (st1, t)" "table_ready st1 dir ?li t" "same_pool st st1"
    by (rule ensure_table_early [OF assms(1-3)])
  have p: "stack_bottom st1 < page_ptr st1" using e(3) assms(4) by (simp add: same_pool_def)
  have "st' = (if get_page a dir st1 = 0 then (set_entry a (top_frame st1 OR perms) t perms dir st1)\<lparr>page_ptr := page_ptr st1 - 1\<rparr>
      else set_entry a (get_page a dir st1 OR perms) t perms dir st1)"
    using map_page_ready [OF e(1,2) p] assms(5) by simp
  then have w: "writes_table st1 st' dir ?li"
    using set_entry_writes [OF e(2) assms(3)] by auto
  note t = table_readyD [OF e(2)]
  have w1: "writes_table st st1 dir ?li"
  proof (cases "dir_entry st dir ?li = 0")
    case True
    then have "st1 = fresh_table ?li perms dir st" "t = align_up (placement st)"
      using ensure_table_fresh [OF assms(1,2) True] e(1) by simp_all
    then show ?thesis
      using True t fresh_table_entry [OF assms(1) _ assms(2), of ?li] fresh_table_far [OF assms(1) _ assms(2), of ?li]
      by (auto simp: writes_table_def)
  next
    case False
    then have "st1 = wr (tables_at dir ?li) (page_of (dir_entry st dir ?li)) st" using e(1) by (auto simp: ensure_table_def Let_def)
    then show ?thesis using mask_writes [OF assms(1) _ False] by simp
  qed
  have same: "page_of (dir_entry st' dir ?li) = page_of (dir_entry st1 dir ?li)" using w t(2,3) by (simp add: writes_table_def)
  show ?thesis
    using w w1 t(2,3) same unfolding writes_table_def by (auto simp del: u32_less_1024)
qed


section \<open>The copy\<close>

lemma memset_dir_rd:
  assumes "page_aligned p" "unat p + 8196 \<le> 2 ^ 32" "4 dvd unat b"
  shows "rd (st\<lparr>ram := memset (ram st) p 0 8196\<rparr>) b = (if unat (b - p) < 8196 then 0 else rd st b)"
proof -
  obtain q r where q: "unat b = 4 * q" "unat p = 4 * r" using assms(1,3) by (auto simp: page_aligned_def elim!: dvdE)
  have b: "unat (b + k) = unat b + unat k" if "unat k < 4" for k
    using q that unat_u32_less [of b] by (subst unat_add_lem [THEN iffD1]) auto
  have "unat (b + k - p) < 8196 \<longleftrightarrow> unat (b - p) < 8196" if "unat k < 4" for k
  proof (cases "unat p \<le> unat b")
    case True
    then show ?thesis using that q b [OF that] by (simp add: unat_minus_cases) presburger
  next
    case False
    then have "unat b + 4 \<le> unat p" using q by presburger
    moreover have "unat p \<le> unat b + unat k \<longleftrightarrow> False" using calculation that by simp
    ultimately show ?thesis using False assms(2) by (simp add: unat_minus_cases b [OF that]) arith
  qed
  from this [of 0] this [of 1] this [of 2] this [of 3] show ?thesis
    by (simp add: rd_def load32_def memset_apply)
qed


definition dir_copy :: "u32 \<Rightarrow> u32 \<Rightarrow> kmem \<Rightarrow> nat \<Rightarrow> kmem \<Rightarrow> bool" where
  "dir_copy src d st k S \<longleftrightarrow>
     (\<forall>i<1024. dir_entry S d i = (if unat i < k then dir_entry st src i else 0)) \<and>
     (\<forall>i<1024. rd S (table_addr_at d i) = (if unat i < k \<and> dir_entry st src i \<noteq> 0 then rd st (table_addr_at src i) else 0)) \<and>
     (\<forall>b. 4 dvd unat b \<and> page_of b \<notin> {d, d + 0x1000, d + 0x2000} \<longrightarrow> rd S b = rd st b) \<and>
     page_stack S = page_stack st \<and> npages S = npages st \<and> page_ptr S = page_ptr st \<and> stack_bottom S = stack_bottom st \<and>
     placement S = d + 8196 \<and> kheap S = kheap st"

lemma new_dir_facts:
  assumes "dir_ok st src" "unat (placement st) + 0x6000 < 2 ^ 32"
  defines "d \<equiv> align_up (placement st)"
  shows "page_aligned d" "unat (placement st) \<le> unat d" "unat d + 0x5000 < 2 ^ 32"
    "unat (d + 0x1000) = unat d + 0x1000" "unat (d + 0x2000) = unat d + 0x2000"
    "page_aligned (d + 0x1000)" "page_aligned (d + 0x2000)"
    "src \<notin> {d, d + 0x1000, d + 0x2000}" "src + 0x1000 \<notin> {d, d + 0x1000, d + 0x2000}"
    "k \<le> npages st \<Longrightarrow> page_of (slot st k) \<notin> {d, d + 0x1000, d + 0x2000}"
    "i < 1024 \<Longrightarrow> dir_entry st src i \<noteq> 0 \<Longrightarrow> page_of (dir_entry st src i) \<notin> {d, d + 0x1000, d + 0x2000}"
proof -
  note o = dir_okD [OF assms(1)]
  show al: "page_aligned d" "unat (placement st) \<le> unat d" and up: "unat d + 0x5000 < 2 ^ 32"
    using align_up [of "placement st"] assms(2) by (simp_all add: d_def)
  have "unat d + unat (0x1000 :: u32) < 2 ^ 32" "unat d + unat (0x2000 :: u32) < 2 ^ 32" using up by simp_all
  then show d: "unat (d + 0x1000) = unat d + 0x1000" "unat (d + 0x2000) = unat d + 0x2000" by (simp_all add: unat_add_lem [THEN iffD1])
  then show "page_aligned (d + 0x1000)" "page_aligned (d + 0x2000)" using al by (simp_all add: page_aligned_def)
  have below: "x \<notin> {d, d + 0x1000, d + 0x2000}" if "unat x < unat (placement st)" for x using that al(2) d by auto
  show "src \<notin> {d, d + 0x1000, d + 0x2000}" "src + 0x1000 \<notin> {d, d + 0x1000, d + 0x2000}" by (rule below; use o in simp)+
  show "k \<le> npages st \<Longrightarrow> page_of (slot st k) \<notin> {d, d + 0x1000, d + 0x2000}"
    using dir_ok_slot(3) [OF assms(1)] by (intro below)
  show "i < 1024 \<Longrightarrow> dir_entry st src i \<noteq> 0 \<Longrightarrow> page_of (dir_entry st src i) \<notin> {d, d + 0x1000, d + 0x2000}"
    using dir_ok_table(5) [OF assms(1)] by (intro below)
qed

lemma clone_start:
  assumes "dir_ok st src" "unat (placement st) + 0x6000 < 2 ^ 32"
  defines "d \<equiv> align_up (placement st)"
  defines "S \<equiv> wr (address_at d) (d + 0x1000) (st\<lparr>placement := d + 8196, ram := memset (ram st) d 0 8196\<rparr>)"
  shows "dir_copy src d st 0 S"
proof -
  note n = new_dir_facts [OF assms(1,2), folded d_def]
  have al: "4 dvd unat (address_at d)" using n aligned_dvd4 by (simp add: address_at_def)
  have m: "rd S b = (if unat (b - d) < 8196 then 0 else rd st b)" if "4 dvd unat b" "b \<noteq> d + 0x2000" for b
    using memset_dir_rd [OF n(1) _ that(1), of "st\<lparr>placement := d + 8196\<rparr>"] n(3) that al
    by (simp add: S_def rd_wr address_at_def)
  have e: "rd S (d + 4 * i) = 0" "rd S (d + 0x1000 + 4 * i) = 0" if "i < 1024" for i
  proof -
    have u: "unat (4 * i) = 4 * unat i" "unat (0x1000 + 4 * i) = 0x1000 + 4 * unat i" using that by (simp_all add: unat_word_ariths)
    have "d + 4 * i \<noteq> d + 0x2000" "d + (0x1000 + 4 * i) \<noteq> d + 0x2000" using u that by (auto dest: arg_cong [of _ _ unat])
    moreover have "4 dvd unat (d + 4 * i)" "4 dvd unat (d + 0x1000 + 4 * i)" using n(1,6) aligned_dvd4 dvd4_offset by auto
    moreover have "unat (d + 4 * i - d) < 8196" "unat (d + 0x1000 + 4 * i - d) < 8196" using u that by (simp_all add: add.assoc)
    ultimately show "rd S (d + 4 * i) = 0" "rd S (d + 0x1000 + 4 * i) = 0" using m by (simp_all add: add.assoc)
  qed
  have far: "rd S b = rd st b" if "4 dvd unat b" "page_of b \<notin> {d, d + 0x1000, d + 0x2000}" for b
  proof -
    have "\<not> unat (b - d) < 8196"
    proof
      assume "unat (b - d) < 8196"
      then have b: "unat b = unat d + unat (b - d)" "unat (b - d) < 8196"
        using n(3) by (auto simp: unat_minus_cases split: if_splits)
      obtain q where q: "unat d = 4096 * q" using n(1) by (auto simp: page_aligned_def elim!: dvdE)
      have "unat (b - d) div 4096 \<in> {0, 1, 2}" using b(2) by auto
      then have "unat (page_of b) \<in> {unat d, unat d + 0x1000, unat d + 0x2000}"
        unfolding unat_page_of b(1) q by auto
      then show False using that(2) n(4,5) by (auto simp: word_unat_eq_iff)
    qed
    moreover have "b \<noteq> d + 0x2000" using that(2) n(7) by (auto simp: page_of_0_iff)
    ultimately show ?thesis using m that(1) by simp
  qed
  show ?thesis using e far by (simp add: dir_copy_def tables_at_def table_addr_at_def) (simp add: S_def)
qed


lemma clone_step:
  assumes "dir_ok st src" "unat (placement st) + 0x6000 < 2 ^ 32" "d = align_up (placement st)"
    and "dir_copy src d st k S" "k < 1024"
  shows "dir_copy src d st (Suc k) (clone_dir_entry src d k S)"
proof -
  note n = new_dir_facts [OF assms(1,2), folded assms(3)]
  let ?i = "of_nat k :: u32"
  have i: "?i < 1024" "unat ?i = k" using assms(5) by (simp_all add: unat_of_nat_lt32)
  have eq: "unat j = k \<longleftrightarrow> j = ?i" for j using i(2) by (metis of_nat_unat ucast_id)
  have suc: "unat j < Suc k \<longleftrightarrow> unat j < k \<or> j = ?i" for j using eq [of j] by auto
  note S = assms(4) [unfolded dir_copy_def]
  have pg: "page_of (d + 4 * j) = d" "page_of (d + 0x1000 + 4 * j) = d + 0x1000" "4 dvd unat (d + 4 * j)" "4 dvd unat (d + 0x1000 + 4 * j)"
    if "j < 1024" for j using that n(1,6) by (simp_all add: page_of_offset page_offset_aligned)
  note sp = tables_at_page [OF assms(1) i(1)]
  have s: "rd S (tables_at src ?i) = dir_entry st src ?i" "rd S (table_addr_at src ?i) = rd st (table_addr_at src ?i)"
    using S sp n(8,9) by auto
  have dd: "d + 4 * a \<noteq> d + 0x1000 + 4 * b" if "a < 1024" "b < 1024" for a b
  proof
    assume "d + 4 * a = d + 0x1000 + 4 * b"
    then have "page_of (d + 4 * a) = page_of (d + 0x1000 + 4 * b)" by (rule arg_cong)
    then have "d = d + 0x1000" using pg that by simp
    then show False by simp
  qed
  have same: "d + 4 * a = d + 4 * b \<longleftrightarrow> a = b" "d + 0x1000 + 4 * a = d + 0x1000 + 4 * b \<longleftrightarrow> a = b"
    if "a < 1024" "b < 1024" for a b
    using that page_offset_eq [of d d a b] page_offset_eq [of "d + 0x1000" "d + 0x1000" a b] n(1,6) by auto
  have w: "rd (wr (d + 4 * ?i) v S') b = (if b = d + 4 * ?i then v else rd S' b)"
      "rd (wr (d + 0x1000 + 4 * ?i) v S') b = (if b = d + 0x1000 + 4 * ?i then v else rd S' b)" if "4 dvd unat b" for v S' b
    using that pg i(1) by (simp_all add: rd_wr)
  show ?thesis
  proof (cases "dir_entry st src ?i = 0")
    case True
    then have "clone_dir_entry src d k S = S" by (simp add: clone_dir_entry_def s)
    then show ?thesis using S True by (auto simp: dir_copy_def suc simp del: u32_less_1024)
  next
    case False
    let ?S1 = "wr (tables_at d ?i) (dir_entry st src ?i) S"
    have "rd ?S1 (table_addr_at src ?i) = rd st (table_addr_at src ?i)"
      using s(2) w(1) [of "table_addr_at src ?i"] sp(2,4) n(9) pg(1) [OF i(1)] by (auto simp: tables_at_def)
    then have c: "clone_dir_entry src d k S = wr (table_addr_at d ?i) (rd st (table_addr_at src ?i)) ?S1"
      using False by (simp add: clone_dir_entry_def s Let_def)
    have r: "rd (clone_dir_entry src d k S) b = (if b = d + 0x1000 + 4 * ?i then rd st (table_addr_at src ?i)
        else if b = d + 4 * ?i then dir_entry st src ?i else rd S b)" if "4 dvd unat b" for b
      unfolding c tables_at_def table_addr_at_def using that w by simp
    have r1: "dir_entry (clone_dir_entry src d k S) d j = (if j = ?i then dir_entry st src ?i else dir_entry S d j)"
      and r2: "rd (clone_dir_entry src d k S) (table_addr_at d j) = (if j = ?i then rd st (table_addr_at src ?i) else rd S (table_addr_at d j))"
      if "j < 1024" for j
      unfolding tables_at_def table_addr_at_def using r pg dd [OF that i(1)] dd [OF i(1) that] same [OF that i(1)] that
      by (simp_all only: if_False if_True split: if_splits) (auto simp: tables_at_def table_addr_at_def simp del: add_left_cancel)
    have r3: "rd (clone_dir_entry src d k S) b = rd S b" if "4 dvd unat b" "page_of b \<notin> {d, d + 0x1000, d + 0x2000}" for b
      using r [OF that(1)] that(2) pg i(1) by auto
    have "page_stack (clone_dir_entry src d k S) = page_stack S" "npages (clone_dir_entry src d k S) = npages S"
      "page_ptr (clone_dir_entry src d k S) = page_ptr S" "stack_bottom (clone_dir_entry src d k S) = stack_bottom S"
      "placement (clone_dir_entry src d k S) = placement S" "kheap (clone_dir_entry src d k S) = kheap S" by (simp_all add: c)
    then show ?thesis using S False unfolding dir_copy_def by (auto simp: r1 r2 r3 suc simp del: u32_less_1024)
  qed
qed


lemma clone_copies:
  assumes "dir_ok st src" "unat (placement st) + 0x6000 < 2 ^ 32" "d = align_up (placement st)"
  obtains S where "clone_page_dir src st = (S, d)" "dir_copy src d st 1024 S"
proof -
  let ?S0 = "wr (address_at d) (d + 0x1000) (st\<lparr>placement := d + 8196, ram := memset (ram st) d 0 8196\<rparr>)"
  have "k \<le> 1024 \<Longrightarrow> dir_copy src d st k (fold (clone_dir_entry src d) [0..<k] ?S0)" for k
  proof (induction k)
    case 0
    then show ?case using clone_start [OF assms(1,2)] assms(3) by simp
  next
    case (Suc k)
    then show ?case using clone_step [OF assms(1-3), of k] by simp
  qed
  from this [of 1024] that show thesis by (simp add: clone_page_dir_def kmalloc_e_aligned Let_def assms(3))
qed

lemma clone_dirs:
  assumes "dir_ok st src" "unat (placement st) + 0x6000 < 2 ^ 32" "d = align_up (placement st)" "dir_copy src d st 1024 S"
  shows "dir_ok S d" "dir_ok S src" "\<And>i. i < 1024 \<Longrightarrow> dir_entry S d i = dir_entry st src i"
    "\<And>i. i < 1024 \<Longrightarrow> dir_entry S src i = dir_entry st src i" "get_page b d S = get_page b src st" "get_page b src S = get_page b src st"
proof -
  note n = new_dir_facts [OF assms(1,2), folded assms(3)] and o = dir_okD [OF assms(1)]
  note S = assms(4) [unfolded dir_copy_def]
  show e: "\<And>i. i < 1024 \<Longrightarrow> dir_entry S d i = dir_entry st src i" using S by simp
  show es: "\<And>i. i < 1024 \<Longrightarrow> dir_entry S src i = dir_entry st src i"
    using S tables_at_page [OF assms(1)] n(8) by simp
  have sl: "slot S = slot st" by (rule slot_cong) (use S in simp)
  have pl: "unat (placement S) = unat d + 8196" using S n(3) by (simp add: unat_word_ariths)
  have low: "unat x < unat (placement st) \<Longrightarrow> unat x < unat (placement S)" for x using pl n(2) by simp
  have srclow: "unat src + 0x2000 < unat (placement S)" using o(9) pl n(2) by simp
  have f: "page_stack S = page_stack st" "npages S = npages st" "page_ptr S = page_ptr st" using S by simp_all
  note sd = dir_ok_slot [OF assms(1)] and td = dir_ok_table [OF assms(1)]
  show "dir_ok S src"
    using assms(1) low srclow unfolding dir_ok_def reserved_def sl f by (auto simp: es simp del: u32_less_1024)
  have "page_of (slot st i) \<notin> {d, d + 0x1000} \<and> unat (page_of (slot st i)) < unat (placement S)" if "i \<le> npages st" for i
    using n(10) [OF that] low sd(3) [OF that] by auto
  moreover have "page_of (dir_entry st src i) \<notin> insert 0 (reserved S d)" if "i < 1024" "dir_entry st src i \<noteq> 0" for i
    using n(11) [OF that] td(1,4) [OF that] S unfolding reserved_def sl by force
  moreover have "unat (page_of (dir_entry st src i)) < unat (placement S)" if "i < 1024" "dir_entry st src i \<noteq> 0" for i
    using low td(5) [OF that] .
  ultimately show "dir_ok S d"
    using assms(1) n(1) pl unfolding dir_ok_def sl f by (auto simp: e simp del: u32_less_1024)
  have "page_of (page_of (dir_entry st src i) + 4 * j) = page_of (dir_entry st src i)" if "i < 1024" "j < 1024" for i j
    using that by (simp add: page_of_offset)
  then have far: "rd S (page_of (dir_entry st src i) + 4 * j) = rd st (page_of (dir_entry st src i) + 4 * j)"
    if "i < 1024" "j < 1024" "dir_entry st src i \<noteq> 0" for i j
    using that n(11) [of i] S by (simp add: page_offset_aligned)
  show "get_page b src S = get_page b src st" by (rule get_page_cong [OF assms(1)]) (use es far in auto)
  have "get_page b d S = get_page b src S"
    by (simp add: get_page_def Let_def e es)
  then show "get_page b d S = get_page b src st" using \<open>get_page b src S = get_page b src st\<close> by simp
qed

lemma shared_after_map:
  assumes "dir_ok st src" "unat (placement st) + 0x6000 < 2 ^ 32" "d = align_up (placement st)" "dir_copy src d st 1024 S"
    and w: "writes_table S st2 d (low_index a)"
  shows "get_page b src st2 = (if dir_entry st src (low_index a) \<noteq> 0 then get_page b d st2 else get_page b src st)"
proof -
  note n = new_dir_facts [OF assms(1,2), folded assms(3)] and c = clone_dirs [OF assms(1-4)]
  let ?t = "page_of (dir_entry st2 d (low_index a))"
  have far: "rd st2 x = rd S x" if "4 dvd unat x" "page_of x \<notin> {d, d + 0x1000, ?t}" for x
    using w that by (simp add: writes_table_def)
  have t: "?t = (if dir_entry st src (low_index a) = 0 then align_up (placement S) else page_of (dir_entry st src (low_index a)))"
    using w c(3) by (auto simp: writes_table_def)
  have pS: "unat (placement S) = unat d + 8196" "unat (placement S) + 0x2000 < 2 ^ 32"
    using assms(4) n(3) by (simp_all add: dir_copy_def unat_word_ariths)
  note ns = new_page_facts [OF c(2) pS(2)]
  have "?t \<noteq> src" using t ns(4) dir_ok_table(2) [OF assms(1), of "low_index a"] by auto
  then have src: "dir_entry st2 src i = dir_entry st src i" if "i < 1024" for i
    using far [of "tables_at src i"] tables_at_page [OF c(2) that] n(8) c(4) [OF that] by auto
  show ?thesis
  proof (cases "dir_entry st src (low_index a) = 0")
    case True
    have "get_page b src st2 = get_page b src S"
    proof (rule get_page_cong [OF c(2)])
      fix i j :: u32
      assume i: "i < 1024" "j < 1024" "dir_entry S src i \<noteq> 0"
      have "page_of (page_of (dir_entry S src i) + 4 * j) = page_of (dir_entry S src i)" using i by (simp add: page_of_offset)
      moreover have "page_of (dir_entry S src i) \<notin> {d, d + 0x1000}" using n(11) [of i] i c(4) by auto
      moreover have "page_of (dir_entry S src i) \<noteq> ?t" using ns(10) [OF i(1,3)] t True by simp
      ultimately show "rd st2 (page_of (dir_entry S src i) + 4 * j) = rd S (page_of (dir_entry S src i) + 4 * j)"
        using i by (intro far) (simp_all add: page_offset_aligned)
    qed (simp add: src c(4))
    then show ?thesis using True c(6) by simp
  next
    case False
    have "page_of (dir_entry st2 d i) = page_of (dir_entry st2 src i)" if "i < 1024" for i
      using that w False c(3) [OF that] src [OF that] c(3) [of "low_index a"] by (cases "i = low_index a") (auto simp: writes_table_def)
    then show ?thesis using False by (simp add: get_page_def Let_def)
  qed
qed

text \<open>
  C14. A cloned directory shares its tables: after \<open>clone_page_dir\<close> the copy maps every address as its source does, and the
  source is unchanged. If \<open>map_page\<close> then maps a page through the copy, the source follows it when it had a table for that
  address, at every address, and is not affected when it had none: what the kernel has tables for is common to all
  directories, what is added later is private. The second case is shown for the early allocator, that is as long as
  there is no heap; a table from the heap is not aligned to a page.
\<close>

theorem clone_page_dir_shares:
  assumes "dir_ok st src" "unat (placement st) + 0x6000 < 2 ^ 32" "perms < 0x1000" "stack_bottom st < page_ptr st"
  shows "\<exists>st1 d. clone_page_dir src st = (st1, d) \<and> dir_ok st1 d \<and> dir_ok st1 src \<and>
    (\<forall>b. get_page b d st1 = get_page b src st \<and> get_page b src st1 = get_page b src st) \<and>
    (\<forall>a. kheap st = None \<or> dir_entry st src (low_index a) \<noteq> 0 \<longrightarrow>
      (\<exists>st2. map_page a perms d st1 = done_with st2 \<and> get_page a d st2 AND perms = perms \<and>
        (\<forall>b. get_page b src st2 = (if dir_entry st src (low_index a) \<noteq> 0 then get_page b d st2 else get_page b src st))))"
proof -
  define d where "d = align_up (placement st)"
  note n = new_dir_facts [OF assms(1,2), folded d_def]
  obtain S where S: "clone_page_dir src st = (S, d)" "dir_copy src d st 1024 S" by (rule clone_copies [OF assms(1,2) d_def])
  note c = clone_dirs [OF assms(1,2) d_def S(2)]
  have pl: "unat (placement S) + 0x2000 < 2 ^ 32" "stack_bottom S < page_ptr S"
    using S(2) n(3) assms(4) by (simp_all add: dir_copy_def unat_word_ariths)
  have "\<exists>st2. map_page a perms d S = done_with st2 \<and> get_page a d st2 AND perms = perms \<and>
      (\<forall>b. get_page b src st2 = (if dir_entry st src (low_index a) \<noteq> 0 then get_page b d st2 else get_page b src st))"
    if h: "kheap st = None \<or> dir_entry st src (low_index a) \<noteq> 0" for a
  proof -
    have e: "map_page a perms d S = map_page_with kmalloc_early a perms d S"
      by (rule map_page_is_early) (use h S(2) in \<open>auto simp: dir_copy_def\<close>)
    obtain st2 v where m: "map_page_with kmalloc_early a perms d S = done_with st2" "get_page a d st2 = v OR perms"
      by (rule map_page_early [OF c(1) pl(1) assms(3) pl(2)]) (rule that; assumption)
    have "get_page b src st2 = (if dir_entry st src (low_index a) \<noteq> 0 then get_page b d st2 else get_page b src st)" for b
      using map_page_writes [OF c(1) pl(1) assms(3) pl(2) m(1)] by (rule shared_after_map [OF assms(1,2) d_def S(2)])
    moreover have "(v OR perms) AND perms = perms" by (rule bit_eqI) (auto simp: bit_simps)
    ultimately show ?thesis using m unfolding e by auto
  qed
  with S(1) c show ?thesis by blast
qed


theorem clone_page_dir_shares_witness:
  "\<exists>st1 d st2. clone_page_dir 0x1000 demo_mapped = (st1, d) \<and> map_page 0x2000 7 d st1 = done_with st2 \<and>
    get_page 0x2000 0x1000 st2 = get_page 0x2000 d st2 \<and> get_page 0x2000 d st2 AND 7 = 7"
proof -
  have e: "dir_entry demo_mapped 0x1000 (low_index 0x2000) \<noteq> 0" by (simp add: demo_mapped_entry low_index_def)
  have p: "unat (placement demo_mapped) + 0x6000 < 2 ^ 32" "(7 :: u32) < 0x1000" "stack_bottom demo_mapped < page_ptr demo_mapped"
    by (simp_all add: demo_mapped_def demo_def wr_def)
  obtain st1 d where c: "clone_page_dir 0x1000 demo_mapped = (st1, d)"
    "\<forall>a. kheap demo_mapped = None \<or> dir_entry demo_mapped 0x1000 (low_index a) \<noteq> 0 \<longrightarrow>
      (\<exists>st2. map_page a 7 d st1 = done_with st2 \<and> get_page a d st2 AND 7 = 7 \<and>
        (\<forall>b. get_page b 0x1000 st2 = (if dir_entry demo_mapped 0x1000 (low_index a) \<noteq> 0 then get_page b d st2 else get_page b 0x1000 demo_mapped)))"
    using clone_page_dir_shares [OF demo_mapped_ok p] by blast
  from c(2) [rule_format, of "0x2000"] obtain st2 where
    "map_page 0x2000 7 d st1 = done_with st2" "get_page 0x2000 d st2 AND 7 = 7"
    "get_page 0x2000 0x1000 st2 = get_page 0x2000 d st2"
    using e by auto
  then show ?thesis using c(1) by blast
qed

end
