(* ===== verification/Elf.thy ===== *)
theory Elf
  imports File_Image Process Clone
begin

text \<open>
  The program loader, \<open>load_elf\<close> of \<open>kern/kern/elf.c\<close>: it reads the headers of an ELF file through \<open>lseek\<close> and \<open>read\<close>,
  clones the kernel's page directory, maps and fills the segments in the copy and creates a process. The state is that of
  the file system, whose byte memory also holds the headers, the buffers and the segments, the state of the memory
  manager and the tasks. Addresses of segments are those the new directory gives; the page tables are words of the
  memory manager. The two header variables, the buffers of the segments and the blocks of the new process are arguments.
\<close>

section \<open>Structures\<close>

definition e_entry :: "mem \<Rightarrow> u32 \<Rightarrow> u32" where "e_entry m h = load32 m (h + 24)"
definition e_phoff :: "mem \<Rightarrow> u32 \<Rightarrow> u32" where "e_phoff m h = load32 m (h + 28)"
definition e_phentsize :: "mem \<Rightarrow> u32 \<Rightarrow> u16" where "e_phentsize m h = load16 m (h + 42)"
definition e_phnum :: "mem \<Rightarrow> u32 \<Rightarrow> u16" where "e_phnum m h = load16 m (h + 44)"
definition p_offset :: "mem \<Rightarrow> u32 \<Rightarrow> u32" where "p_offset m p = load32 m (p + 4)"
definition p_vaddr :: "mem \<Rightarrow> u32 \<Rightarrow> u32" where "p_vaddr m p = load32 m (p + 8)"
definition p_filesz :: "mem \<Rightarrow> u32 \<Rightarrow> u32" where "p_filesz m p = load32 m (p + 16)"
definition p_memsz :: "mem \<Rightarrow> u32 \<Rightarrow> u32" where "p_memsz m p = load32 m (p + 20)"

definition elf_h_magic :: "u8 list" where
  "elf_h_magic = [0x7f, 0x45, 0x4c, 0x46]"

definition ELFCLASS32 :: u8 where "ELFCLASS32 = 1"
definition ELFDATA2LSB :: u8 where "ELFDATA2LSB = 1"

abbreviation (input) ehdr_size :: u32 where "ehdr_size \<equiv> 52"
abbreviation (input) phdr_size :: u32 where "phdr_size \<equiv> 32"

section \<open>Loading\<close>

text \<open>
  The copy into the segment goes through the new directory, which is loaded: it faults at the first page that the
  directory does not give as present. That is read off the entry as \<open>get_page\<close> finds it.
\<close>

definition on_pages :: "kmem \<Rightarrow> u32 \<Rightarrow> u32 \<Rightarrow> nat \<Rightarrow> bool" where
  "on_pages k dir a len \<longleftrightarrow> (\<forall>i<len. get_page (a + of_nat i) dir k AND 1 \<noteq> 0)"

definition copy_mem :: "kmem \<Rightarrow> u32 \<Rightarrow> u32 \<Rightarrow> u32 \<Rightarrow> u32 \<Rightarrow> ramfs vfs \<Rightarrow> ramfs vfs run" where
  "copy_mem k dir a b len v =
    (if on_pages k dir a (unat len) then done_with (v\<lparr>v_data := (v_data v)\<lparr>bytes := memcpy (vmem v) a b len\<rparr>\<rparr>)
     else Some (Inl Page_Fault))"

text \<open>The loop over the program headers. The count and the size of an entry are read from the header each time.\<close>

partial_function (option) load_segments ::
    "u32 \<Rightarrow> u32 \<Rightarrow> u32 \<Rightarrow> u32 \<Rightarrow> (nat \<Rightarrow> u32) \<Rightarrow> u32 \<Rightarrow> ramfs vfs \<Rightarrow> kmem \<Rightarrow> (ramfs vfs \<times> kmem) run" where
  "load_segments fd eh ph dir bufs i v k =
    (if i < ucast (e_phnum (vmem v) eh) then
       and_then (seek_read fd (e_phoff (vmem v) eh + i * ucast (e_phentsize (vmem v) eh)) ph (ucast (e_phentsize (vmem v) eh)) v) (\<lambda>r1.
       and_then (seek_read fd (p_offset (vmem (fst r1)) ph) (bufs (unat i)) (p_filesz (vmem (fst r1)) ph) (fst r1)) (\<lambda>r2.
       and_then (map_pages (p_vaddr (vmem (fst r2)) ph) (p_vaddr (vmem (fst r2)) ph + p_memsz (vmem (fst r2)) ph) 7 dir k) (\<lambda>k1.
       and_then (copy_mem k1 dir (p_vaddr (vmem (fst r2)) ph) (bufs (unat i)) (p_filesz (vmem (fst r2)) ph) (fst r2)) (\<lambda>v1.
         load_segments fd eh ph dir bufs (i + 1) v1 k1))))
     else done_with (v, k))"

type_synonym machine = "ramfs vfs \<times> kmem \<times> sched"

text \<open>The checks of the header; the result of a failed read, \<open>-1\<close>, passes the test of the length, which is unsigned.\<close>

definition elf_header_ok :: "mem \<Rightarrow> u32 \<Rightarrow> u32 \<Rightarrow> bool" where
  "elf_header_ok m eh ret \<longleftrightarrow> \<not> ret < ehdr_size \<and>
     (\<forall>i<4. int i < sint ret \<longrightarrow> m (eh + of_nat i) = elf_h_magic ! i) \<and>
     m (eh + 4) = ELFCLASS32 \<and> m (eh + 5) = ELFDATA2LSB"

definition load_elf ::
    "u32 \<Rightarrow> u32 \<Rightarrow> u32 \<Rightarrow> u32 \<Rightarrow> u32 \<Rightarrow> (nat \<Rightarrow> u32) \<Rightarrow> u32 \<Rightarrow> u32 \<Rightarrow> u32 \<Rightarrow> u32 \<Rightarrow> machine \<Rightarrow> (machine \<times> int) run" where
  "load_elf fd argv envp eh ph bufs new_task stk files map_blk mach =
    (let (v, k, s) = mach in
     if fd > 32 then done_with (mach, - 1)
     else if fd = 32 then Some (Inl Out_Of_Bounds)
     else if v_files v ! unat fd = 0 then done_with (mach, - 1)
     else and_then (vfs_read ramfs_ops fd eh ehdr_size (clear_block ph phdr_size (clear_block eh ehdr_size v))) (\<lambda>(v1, ret).
       if \<not> elf_header_ok (vmem v1) eh ret then done_with ((v1, k, s), - 1)
       else let old_dir = t_dir (tasks s (current_task s));
                (k1, new_dir) = clone_page_dir (kernel_dir k) k;
                k2 = set_page_dir new_dir k1;
                s1 = s\<lparr>cpu_dir := new_dir\<rparr>
            in and_then (load_segments fd eh ph new_dir bufs 0 v1 k2) (\<lambda>(v2, k3).
                 case create_process new_task stk files map_blk (e_entry (vmem v2) eh) argv envp
                        (p_vaddr (vmem v2) ph) (p_vaddr (vmem v2) ph + p_memsz (vmem v2) ph) (s1, vmem v2) of
                   None \<Rightarrow> None
                 | Some (s2, m) \<Rightarrow>
                     done_with ((v2\<lparr>v_data := (v_data v2)\<lparr>bytes := m\<rparr>\<rparr>, set_page_dir old_dir k3, s2\<lparr>cpu_dir := old_dir\<rparr>), 0))))"

text \<open>\<open>fexecve\<close> of \<open>task.c\<close>: the result of the loader is dropped.\<close>

definition fexecve ::
    "u32 \<Rightarrow> u32 \<Rightarrow> u32 \<Rightarrow> u32 \<Rightarrow> u32 \<Rightarrow> (nat \<Rightarrow> u32) \<Rightarrow> u32 \<Rightarrow> u32 \<Rightarrow> u32 \<Rightarrow> u32 \<Rightarrow> machine \<Rightarrow> (machine \<times> int) run" where
  "fexecve fd argv envp eh ph bufs new_task stk files map_blk mach =
    (let (v, k, s) = mach in
     if fd \<ge> v_file_count v then done_with (mach, - 1)
     else if v_files v ! unat fd = 0 then done_with (mach, - 1)
     else and_then (load_elf fd argv envp eh ph bufs new_task stk files map_blk mach) (\<lambda>(mach1, _). done_with (mach1, 0)))"

section \<open>ELF files\<close>









section \<open>The loop\<close>














section \<open>The loader\<close>

lemma wf_queue_cpu_dir [simp]: "wf_queue (s\<lparr>cpu_dir := d\<rparr>) as = wf_queue s as"
  by (simp add: wf_queue_def)

lemma get_pid_task_cpu_dir [simp]: "get_pid_task pid (s\<lparr>cpu_dir := d\<rparr>) = get_pid_task pid s"
  by (simp add: get_pid_task_def)






text \<open>A file that is no executable is refused by the loader, which has read the header by then, and reported as run by \<open>fexecve\<close>.\<close>

lemma not_an_elf:
  assumes "unat fd < 32" "v_files v ! unat fd \<noteq> 0" "fd < v_file_count v"
    and "vfs_read ramfs_ops fd eh 52 (clear_block ph 32 (clear_block eh 52 v)) = done_with (v1, ret)" "\<not> elf_header_ok (vmem v1) eh ret"
  shows "load_elf fd argv envp eh ph bufs new stk files mb (v, k, s) = done_with ((v1, k, s), - 1)"
    "fexecve fd argv envp eh ph bufs new stk files mb (v, k, s) = done_with ((v1, k, s), 0)"
proof -
  have "unat fd \<noteq> 32" "\<not> 32 < unat fd" using assms(1) by simp_all
  then have fd: "\<not> fd > 32" "fd \<noteq> 32" by (auto simp: word_less_nat_alt)
  then show l: "load_elf fd argv envp eh ph bufs new stk files mb (v, k, s) = done_with ((v1, k, s), - 1)"
    using assms by (simp add: load_elf_def)
  show "fexecve fd argv envp eh ph bufs new stk files mb (v, k, s) = done_with ((v1, k, s), 0)"
    using assms(2,3) l by (simp add: fexecve_def)
qed

section \<open>A program\<close>










end
