(* ===== verification/Shell_Commands.thy ===== *)
theory Shell_Commands
  imports File_Image Stdio Ipc Interrupts
begin

text \<open>
  The commands built into the kernel's shell, \<open>sh_cat\<close> and its neighbours of \<open>kern/sys/kshell.c\<close>. The arguments are the
  strings of \<open>argv\<close>, \<open>argc\<close> their number; the result is the state, what is printed and the value returned. Commands on
  files act on the state of \<open>Vfs\<close>, those on processes and messages on that of \<open>Ipc\<close>.
\<close>

section \<open>Output\<close>

definition nl :: string where "nl = [CHR 0x0a]"
definition tab :: string where "tab = [CHR 0x09]"

text \<open>\<open>printf\<close> behind what has been printed.\<close>

definition says :: "string \<Rightarrow> string \<Rightarrow> va list \<Rightarrow> string run" where
  "says out format args = and_then (printf format args) (\<lambda>out1. done_with (out @ out1))"

lemma printf_plain: "CHR ''%'' \<notin> set format \<Longrightarrow> printf format args = done_with format"
  by (induction format) auto

lemma says_plain [simp]: "CHR ''%'' \<notin> set format \<Longrightarrow> says out format args = done_with (out @ format)"
  by (simp add: says_def printf_plain)

type_synonym 'a command = "('a \<times> string \<times> int) run"

section \<open>Files\<close>

text \<open>The characters \<open>printf( "%c", buf[i] )\<close> prints for the first \<open>n\<close> bytes of \<open>buf\<close>.\<close>

definition chars_at :: "mem \<Rightarrow> u32 \<Rightarrow> nat \<Rightarrow> string" where
  "chars_at m buf n = map (\<lambda>i. char_of (unat (m (buf + of_nat i)))) [0..<n]"

partial_function (option) cat_loop :: "u32 \<Rightarrow> u32 \<Rightarrow> string \<Rightarrow> ramfs vfs \<Rightarrow> (ramfs vfs \<times> string) run" where
  "cat_loop fp buf out v =
    and_then (vfs_read ramfs_ops fp buf 512 v) (\<lambda>r.
      if sint (snd r) > 0 then cat_loop fp buf (out @ chars_at (vmem (fst r)) buf (unat (snd r))) (fst r)
      else done_with (fst r, out))"

definition sh_cat :: "string list \<Rightarrow> u32 \<Rightarrow> ramfs vfs \<Rightarrow> ramfs vfs command" where
  "sh_cat argv buf v =
    (if length argv < 2 then done_with (v, [], 1)
     else and_then (vfs_open ramfs_ops (argv ! 1) O_RDONLY v) (\<lambda>(v1, fp).
       if fp < 0 then done_with (v1, ''Could not open file'' @ nl, 1)
       else and_then (cat_loop (of_int fp) buf [] v1) (\<lambda>(v2, out).
         and_then (says out (''Got fp %d'' @ nl) [VInt (of_int fp)]) (\<lambda>out1.
           and_then (vfs_close ramfs_ops (of_int fp) v2) (\<lambda>(v3, _). done_with (v3, out1, 0))))))"

text \<open>\<open>sh_list\<close> goes on after an open that failed; \<open>items\<close> counts the entries of a row.\<close>

partial_function (option) list_loop :: "u32 \<Rightarrow> nat \<Rightarrow> string \<Rightarrow> ramfs vfs \<Rightarrow> (ramfs vfs \<times> string) run" where
  "list_loop fp items out v =
    and_then (readdir ramfs_ops fp v) (\<lambda>r.
      if snd (snd r) > 0 then
        (case fst (snd r) of None \<Rightarrow> Some (Inl Out_Of_Bounds)
         | Some e \<Rightarrow> and_then (says out (''%d:%s'' @ tab) [VInt (de_inode e), VStr (de_name e)]) (\<lambda>out1.
             list_loop fp (items + 1) (if (items + 1) mod 8 = 0 then out1 @ nl else out1) (fst r)))
      else done_with (fst r, out))"

definition sh_list :: "string list \<Rightarrow> ramfs vfs \<Rightarrow> ramfs vfs command" where
  "sh_list argv v =
    and_then (vfs_open ramfs_ops (if length argv > 1 then argv ! 1 else ''.'') O_RDONLY v) (\<lambda>(v1, fp).
      and_then (list_loop (of_int fp) 0 (if fp < 0 then ''Could not open directory.'' @ nl else []) v1) (\<lambda>(v2, out).
        and_then (vfs_close ramfs_ops (of_int fp) v2) (\<lambda>(v3, _). done_with (v3, out @ nl, 0))))"

text \<open>\<open>text\<close> is the address of \<open>argv[2]\<close>. A failed \<open>open\<close> is only noticed when its result is \<open>-1\<close>, which it never is.\<close>

definition sh_write :: "string list \<Rightarrow> u32 \<Rightarrow> ramfs vfs \<Rightarrow> ramfs vfs command" where
  "sh_write argv txt v =
    (if length argv < 3 then done_with (v, [], 1)
     else and_then (vfs_open ramfs_ops (argv ! 1) (O_CREAT OR O_WRONLY) v) (\<lambda>(v1, fp).
       and_then (says [] (''Got fd %d'' @ nl) [VInt (of_int fp)]) (\<lambda>out.
         if fp = - 1 then done_with (v1, out @ ''File not found'' @ nl, 1)
         else case strlen (vmem v1) txt of None \<Rightarrow> None
           | Some l \<Rightarrow> and_then (vfs_write ramfs_ops (of_int fp) txt l v1) (\<lambda>(v2, n).
               if sint n < 0 then done_with (v2, out @ ''Could not write to file'' @ nl, 1)
               else and_then (vfs_close ramfs_ops (of_int fp) v2) (\<lambda>(v3, _). done_with (v3, out, 0))))))"

text \<open>\<open>printf( "%s\n", buf )\<close> runs to the next zero byte, which \<open>read\<close> does not write.\<close>

definition sh_read :: "string list \<Rightarrow> u32 \<Rightarrow> ramfs vfs \<Rightarrow> ramfs vfs command" where
  "sh_read argv buf v =
    (if length argv < 2 then done_with (v, [], 1)
     else and_then (vfs_open ramfs_ops (argv ! 1) O_RDONLY v) (\<lambda>(v1, fp).
       and_then (says [] (''Got fd %d'' @ nl) [VInt (of_int fp)]) (\<lambda>out.
         if fp = - 1 then done_with (v1, out @ ''File not found'' @ nl, 1)
         else and_then (vfs_read ramfs_ops (of_int fp) buf 512 v1) (\<lambda>(v2, n).
           if sint n < 0 then done_with (v2, out @ ''Could not read file'' @ nl, 1)
           else case strlen (vmem v2) buf of None \<Rightarrow> None
             | Some l \<Rightarrow> and_then (vfs_close ramfs_ops (of_int fp) v2) (\<lambda>(v3, _).
                 and_then (says out (''%s'' @ nl) [VStr (chars_at (vmem v2) buf (unat l))]) (\<lambda>out1. done_with (v3, out1, 0)))))))"

definition sh_mkdir :: "string list \<Rightarrow> ramfs vfs \<Rightarrow> ramfs vfs command" where
  "sh_mkdir argv v =
    (if length argv < 2 then done_with (v, [], 1)
     else and_then (mkdir ramfs_ops (argv ! 1) 0x1ff v) (\<lambda>(v1, _, ret).
       if ret \<noteq> 0 then done_with (v1, ''Could not make directory'' @ nl, 1) else done_with (v1, [], 0)))"

definition sh_cd :: "string list \<Rightarrow> ramfs vfs \<Rightarrow> ramfs vfs command" where
  "sh_cd argv v = and_then (chdir ramfs_ops (if length argv > 1 then argv ! 1 else ''/'') v) (\<lambda>(v1, _). done_with (v1, [], 0))"

definition sh_mount :: "string list \<Rightarrow> ramfs vfs \<Rightarrow> ramfs vfs command" where
  "sh_mount argv v =
    (if length argv < 3 then done_with (v, [], 1)
     else and_then (mount ramfs_ops (argv ! 1) (argv ! 2) v) (\<lambda>(v1, ret).
       if ret \<noteq> 0 then done_with (v1, ''Could not mount'' @ nl, 1) else done_with (v1, [], 0)))"

definition sh_unmount :: "string list \<Rightarrow> ramfs vfs \<Rightarrow> ramfs vfs command" where
  "sh_unmount argv v =
    (if length argv < 2 then done_with (v, [], 1)
     else if unmount (argv ! 1) 0 \<noteq> 0 then done_with (v, ''Could not unmount'' @ nl, 1) else done_with (v, [], 0))"

definition sh_chroot :: "string list \<Rightarrow> ramfs vfs \<Rightarrow> ramfs vfs command" where
  "sh_chroot argv v =
    (if length argv < 2 then done_with (v, [], 1)
     else and_then (chroot ramfs_ops (argv ! 1) v) (\<lambda>(v1, ret).
       if ret \<noteq> 0 then done_with (v1, ''Could not change root'' @ nl, 1)
       else and_then (chdir ramfs_ops ''/'' v1) (\<lambda>(v2, ret). done_with (v2, [], ret))))"

section \<open>Processes and messages\<close>

definition sh_kill :: "string list \<Rightarrow> sched \<Rightarrow> (sched \<times> string \<times> int) option" where
  "sh_kill argv s =
    (if length argv < 2 then Some (s, [], 1)
     else map_option (\<lambda>(s1, ret). (s1, if ret \<noteq> 0 then ''Could not kill pid'' @ nl else [], 0)) (kill_thread (atoi (argv ! 1)) s))"

text \<open>\<open>buf\<close> is the message before its type and sender are set, \<open>msg\<close> the block of the copy that \<open>send_msg\<close> makes.\<close>

definition sh_msg :: "string list \<Rightarrow> ipc_msg_t \<Rightarrow> u32 \<Rightarrow> sched \<times> msgs \<Rightarrow> ((sched \<times> msgs) \<times> string \<times> int) option" where
  "sh_msg argv buf msg sm =
    (if length argv < 2 then Some (sm, [], 1)
     else let buf1 = buf\<lparr>msg_type := (if length argv > 2 then atoi (argv ! 2) else 1), sender := getpid (fst sm)\<rparr>
          in map_option (\<lambda>(sm1, res).
               (sm1, if res \<noteq> 0 then ''Could not send message: '' @ (if res = 1 then ''pid doesn't exist'' else ''pid is not listening'') @ nl
                     else ''Sent message'' @ nl, 0)) (send_msg (atoi (argv ! 1)) buf1 msg sm))"

text \<open>A shell without a message is switched away from and comes back later; \<open>None\<close> in the result stands for that branch's missing message.\<close>

definition sh_getmsg :: "u32 \<times> u32 \<times> u32 \<Rightarrow> sched \<times> msgs \<Rightarrow> ((sched \<times> msgs) \<times> string \<times> resume) run" where
  "sh_getmsg regs sm =
    and_then (get_msg 3 regs sm) (\<lambda>(sm1, m, r, ret).
      case m of
        Some (msg, _) \<Rightarrow>
          (if ret = 0 then
             and_then (Some (msg_lookup (msg_type msg))) (\<lambda>label.
               and_then (says [] (''Got message 0x%x (%s) from pid %d'' @ nl) [VInt (msg_type msg), VStr label, VInt (sender msg)]) (\<lambda>out.
                 done_with (sm1, out, r)))
           else done_with (sm1, ''No messages in queue.'' @ nl, r))
      | None \<Rightarrow> done_with (sm1, ''No messages in queue.'' @ nl, r))"

section \<open>Numbers\<close>

definition sh_atoi :: "string list \<Rightarrow> string run" where
  "sh_atoi argv = (if length argv < 2 then done_with [] else printf (''%d'' @ nl) [VInt (atoi (argv ! 1))])"

definition sh_uptime :: "u32 \<Rightarrow> sched \<Rightarrow> string run" where
  "sh_uptime current_freq s =
    and_then (Some (get_uptime current_freq s)) (\<lambda>uptime.
         let minutes = uptime div 60; hours = minutes div 60; days = hours div 24
         in printf (''Uptime: %u days, %uh:%um:%us'' @ nl) [VInt days, VInt (hours mod 60), VInt (minutes mod 60), VInt (uptime mod 60)])"

section \<open>\<open>cat\<close>\<close>

text \<open>The text of a file.\<close>

definition text_of :: "(nat \<Rightarrow> u8) \<Rightarrow> nat \<Rightarrow> nat \<Rightarrow> string" where
  "text_of img lo hi = map (\<lambda>k. char_of (unat (img k))) [lo..<hi]"

lemma text_of_split: "lo \<le> mid \<Longrightarrow> mid \<le> hi \<Longrightarrow> text_of img lo mid @ text_of img mid hi = text_of img lo hi"
  using upt_add_eq_append [of lo mid "hi - mid"] by (simp add: text_of_def flip: map_append)

lemma chars_at_text:
  assumes "holds_at m buf l (\<lambda>k. img (off + k))"
  shows "chars_at m buf l = text_of img off (off + l)"
  using assms by (intro nth_equalityI) (simp_all add: chars_at_def text_of_def holds_at_def)

lemma cat_loop_prints:
  assumes "far D n buf 512"
  shows "image_open v fd img n D \<Longrightarrow> off \<le> n \<Longrightarrow> r_offset (v_descs v (v_files v ! unat fd)) = of_nat off \<Longrightarrow>
    \<exists>v'. cat_loop fd buf out v = done_with (v', out @ text_of img off n) \<and> image_open v' fd img n D \<and> v_files v' = v_files v"
proof (induction "n - off" arbitrary: off out v rule: less_induct)
  case less
  have n: "n < 2 ^ 31" using less.prems(1) by (auto simp: image_open_def)
  have uo: "unat (of_nat off :: u32) = off" by (rule unat_of_nat_lt32) (use less.prems(2) n in simp)
  define l where "l = min 512 (n - off)"
  have l: "l = min (unat (512 :: u32)) (n - unat (of_nat off :: u32))" "l < 2 ^ 31" unfolding uo by (simp_all add: l_def)
  obtain v1 where v1: "vfs_read ramfs_ops fd buf 512 v = done_with (v1, of_nat l)" "image_open v1 fd img n D"
    "vmem v1 = put_at buf (of_nat l) (\<lambda>k. img (off + k)) (vmem v)" "r_offset (v_descs v1 (v_files v1 ! unat fd)) = of_nat off + of_nat l"
    "v_files v1 = v_files v"
    by (rule read_rest [OF less.prems(1) _ _ less.prems(3), of buf 512, folded l(1)]) (use less.prems(2) assms uo in auto)
  have sl: "sint (of_nat l :: u32) = int l" "unat (of_nat l :: u32) = l" using sint_small l(2) by simp_all
  show ?case
  proof (cases "l = 0")
    case True
    then have "off = n" using less.prems(2) by (simp add: l_def)
    then show ?thesis using True v1 by (subst cat_loop.simps) (simp add: text_of_def)
  next
    case False
    have "chars_at (vmem v1) buf l = text_of img off (off + l)"
      unfolding v1(3) by (rule chars_at_text) (rule put_at_holds, simp add: sl)
    then have "cat_loop fd buf out v = cat_loop fd buf (out @ text_of img off (off + l)) v1"
      using False v1(1) sl by (subst cat_loop.simps) simp
    moreover have c: "n - (off + l) < n - off" "off + l \<le> n" "r_offset (v_descs v1 (v_files v1 ! unat fd)) = of_nat (off + l)"
      using False v1(4) by (auto simp: l_def)
    obtain v2 where "cat_loop fd buf (out @ text_of img off (off + l)) v1 = done_with (v2, (out @ text_of img off (off + l)) @ text_of img (off + l) n)"
      "image_open v2 fd img n D" "v_files v2 = v_files v1" using less.hyps [OF c(1) v1(2) c(2,3)] by blast
    ultimately show ?thesis using v1(5) text_of_split [of off "off + l" n img] c(2) by simp
  qed
qed

text \<open>
  C8. \<open>cat\<close> prints a file: when the open succeeds, the command returns 0 after it has printed every byte of the file, in order
  and once, whatever the length of the file, and then the number of the descriptor, which is free again.
\<close>

theorem sh_cat_prints_file:
  assumes "vfs_open ramfs_ops path O_RDONLY v = done_with (v1, fp)" "0 \<le> fp" "image_open v1 (of_int fp) img n D"
    and "r_offset (v_descs v1 (v_files v1 ! unat (of_int fp :: u32))) = 0" "far D n buf 512" "unat (of_int fp :: u32) < length (v_files v1)"
  shows "\<exists>v'. sh_cat [cmd, path] buf v = done_with (v', text_of img 0 n @ ''Got fp '' @ print_num (of_int fp) @ nl, 0) \<and>
    v_files v' ! unat (of_int fp :: u32) = 0"
proof -
  obtain v2 where v2: "cat_loop (of_int fp) buf [] v1 = done_with (v2, text_of img 0 n)" "image_open v2 (of_int fp) img n D" "v_files v2 = v_files v1"
    using cat_loop_prints [OF assms(5,3), of 0 "[]"] assms(4) by auto
  have "says out (''Got fp %d'' @ nl) [VInt w] = done_with (out @ ''Got fp '' @ print_num w @ nl)" for out w
    by (simp add: says_def printf_conv_def nl_def done_with_def)
  moreover obtain v3 r where "vfs_close ramfs_ops (of_int fp) v2 = done_with (v3, r)" "v_files v3 = (v_files v2)[unat (of_int fp :: u32) := 0]"
    using v2(2) by (auto simp: vfs_close_def Let_def image_open_def ramfs_close_def ramfs_file_funcs_def and_then_done)
  ultimately show ?thesis using assms(1,2,6) v2(1,3) by (simp add: sh_cat_def)
qed

section \<open>\<open>ls\<close>\<close>

fun list_rows :: "nat \<Rightarrow> (string \<times> u32) list \<Rightarrow> string" where
  "list_rows i [] = []"
| "list_rows i ((name, ino) # xs) =
    print_num ino @ '':'' @ name @ tab @ (if (i + 1) mod 8 = 0 then nl else []) @ list_rows (i + 1) xs"

lemma list_loop_prints:
  assumes "length xs < 2 ^ 31"
  shows "isgoodfd fd v \<Longrightarrow> dir_is (v_data v) (n_inode (v_nodes v (fd_file (v_descs v (v_files v ! unat fd))))) xs \<Longrightarrow>
    i + k = length xs \<Longrightarrow> d_offset (v_descs v (v_files v ! unat fd)) = of_nat i \<Longrightarrow>
    \<exists>v'. list_loop fd i out v = done_with (v', out @ list_rows i (drop i xs)) \<and> isgoodfd fd v' \<and> v_files v' = v_files v \<and> v_data v' = v_data v"
proof (induction k arbitrary: i v out)
  case (0 i v out)
  then obtain w where "ramfs_readdir (v_nodes v (fd_file (v_descs v (v_files v ! unat fd)))) (of_nat i) (v_data v) = done_with (w, 0)"
    using ramfs_readdir_nth [OF 0(2), of i] assms by auto
  then have "readdir ramfs_ops fd v = done_with (upd_desc (v_files v ! unat fd) (\<lambda>f. f\<lparr>d_offset := d_offset f + 1\<rparr>) v, w, 0)"
    using 0(1,4) by (simp add: readdir_def Let_def ramfs_file_funcs_def upd_desc_def)
  then show ?case using 0 by (subst list_loop.simps) (simp add: upd_desc_def isgoodfd_def)
next
  case (Suc k i v out)
  let ?d = "v_files v ! unat fd"
  let ?v = "upd_desc ?d (\<lambda>f. f\<lparr>d_offset := d_offset f + 1\<rparr>) v"
  have i: "i < length xs" using Suc.prems(3) by simp
  obtain e where e: "ramfs_readdir (v_nodes v (fd_file (v_descs v ?d))) (of_nat i) (v_data v) = done_with (Some e, 1)"
    "de_name e = fst (xs ! i)" "de_inode e = snd (xs ! i)"
    using ramfs_readdir_nth [OF Suc.prems(2), of i] assms i by auto
  then have rd: "readdir ramfs_ops fd v = done_with (?v, Some e, 1)"
    using Suc.prems(1,4) by (simp add: readdir_def Let_def ramfs_file_funcs_def upd_desc_def)
  have "length (de_name e) < 256" using dir_is_short_names [OF Suc.prems(2) nth_mem [OF i]] e(2) by simp
  then have say: "says out (''%d:%s'' @ tab) [VInt w, VStr (de_name e)] = done_with (out @ print_num w @ '':'' @ de_name e @ tab)" for w
    by (simp add: says_def printf_conv_def tab_def done_with_def)
  let ?out = "if (i + 1) mod 8 = 0 then (out @ print_num (de_inode e) @ '':'' @ de_name e @ tab) @ nl else out @ print_num (de_inode e) @ '':'' @ de_name e @ tab"
  have v: "isgoodfd fd ?v" "dir_is (v_data ?v) (n_inode (v_nodes ?v (fd_file (v_descs ?v (v_files ?v ! unat fd))))) xs"
    "Suc i + k = length xs" "d_offset (v_descs ?v (v_files ?v ! unat fd)) = of_nat (Suc i)"
    using Suc.prems by (simp_all add: upd_desc_def isgoodfd_def add.commute)
  obtain v' where v': "list_loop fd (Suc i) ?out ?v = done_with (v', ?out @ list_rows (Suc i) (drop (Suc i) xs))"
    "isgoodfd fd v'" "v_files v' = v_files ?v" "v_data v' = v_data ?v"
    using Suc.IH [OF v] by blast
  have "list_loop fd i out v = list_loop fd (Suc i) ?out ?v" using rd by (subst list_loop.simps) (simp add: say [simplified])
  moreover have "drop i xs = (de_name e, de_inode e) # drop (Suc i) xs" using Cons_nth_drop_Suc [OF i] e(2,3) by simp
  ultimately show ?case using v' by (simp add: upd_desc_def)
qed

text \<open>
  C26. \<open>ls\<close> lists a directory: the inode number and the name of every entry are printed, in the order of the directory and each
  once, eight to a row, and the command returns 0 with its descriptor free again.
\<close>

theorem sh_list_prints_directory:
  assumes "vfs_open ramfs_ops path O_RDONLY v = done_with (v1, fp)" "0 \<le> fp" "isgoodfd (of_int fp) v1" "unat (of_int fp :: u32) < length (v_files v1)"
    and "dir_is (v_data v1) (n_inode (v_nodes v1 (fd_file (v_descs v1 (v_files v1 ! unat (of_int fp :: u32)))))) xs" "length xs < 2 ^ 31"
    and "d_offset (v_descs v1 (v_files v1 ! unat (of_int fp :: u32))) = 0"
  shows "\<exists>v'. sh_list [cmd, path] v = done_with (v', list_rows 0 xs @ nl, 0) \<and> v_files v' ! unat (of_int fp :: u32) = 0"
proof -
  obtain v2 where v2: "list_loop (of_int fp) 0 [] v1 = done_with (v2, list_rows 0 xs)" "isgoodfd (of_int fp) v2" "v_files v2 = v_files v1"
    using list_loop_prints [OF assms(6,3,5), of 0 "length xs" "[]"] assms(7) by auto
  moreover obtain v3 r where "vfs_close ramfs_ops (of_int fp) v2 = done_with (v3, r)" "v_files v3 = (v_files v2)[unat (of_int fp :: u32) := 0]"
    using v2(2) by (auto simp: vfs_close_def Let_def ramfs_close_def ramfs_file_funcs_def and_then_done)
  ultimately show ?thesis using assms(1,2,4) by (simp add: sh_list_def)
qed

section \<open>Numbers\<close>

text \<open>
  The parts that \<open>sh_uptime\<close> prints make up the time on the first day. The hours are cut at 60 and not at 24, so later on they
  contain days that are printed as well.
\<close>

lemma uptime_parts:
  fixes t :: u32
  assumes "t div 60 div 60 div 24 = 0"
  shows "unat t = (unat (t div 60 div 60 mod 60) * 60 + unat (t div 60 mod 60)) * 60 + unat (t mod 60)"
  using assms by (simp add: unat_div unat_mod word_unat_eq_iff)

lemma sh_uptime_prints:
  assumes "current_freq \<noteq> 0" "t = tick s div current_freq"
  shows "sh_uptime current_freq s = done_with (''Uptime: '' @ print_num (t div 60 div 60 div 24) @ '' days, '' @ print_num (t div 60 div 60 mod 60) @ ''h:'' @
    print_num (t div 60 mod 60) @ ''m:'' @ print_num (t mod 60) @ ''s'' @ nl)"
  using assms by (simp add: sh_uptime_def get_uptime_def Let_def printf_conv_def nl_def done_with_def)

lemma sh_uptime_second_day: "sh_uptime 1 (s\<lparr>tick := 90000\<rparr>) = done_with (''Uptime: 1 days, 25h:0m:0s'' @ nl)"
  by (subst sh_uptime_prints [of 1 90000]) (simp_all add: print_num_def num_buf.simps)

section \<open>A disk with one file\<close>

theorem sh_cat_prints_file_witness:
  "\<exists>v'. sh_cat [''cat'', ''/disk''] 0x30000 (demo_disk_vfs (\<lambda>_. 65)) = done_with (v', text_of (\<lambda>_. 65) 0 4096 @ ''Got fp '' @ print_num 0 @ nl, 0) \<and>
    v_files v' ! 0 = 0"
proof -
  obtain v where v: "vfs_open ramfs_ops ''/disk'' O_RDONLY (demo_disk_vfs (\<lambda>_. 65)) = done_with (v, 0)" "image_open v 0 (\<lambda>_. 65) 4096 0x10000"
    "r_offset (v_descs v (v_files v ! 0)) = 0" "length (v_files v) = 32"
    by (rule demo_disk_opens)
  show ?thesis
    using sh_cat_prints_file [OF v(1), of "\<lambda>_. 65" 4096 "0x10000" "0x30000" "''cat''"] v(2-4) by (simp add: far_def)
qed

theorem sh_list_prints_directory_witness:
  "\<exists>v'. sh_list [''ls'', ''/''] (demo_disk_vfs (\<lambda>_. 0)) = done_with (v', list_rows 0 [(''disk'', 2)] @ nl, 0) \<and> v_files v' ! 0 = 0"
proof -
  obtain v where v: "vfs_open ramfs_ops ''/'' O_RDONLY (demo_disk_vfs (\<lambda>_. 0)) = done_with (v, 0)" "isgoodfd 0 v"
    "dir_is (v_data v) (n_inode (v_nodes v (fd_file (v_descs v (v_files v ! 0))))) [(''disk'', 2)]"
    "d_offset (v_descs v (v_files v ! 0)) = 0" "length (v_files v) = 32"
    by (rule demo_root_opens)
  show ?thesis using sh_list_prints_directory [OF v(1), of "[(''disk'', 2)]" "''ls''"] v(2-5) by simp
qed

end
