(* ===== verification/User_Programs.thy ===== *)
theory User_Programs
  imports File_Image Stdio
begin

text \<open>
  The output and string routines of programs, \<open>user/lib/stdio.c\<close> and \<open>user/lib/string.c\<close>, and two programs over them: the dump
  of a file, \<open>user/hexdump.c\<close>, and the password prompt, \<open>user/login.c\<close>. Output is the sequence of \<open>write\<close> calls on descriptor 1.
  The string routines that have the bodies of the kernel's are those of \<open>Cstring\<close>.

  The lemmas show what the two programs print and accept.
\<close>

section \<open>The library\<close>

text \<open>The bodies of \<open>printf\<close>, \<open>print_num\<close> and \<open>print_hex\<close> are those of the kernel's \<open>kvfprintf\<close>, \<open>fprint_num\<close> and \<open>fprint_hex\<close> on descriptor 1.\<close>

definition uprintf :: "string \<Rightarrow> va list \<Rightarrow> string list exec" where
  "uprintf format args = kvfprintf format args"

definition uprint_num :: "u32 \<Rightarrow> string list" where
  "uprint_num input = fprint_num input"

definition uprint_hex :: "u32 \<Rightarrow> string list" where
  "uprint_hex input = fprint_hex input"

definition putc :: "u32 \<Rightarrow> string list" where
  "putc c = [[char_of (unat (ucast c :: u8))]]"

text \<open>\<open>getc\<close> reads one byte into an \<open>int\<close> whose other bytes are whatever the stack held.\<close>

definition getc :: "u32 \<Rightarrow> u8 \<Rightarrow> u32" where
  "getc garbage b = push_bit 8 (drop_bit 8 garbage) OR ucast b"

lemma getc_char: "ucast (getc garbage b) = b"
  by (rule bit_word_eqI) (auto simp: getc_def bit_simps)

text \<open>\<open>strcpy\<close> copies the characters without the terminating zero.\<close>

definition strcpy :: "mem \<Rightarrow> u32 \<Rightarrow> u32 \<Rightarrow> mem option" where
  "strcpy m dest src = map_option (memcpy m dest src) (strlen m src)"

text \<open>So the copy is a string only over a place that held zeros.\<close>

lemma strcpy_copies:
  assumes "cstr m src s" "length s < 2 ^ 32" "length s < unat (dest - src)" "length s < unat (src - dest)"
  shows "\<exists>m'. strcpy m dest src = Some m' \<and> (m (dest + of_nat (length s)) = 0 \<longrightarrow> cstr m' dest s) \<and>
    m' (dest + of_nat (length s)) = m (dest + of_nat (length s))"
proof -
  let ?m = "memcpy m dest src (of_nat (length s))"
  have n: "unat (of_nat (length s) :: u32) = length s" using assms(2) by simp
  have cp: "?m a = (if unat (a - dest) < length s then m (src + (a - dest)) else m a)" for a
    using assms(3) n by (subst memcpy_apply) auto
  have "?m (dest + of_nat i) = s ! i" if "i < length s" for i
    using cp [of "dest + of_nat i"] cstr_nth [OF assms(1) that] that assms(2) by simp
  moreover have "?m (dest + of_nat (length s)) = m (dest + of_nat (length s))" using cp [of "dest + of_nat (length s)"] n by simp
  ultimately show ?thesis using strlen_cstr [OF assms(1)] assms(1) by (auto simp: strcpy_def cstr_iff)
qed

section \<open>\<open>hexdump\<close>\<close>

text \<open>\<open>buf\<close> is a signed character, so it is extended by its sign; a new line is begun after the bytes 0, 8, 16 and so on.\<close>

partial_function (option) dump_loop :: "u32 \<Rightarrow> u32 \<Rightarrow> nat \<Rightarrow> string list \<Rightarrow> ramfs vfs \<Rightarrow> (ramfs vfs \<times> string list) run" where
  "dump_loop fd buf i out v =
    and_then (vfs_read ramfs_ops fd buf 1 v) (\<lambda>r.
      if sint (snd r) > 0 then
        and_then (Some (uprintf ''0x%x '' [VInt (scast (vmem (fst r) buf))])) (\<lambda>out1.
          dump_loop fd buf (i + 1) (out @ out1 @ (if i mod 8 = 0 then [[CHR 0x0a]] else [])) (fst r))
      else done_with (fst r, out))"

definition hexdump :: "string list \<Rightarrow> u32 \<Rightarrow> ramfs vfs \<Rightarrow> (ramfs vfs \<times> string list \<times> int) run" where
  "hexdump argv buf v =
    (if length argv < 2 then done_with (v, [], 1)
     else and_then (vfs_open ramfs_ops (argv ! 1) 1 v) (\<lambda>(v1, fd).
       if fd < 0 then
         and_then (Some (uprintf (''Could not open file '' @ [CHR 0x22] @ ''%s'' @ [CHR 0x22, CHR 0x0a]) [VStr (argv ! 1)])) (\<lambda>out. done_with (v1, out, 1))
       else and_then (dump_loop (of_int fd) buf 0 [] v1) (\<lambda>(v2, out). done_with (v2, out, 0))))"

text \<open>The dump of the bytes \<open>i\<close> to \<open>n\<close>.\<close>

definition dump_byte :: "nat \<Rightarrow> u8 \<Rightarrow> string" where
  "dump_byte i b = ''0x'' @ print_hex (scast b) @ '' '' @ (if i mod 8 = 0 then [CHR 0x0a] else [])"

definition dump_text :: "(nat \<Rightarrow> u8) \<Rightarrow> nat \<Rightarrow> nat \<Rightarrow> string" where
  "dump_text img i n = concat (map (\<lambda>k. dump_byte k (img k)) [i..<n])"

lemma dump_loop_prints:
  assumes "far D n buf 1"
  shows "image_open v fd img n D \<Longrightarrow> i + k = n \<Longrightarrow> r_offset (v_descs v (v_files v ! unat fd)) = of_nat i \<Longrightarrow>
    \<exists>v' outs. dump_loop fd buf i out v = done_with (v', outs) \<and> concat outs = concat out @ dump_text img i n"
proof (induction k arbitrary: i out v)
  case (0 i out v)
  have n: "n < 2 ^ 31" using 0(1) by (auto simp: image_open_def)
  then have un: "unat (of_nat n :: u32) = n" by simp
  obtain v1 where "vfs_read ramfs_ops fd buf 1 v = done_with (v1, 0)"
    by (rule read_rest [OF 0(1), of "of_nat n" buf 1]) (use 0 un assms in auto)
  then show ?case using 0(2) by (subst dump_loop.simps) (auto simp: dump_text_def)
next
  case (Suc k i out v)
  have n: "n < 2 ^ 31" using Suc.prems(1) by (auto simp: image_open_def)
  then have ui: "unat (of_nat i :: u32) = i" "i < n" using Suc.prems(2) by simp_all
  obtain v1 where v1: "vfs_read ramfs_ops fd buf 1 v = done_with (v1, 1)" "image_open v1 fd img n D" "vmem v1 buf = img i"
    "r_offset (v_descs v1 (v_files v1 ! unat fd)) = of_nat (Suc i)"
    by (rule read_rest [OF Suc.prems(1), of "of_nat i" buf 1]) (use Suc.prems ui assms in \<open>auto simp: put_at_def min_def\<close>)
  let ?o = "kvfprintf ''0x%x '' [VInt (scast (img i))]"
  obtain o1 where o1: "?o = Inr o1" "concat o1 = ''0x'' @ print_hex (scast (img i)) @ '' ''"
    by (simp add: kvfprintf_conv_def concat_fprint)
  obtain v' outs where IH: "dump_loop fd buf (Suc i) (out @ o1 @ (if i mod 8 = 0 then [[CHR 0x0a]] else [])) v1 = done_with (v', outs)"
    "concat outs = concat (out @ o1 @ (if i mod 8 = 0 then [[CHR 0x0a]] else [])) @ dump_text img (Suc i) n"
    using Suc.IH [OF v1(2) _ v1(4)] Suc.prems(2) by force
  have "dump_loop fd buf i out v = done_with (v', outs)"
    using IH(1) v1(1,3) o1(1) by (subst dump_loop.simps) (simp add: uprintf_def)
  moreover have "dump_text img i n = dump_byte i (img i) @ dump_text img (Suc i) n" using ui(2) by (simp add: dump_text_def upt_conv_Cons)
  ultimately show ?case using IH(2) o1(2) by (simp add: dump_byte_def)
qed

text \<open>
  \<open>hexdump\<close> prints every byte of a file, in order and once, as a hexadecimal number, and returns 0. A byte from 0x80 on is
  printed with eight digits, and the rows begin after the first, the ninth and so on.
\<close>

theorem hexdump_prints:
  assumes "vfs_open ramfs_ops path O_RDONLY v = done_with (v1, fd)" "0 \<le> fd" "image_open v1 (of_int fd) img n D"
    and "r_offset (v_descs v1 (v_files v1 ! unat (of_int fd :: u32))) = 0" "far D n buf 1"
  shows "\<exists>v' outs. hexdump [cmd, path] buf v = done_with (v', outs, 0) \<and> concat outs = dump_text img 0 n"
proof -
  obtain v' outs where "dump_loop (of_int fd) buf 0 [] v1 = done_with (v', outs)" "concat outs = dump_text img 0 n"
    using dump_loop_prints [OF assms(5,3), of 0 n "[]"] assms(4) by auto
  then show ?thesis using assms(1,2) by (auto simp: hexdump_def)
qed

theorem hexdump_prints_witness:
  "\<exists>v' outs. hexdump [''hexdump'', ''/disk''] 0x30000 (demo_disk_vfs (\<lambda>_. 128)) = done_with (v', outs, 0) \<and>
    concat outs = dump_text (\<lambda>_. 128) 0 4096"
proof -
  obtain v where v: "vfs_open ramfs_ops ''/disk'' O_RDONLY (demo_disk_vfs (\<lambda>_. 128)) = done_with (v, 0)" "image_open v 0 (\<lambda>_. 128) 4096 0x10000"
    "r_offset (v_descs v (v_files v ! 0)) = 0" "length (v_files v) = 32"
    by (rule demo_disk_opens)
  show ?thesis
    using hexdump_prints [OF v(1), of "\<lambda>_. 128" 4096 "0x10000" "0x30000" "''hexdump''"] v(2-4) by (simp add: far_def)
qed

section \<open>\<open>login\<close>\<close>

text \<open>
  Reading a line into the 33 bytes of \<open>buf\<close>: \<open>inp\<close> gives the characters typed, \<open>n\<close> is the number read so far and \<open>temp\<close> the
  last of them. The result is the number read and the memory with the terminating zero.
\<close>

function read_pass :: "(nat \<Rightarrow> u8) \<Rightarrow> u32 \<Rightarrow> nat \<Rightarrow> nat \<Rightarrow> u8 \<Rightarrow> mem \<Rightarrow> nat \<times> mem" where
  "read_pass inp buf n i temp m =
    (if i < 32 \<and> temp \<noteq> 10 then read_pass inp buf (n + 1) (i + 1) (inp n) (m(buf + of_nat i := temp))
     else (n, m(buf + of_nat i := 0)))"
  by pat_completeness auto
termination by (relation "measure (\<lambda>(inp, buf, n, i, temp, m). 32 - i)") auto

declare read_pass.simps [simp del]

text \<open>One round of the prompt, up to the comparison with the string at \<open>pass\<close>: what is printed, how much is read, and whether the password is right.\<close>

definition login_round :: "(nat \<Rightarrow> u8) \<Rightarrow> u32 \<Rightarrow> u32 \<Rightarrow> nat \<Rightarrow> mem \<Rightarrow> (nat \<times> mem \<times> bool) option" where
  "login_round inp buf pass n m =
    (let (n1, m1) = read_pass inp buf (n + 1) 0 (inp n) m
     in map_option (\<lambda>r. (n1, m1, r = 0)) (strcmp m1 buf pass))"

definition password :: "u8 list" where
  "password = map (\<lambda>c. of_nat (of_char c)) ''password''"

text \<open>Reading a line that ends after \<open>k\<close> more characters, or is cut.\<close>

lemma read_pass_line:
  assumes "\<forall>j<k. inp (n + j) \<noteq> 10" "i + k = 32 \<or> i + k < 32 \<and> inp (n + k) = 10"
  shows "\<exists>m'. read_pass inp buf (n + 1) i (inp n) m = (n + k + 1, m') \<and> (\<forall>j<k. m' (buf + of_nat (i + j)) = inp (n + j)) \<and>
    m' (buf + of_nat (i + k)) = 0 \<and> kept m m' buf i (Suc (i + k))"
  using assms
proof (induction k arbitrary: n i m)
  case 0
  then have "\<not> (i < 32 \<and> inp n \<noteq> 10)" "i < 2 ^ 32" by auto
  then show ?case using kept_upd [of i m buf 0] by (subst read_pass.simps) auto
next
  case (Suc k)
  have i: "i < 32" "inp n \<noteq> 10" using Suc.prems(1) [rule_format, of 0] Suc.prems(2) by auto
  let ?m = "m(buf + of_nat i := inp n)"
  obtain m' where m': "read_pass inp buf (n + 1 + 1) (i + 1) (inp (n + 1)) ?m = (n + 1 + k + 1, m')"
    "\<forall>j<k. m' (buf + of_nat (i + 1 + j)) = inp (n + 1 + j)" "m' (buf + of_nat (i + 1 + k)) = 0" "kept ?m m' buf (i + 1) (Suc (i + 1 + k))"
  proof -
    have "\<forall>j<k. inp (n + 1 + j) \<noteq> 10" "i + 1 + k = 32 \<or> i + 1 + k < 32 \<and> inp (n + 1 + k) = 10"
      using Suc.prems(1) [rule_format, of "Suc _"] Suc.prems(2) by auto
    from Suc.IH [OF this, of ?m] show thesis using that by blast
  qed
  have "m' (buf + of_nat i) = ?m (buf + of_nat i)" by (rule kept_byte [OF m'(4)]) (use i in simp_all)
  then have "m' (buf + of_nat (i + j)) = inp (n + j)" if "j < Suc k" for j
    using that m'(2) by (cases j) (simp_all add: add.assoc)
  moreover have "kept m m' buf i (Suc (i + Suc k))"
    by (rule kept_trans [OF kept_mono [OF kept_upd] kept_mono [OF m'(4)]]) (use i in simp_all)
  ultimately show ?case using m'(1,3) i by (subst read_pass.simps) simp
qed

text \<open>
  C27. The prompt accepts the password and nothing else: a line of at most 32 characters is read to its end and is accepted just
  when it is the password; of a longer line 33 characters are read and it is rejected.
\<close>

theorem login_round_accepts:
  assumes "\<And>j. j < length ks \<Longrightarrow> inp (n + j) = ks ! j" "inp (n + length ks) = 10" "0 \<notin> set ks" "10 \<notin> set ks"
    and "cstr m pass password" "33 \<le> unat (pass - buf)" "unat (pass - buf) + 9 \<le> 2 ^ 32"
  shows "\<exists>m'. login_round inp buf pass n m = Some (n + min (length ks) 32 + 1, m', ks = password)"
proof -
  let ?k = "min (length ks) 32" let ?d = "unat (pass - buf)"
  have nl: "\<forall>j<?k. inp (n + j) \<noteq> 10" using assms(1,4) by (metis min_less_iff_conj nth_mem)
  obtain m' where m': "read_pass inp buf (n + 1) 0 (inp n) m = (n + ?k + 1, m')" "\<forall>j<?k. m' (buf + of_nat j) = inp (n + j)"
    "m' (buf + of_nat ?k) = 0" "kept m m' buf 0 (Suc ?k)"
  proof -
    have "0 + ?k = 32 \<or> 0 + ?k < 32 \<and> inp (n + ?k) = 10" using assms(2) by (auto simp: min_def)
    from read_pass_line [OF nl this, of buf m] show thesis using that by auto
  qed
  have p: "length password = 8" by (simp add: password_def)
  have "cstr m' (buf + of_nat ?d) password"
    by (rule kept_cstr [OF m'(4)]) (use assms(5-7) p in auto)
  moreover have "cstr m' buf (take 32 ks)"
    using m'(2,3) assms(1,3) by (auto simp: cstr_iff in_set_conv_nth min.commute)
  moreover have "length (take 32 ks) < 2 ^ 32" by (simp add: min_def)
  ultimately obtain r where "strcmp m' buf pass = Some r" "r = 0 \<longleftrightarrow> take 32 ks = password"
    using strcmp_zero_iff [of m' buf "take 32 ks" pass password] p by auto
  moreover have "take 32 ks = password \<longleftrightarrow> ks = password"
  proof
    assume t: "take 32 ks = password"
    have "length (take 32 ks) = 8" by (simp only: t p)
    then have "length ks = 8" by (simp add: min_def split: if_splits)
    then show "ks = password" using t by simp
  qed (simp add: p)
  ultimately show ?thesis using m'(1) by (simp add: login_round_def)
qed

theorem login_round_accepts_witness:
  "\<exists>m'. login_round (\<lambda>j. (password @ [10]) ! j) 0x1000 0x2000 0 (\<lambda>a. if unat (a - 0x2000) < 8 then password ! unat (a - 0x2000) else 0) =
    Some (9, m', True)"
proof -
  have p: "length password = 8" "0 \<notin> set password" "10 \<notin> set password" by (simp_all add: password_def)
  then have "cstr (\<lambda>a. if unat (a - 0x2000) < 8 then password ! unat (a - 0x2000) else 0) 0x2000 password"
    by (auto simp: cstr_iff) (metis nth_mem)
  then show ?thesis
    using login_round_accepts [of password "\<lambda>j. (password @ [10]) ! j" 0 _ "0x2000" "0x1000"] p by (auto simp: nth_append)
qed

end
