(* ===== verification/Tvi.thy ===== *)
theory Tvi
  imports User_Programs User_Alloc
begin

text \<open>
  The editor, \<open>user/tvi.c\<close>: it loads a file, indexes its lines, shows a part of it and moves that part with keys. A program
  reaches \<open>open\<close>, \<open>lstat\<close> and \<open>read\<close> through system calls whose numbers are right (\<open>Syscall\<close>). The blocks of \<open>load_file\<close> come
  from \<open>malloc\<close> (\<open>User_Alloc\<close>), whose state is threaded through; the members of \<open>fbuf_t\<close> and \<open>screen_t\<close> are kept apart from the
  memory. The output is the sequence of \<open>write\<close> calls on the screen, and the keys are those that \<open>getc\<close> reads
  one after the other. Numbers of type \<open>int\<close> that are only computed with are integers, signed overflow being undefined in C.

  The lemmas show that the loops of \<open>load_file\<close> index every line where the index does not overlap the text, that the editor
  never leaves its two tables, and which lines are shown. \<open>malloc\<close> promises no such thing of two blocks, also not to
  \<open>load_file\<close>: \<open>find_free_overlaps\<close>.
\<close>

section \<open>Buffers and screens\<close>

definition M_COMMAND :: u32 where "M_COMMAND = 0"
definition M_INSERT :: u32 where "M_INSERT = 1"

record fbuf =
  b_fd :: int
  b_size :: u32
  b_lines :: u32
  b_name :: string
  b_data :: u32
  b_linebuf :: u32

record screen =
  s_buf :: fbuf
  pos_y :: u32
  screen_x :: int
  screen_y :: int
  cur_x :: u32
  cur_y :: u32
  s_mode :: u32
  s_running :: u32

definition modes :: "string list" where
  "modes = [''command'', ''insert'']"

definition init_screen :: "fbuf \<Rightarrow> screen" where
  "init_screen b = \<lparr>s_buf = b, pos_y = 0, screen_x = 80, screen_y = 25, cur_x = 0, cur_y = 0, s_mode = 0, s_running = 1\<rparr>"

section \<open>Loading\<close>

text \<open>The loop that counts the lines, with \<open>n\<close> bytes left, and the one that records where the line after each newline starts.\<close>

fun lines_loop :: "mem \<Rightarrow> u32 \<Rightarrow> u32 \<Rightarrow> u32 \<Rightarrow> nat \<Rightarrow> u32" where
  "lines_loop m data i lines 0 = lines"
| "lines_loop m data i lines (Suc n) = lines_loop m data (i + 1) (if m (data + i) = 10 then lines + 1 else lines) n"

fun index_loop :: "u32 \<Rightarrow> u32 \<Rightarrow> u32 \<Rightarrow> u32 \<Rightarrow> u32 \<Rightarrow> nat \<Rightarrow> mem \<Rightarrow> mem" where
  "index_loop data linebuf lines i j 0 m = m"
| "index_loop data linebuf lines i j (Suc n) m =
    (if sint j < sint lines then
       (if m (data + i) = 10 then index_loop data linebuf lines (i + 1) (j + 1) n (store32 m (linebuf + 4 * j) (i + 1))
        else index_loop data linebuf lines (i + 1) j n m)
     else m)"

text \<open>\<open>malloc\<close> on the memory that the system calls work on.\<close>

definition malloc_here :: "u32 \<Rightarrow> uproc \<times> ramfs vfs \<Rightarrow> ((uproc \<times> ramfs vfs) \<times> u32) run" where
  "malloc_here len x =
    (let (u, v) = x in
     case malloc len (u\<lparr>u_mem := vmem v\<rparr>) of None \<Rightarrow> None
     | Some (u1, a) \<Rightarrow> done_with ((u1, v\<lparr>v_data := (v_data v)\<lparr>bytes := u_mem u1\<rparr>\<rparr>), a))"

definition load_file :: "string \<Rightarrow> uproc \<times> ramfs vfs \<Rightarrow> ((uproc \<times> ramfs vfs) \<times> fbuf) run" where
  "load_file name x =
    and_then (malloc_here 24 x) (\<lambda>((u1, v1), _).
    and_then (vfs_open ramfs_ops name (O_CREAT OR O_RDONLY) v1) (\<lambda>(v2, fd).
    and_then (lstat ramfs_ops name v2) (\<lambda>(st, _).
      let sz = (case st of None \<Rightarrow> 0 | Some w \<Rightarrow> st_size w) in
      and_then (malloc_here (sz + 1) (u1, v2)) (\<lambda>((u2, v3), data).
      and_then (vfs_read ramfs_ops (of_int fd) data sz v3) (\<lambda>(v4, _).
        let lines = lines_loop (vmem v4) data 0 0 (unat sz) in
        and_then (malloc_here (4 * (lines + 16)) (u2, v4)) (\<lambda>((u3, v5), linebuf).
          let m = index_loop data linebuf lines 0 0 (unat sz) (vmem v5)
          in done_with ((u3, v5\<lparr>v_data := (v_data v5)\<lparr>bytes := m\<rparr>\<rparr>),
               \<lparr>b_fd = fd, b_size = sz, b_lines = lines, b_name = name, b_data = data, b_linebuf = linebuf\<rparr>)))))))"

section \<open>Showing\<close>

text \<open>A tab: spaces while \<open>k \<le> TAB_SIZE\<close>, and the end \<open>t\<close> of the row moves left with each.\<close>

function tab_loop :: "int \<Rightarrow> int \<Rightarrow> int \<Rightarrow> string list \<times> int" where
  "tab_loop j t k = (if k \<le> 8 \<and> j \<le> t then let (out, t1) = tab_loop j (t - 1) (k + 1) in ('' '' # out, t1) else ([], t))"
  by pat_completeness auto
termination by (relation "measure (\<lambda>(j, t, k). nat (9 - k))") auto

declare tab_loop.simps [simp del]

lemma tab_loop_le: "snd (tab_loop j t k) \<le> t"
proof (induction j t k rule: tab_loop.induct)
  case (1 j t k)
  then show ?case by (subst tab_loop.simps) (auto simp: split_beta)
qed

text \<open>A row: the bytes from \<open>j\<close> to \<open>t\<close>, at most to the end of the line. The result has the place reached and \<open>overflowed\<close>.\<close>

function row_loop :: "mem \<Rightarrow> u32 \<Rightarrow> int \<Rightarrow> int \<Rightarrow> int \<Rightarrow> int \<Rightarrow> bool \<Rightarrow> string list \<times> int \<times> bool" where
  "row_loop m data sz sx j t overflowed =
    (if j < t \<and> j < sz then
       let c = m (data + of_int j)
       in if c = 10 then ([], j + 1, overflowed)
          else let r = (if c = 9 then tab_loop j t ((sx - (t - j) + 1) mod 8) else ([[char_of (unat c)]], t));
                   (out, j1, o1) = row_loop m data sz sx (j + 1) (snd r) (overflowed \<or> j = snd r - 1)
               in (fst r @ out, j1, o1)
     else ([], j, overflowed))"
  by pat_completeness auto
termination
proof (relation "measure (\<lambda>(m, data, sz, sx, j, t, overflowed). nat (t - j))", goal_cases)
  case (2 m data sz sx j t overflowed c r)
  then have "snd r \<le> t" using tab_loop_le [of j t] by simp
  with 2 show ?case by auto
qed simp

function skip_loop :: "mem \<Rightarrow> u32 \<Rightarrow> int \<Rightarrow> int \<Rightarrow> int" where
  "skip_loop m data sz j = (if m (data + of_int j) \<noteq> 10 \<and> j < sz then skip_loop m data sz (j + 1) else j)"
  by pat_completeness auto
termination by (relation "measure (\<lambda>(m, data, sz, j). nat (sz - j))") auto

declare row_loop.simps [simp del] skip_loop.simps [simp del]

text \<open>\<open>OVERFLOW_LINES\<close> is 0: a line that is too long is cut.\<close>

fun blit_rows :: "mem \<Rightarrow> fbuf \<Rightarrow> int \<Rightarrow> int \<Rightarrow> nat \<Rightarrow> string list" where
  "blit_rows m b sx j 0 = []"
| "blit_rows m b sx j (Suc n) =
    (let (out, j1, overflowed) = row_loop m (b_data b) (sint (b_size b)) sx j (j + sx) False;
         j2 = (if overflowed then skip_loop m (b_data b) (sint (b_size b)) j1 + 1 else j1)
     in out @ [[CHR 0x0a]] @ (if j2 = sint (b_size b) then [''~''] else []) @ blit_rows m b sx j2 n)"

text \<open>The index of the first line shown is \<open>MIN( s->pos_y, s->buf->lines )\<close>.\<close>

definition blit :: "mem \<Rightarrow> screen \<Rightarrow> string list exec" where
  "blit m s =
    (let b = s_buf s;
         j = sint (load32 m (b_linebuf b + 4 * (if sint (pos_y s) < sint (b_lines b) then pos_y s else b_lines b)));
         rows = blit_rows m b (screen_x s) j (nat (screen_y s - 1))
     in if unat (s_mode s) < length modes
        then map_sum id (\<lambda>status. [[CHR 0x0a]] @ rows @ status)
          (uprintf ''[%s:%d] (%s): %d, %d, %d''
            [VStr (b_name b), VInt (b_lines b), VStr (modes ! unat (s_mode s)), VInt (cur_x s), VInt (cur_y s), VInt (pos_y s)])
        else Inl Out_Of_Bounds)"

section \<open>Keys\<close>

definition command_func :: "screen \<Rightarrow> char \<Rightarrow> screen" where
  "command_func s c =
    (if c = CHR ''j'' then s\<lparr>pos_y := pos_y s + 1\<rparr>
     else if c = CHR ''k'' then (if pos_y s \<noteq> 0 then s\<lparr>pos_y := pos_y s - 1\<rparr> else s)
     else if c = CHR ''g'' then s\<lparr>pos_y := 0\<rparr>
     else if c = CHR ''G'' then
       (let p = b_lines (s_buf s) - of_int (screen_y s) in s\<lparr>pos_y := (if sint p < 0 then 0 else p)\<rparr>)
     else if c = CHR ''i'' then s\<lparr>s_mode := M_INSERT\<rparr>
     else if c = CHR ''q'' then s\<lparr>s_running := 0\<rparr>
     else s)"

definition insert_func :: "screen \<Rightarrow> char \<Rightarrow> screen" where
  "insert_func s c = (if c = CHR 0x1b then s\<lparr>s_mode := M_COMMAND\<rparr> else s)"

definition mode_funcs :: "(screen \<Rightarrow> char \<Rightarrow> screen) list" where
  "mode_funcs = [command_func, insert_func]"

text \<open>The loop of \<open>main\<close> on the keys read so far: the writes and the screen when it waits for the next key or has ended.\<close>

fun key_loop :: "mem \<Rightarrow> screen \<Rightarrow> string \<Rightarrow> (string list \<times> screen) exec" where
  "key_loop m s [] = Inr ([], s)"
| "key_loop m s (c # cs) =
    (if s_running s = 0 then Inr ([], s)
     else if unat (s_mode s) < length mode_funcs then
       (let s1 = (mode_funcs ! unat (s_mode s)) s c
        in case blit m s1 of Inl e \<Rightarrow> Inl e | Inr out \<Rightarrow> map_sum id (\<lambda>(outs, s2). (out @ outs, s2)) (key_loop m s1 cs))
     else Inl Out_Of_Bounds)"

text \<open>\<open>main\<close> from the loaded file on.\<close>

definition edit :: "mem \<Rightarrow> fbuf \<Rightarrow> string \<Rightarrow> (string list \<times> screen) exec" where
  "edit m b keys =
    (case blit m (init_screen b) of Inl e \<Rightarrow> Inl e
     | Inr out \<Rightarrow> map_sum id (\<lambda>(outs, s). (out @ outs, s)) (key_loop m (init_screen b) keys))"

section \<open>The index of the lines\<close>

definition first_line :: "u8 list \<Rightarrow> u8 list" where
  "first_line t = takeWhile (\<lambda>c. c \<noteq> 10) t"

definition next_lines :: "u8 list \<Rightarrow> u8 list" where
  "next_lines t = tl (dropWhile (\<lambda>c. c \<noteq> 10) t)"

lemma line_simps [simp]: "first_line [] = []" "next_lines [] = []" "first_line (c # t) = (if c = 10 then [] else c # first_line t)" "next_lines (c # t) = (if c = 10 then t else next_lines t)"
  by (simp_all add: first_line_def next_lines_def)

text \<open>The entries of the index lead to the lines after the first.\<close>

lemma drop_starts: "k < length (places 10 i u) \<Longrightarrow> drop (places 10 i u ! k - i) u = (next_lines ^^ Suc k) u"
proof (induction u arbitrary: i k)
  case (Cons c cs)
  have d: "drop (p - i) (c # cs) = drop (p - Suc i) cs" if "Suc i \<le> p" for p using that by (simp add: drop_Cons')
  show ?case
  proof (cases "c = 10")
    case True
    show ?thesis
    proof (cases k)
      case (Suc k')
      have "places 10 (Suc i) cs ! k' \<in> set (places 10 (Suc i) cs)" using Cons.prems True Suc by simp
      then show ?thesis using Cons.IH [of k' "Suc i"] Cons.prems True Suc places_le [of _ 10 "Suc i" cs] d by (fastforce simp: funpow_swap1)
    qed (simp add: True)
  next
    case False
    have "places 10 (Suc i) cs ! k \<in> set (places 10 (Suc i) cs)" using Cons.prems False by simp
    then show ?thesis using Cons.IH [of k "Suc i"] Cons.prems False places_le [of _ 10 "Suc i" cs] d by (fastforce simp: funpow_swap1)
  qed
qed simp

lemma lines_loop_starts:
  assumes "holds_at m data n ((!) txt)" "length txt = n"
  shows "txt = pre @ u \<Longrightarrow> lines_loop m data (of_nat (length pre)) l (length u) = l + of_nat (length (places 10 (length pre) u))"
proof (induction u arbitrary: pre l)
  case (Cons c cs)
  have "m (data + of_nat (length pre)) = c" using assms Cons.prems by (auto simp: holds_at_def nth_append)
  then show ?case using Cons.IH [of "pre @ [c]"] Cons.prems by (auto simp: add.commute)
qed simp

lemma index_loop_starts:
  assumes "far data n lb (4 * L)" "L < 2 ^ 31" "n < 2 ^ 31" "length txt = n"
  shows "txt = pre @ u \<Longrightarrow> J + length (places 10 (length pre) u) = L \<Longrightarrow> holds_at m data n ((!) txt) \<Longrightarrow>
    kept m (index_loop data lb (of_nat L) (of_nat (length pre)) (of_nat J) (length u) m) lb (4 * J) (4 * L) \<and>
    (\<forall>k<length (places 10 (length pre) u).
      load32 (index_loop data lb (of_nat L) (of_nat (length pre)) (of_nat J) (length u) m) (lb + of_nat (4 * (J + k))) = of_nat (places 10 (length pre) u ! k))"
proof (induction u arbitrary: pre J m)
  case (Cons c cs)
  have c: "m (data + of_nat (length pre)) = c" using assms(4) Cons.prems(1,3) by (auto simp: holds_at_def nth_append)
  have l: "4 * L \<le> 2 ^ 32" using assms(1) by (simp add: far_def)
  have s: "sint (of_nat J :: u32) = int J" "sint (of_nat L :: u32) = int L" using Cons.prems(2) assms(2) by (simp_all add: sint_small)
  show ?case
  proof (cases "J < L")
    case False
    then show ?thesis using Cons.prems(2) s by (auto simp del: of_nat_add)
  next
    case True
    show ?thesis
    proof (cases "c = 10")
      case False
      then show ?thesis using Cons.IH [of "pre @ [c]" J m] Cons.prems c True s by (simp add: add.commute)
    next
      case nl: True
      let ?m = "store32 m (lb + of_nat (4 * J)) (of_nat (Suc (length pre)))"
      let ?r = "index_loop data lb (of_nat L) (of_nat (Suc (length pre))) (of_nat (Suc J)) (length cs) ?m"
      have k: "kept m ?m lb (4 * J) (4 * J + 4)" by (rule kept_store32) (use True l in simp)
      have "far data n lb (4 * J + 4)" using assms(1) True by (auto simp: far_def)
      then have h: "holds_at ?m data n ((!) txt)" using kept_holds_at [OF k] Cons.prems(3) by blast
      have e: "index_loop data lb (of_nat L) (of_nat (length pre)) (of_nat J) (length (c # cs)) m = ?r"
        using c nl True s by (simp add: add.commute)
      have IH: "kept ?m ?r lb (4 * Suc J) (4 * L)"
        "\<forall>k<length (places 10 (Suc (length pre)) cs). load32 ?r (lb + of_nat (4 * (Suc J + k))) = of_nat (places 10 (Suc (length pre)) cs ! k)"
        using Cons.IH [of "pre @ [c]" "Suc J" ?m] Cons.prems(1,2) nl h by (simp_all del: of_nat_Suc of_nat_add of_nat_mult)
      have "load32 ?r (lb + of_nat (4 * J)) = of_nat (Suc (length pre))"
        using kept_load32 [OF IH(1), of "4 * J"] True l by (simp del: of_nat_Suc of_nat_mult)
      moreover have "kept m ?r lb (4 * J) (4 * L)"
        by (rule kept_trans [OF kept_mono [OF k] kept_mono [OF IH(1)]]) (use True in simp_all)
      moreover have "load32 ?r (lb + of_nat (4 * (J + k))) = of_nat (places 10 (length pre) (c # cs) ! k)"
        if "k < length (places 10 (length pre) (c # cs))" for k
        using that nl IH(2) calculation(1) by (cases k) (simp_all del: of_nat_Suc of_nat_mult of_nat_add)
      ultimately show ?thesis unfolding e by blast
    qed
  qed
qed (simp add: kept_refl)

section \<open>What is shown\<close>

definition shown :: "u8 \<Rightarrow> char" where
  "shown c = char_of (unat c)"

definition ended :: "u8 list \<Rightarrow> bool" where
  "ended t \<longleftrightarrow> t = [] \<or> last t = 10"

text \<open>\<open>view k t\<close>: \<open>k\<close> rows of the text \<open>t\<close>, each cut at 80 characters; behind the last line there are tildes.\<close>

fun view :: "nat \<Rightarrow> u8 list \<Rightarrow> string" where
  "view 0 t = []"
| "view (Suc k) t = map shown (take 80 (first_line t)) @ [CHR 0x0a] @ (if next_lines t = [] then ''~'' else []) @ view k (next_lines t)"

lemma ended_split: "ended t \<Longrightarrow> t \<noteq> [] \<Longrightarrow> t = first_line t @ 10 # next_lines t"
proof (induction t)
  case (Cons c t)
  then show ?case by (cases "t = []") (auto simp: ended_def)
qed simp

lemma ended_rest: "ended t \<Longrightarrow> ended (next_lines t)"
proof (induction t)
  case (Cons c t)
  then show ?case by (cases "t = []") (auto simp: ended_def)
qed simp

lemma line_drop: "w \<le> length (first_line t) \<Longrightarrow> first_line (drop w t) = drop w (first_line t)"
proof (induction t arbitrary: w)
  case (Cons c t)
  then show ?case by (cases w) (auto split: if_splits)
qed simp

lemma row_short:
  assumes "holds_at m data (length txt) ((!) txt)" "9 \<notin> set txt"
  shows "txt = pre @ u \<Longrightarrow> ended u \<Longrightarrow> u \<noteq> [] \<Longrightarrow> length (first_line u) < w \<Longrightarrow>
    row_loop m data (int (length txt)) sx (int (length pre)) (int (length pre) + int w) ov =
      (map (\<lambda>c. [shown c]) (first_line u), int (length pre) + int (length (first_line u)) + 1, ov)"
proof (induction u arbitrary: pre w ov)
  case (Cons c cs)
  have c: "m (data + of_nat (length pre)) = c" using assms(1) Cons.prems(1) by (auto simp: holds_at_def nth_append)
  have w: "0 < w" "length pre < length txt" "c \<noteq> 9" using Cons.prems(1,4) assms(2) by auto
  show ?case
  proof (cases "c = 10")
    case False
    have "cs \<noteq> []" "ended cs" using Cons.prems(2) False by (auto simp: ended_def split: if_splits)
    then have "row_loop m data (int (length txt)) sx (int (length (pre @ [c]))) (int (length (pre @ [c])) + int (w - 1)) ov =
      (map (\<lambda>c. [shown c]) (first_line cs), int (length (pre @ [c])) + int (length (first_line cs)) + 1, ov)"
      by (intro Cons.IH) (use Cons.prems False in auto)
    moreover have "\<not> int (length pre) = int (length pre) + int w - 1" using Cons.prems(4) False by auto
    ultimately show ?thesis using c w False by (subst row_loop.simps) (simp add: Let_def shown_def of_nat_diff algebra_simps)
  qed (use c w in \<open>subst row_loop.simps; simp\<close>)
qed simp

lemma row_long:
  assumes "holds_at m data (length txt) ((!) txt)" "9 \<notin> set txt"
  shows "txt = pre @ u \<Longrightarrow> w \<le> length (first_line u) \<Longrightarrow>
    row_loop m data (int (length txt)) sx (int (length pre)) (int (length pre) + int w) ov =
      (map (\<lambda>c. [shown c]) (take w (first_line u)), int (length pre) + int w, ov \<or> 0 < w)"
proof (induction w arbitrary: u pre ov)
  case (Suc w)
  then obtain c cs where u: "u = c # cs" "c \<noteq> 10" by (cases u) (auto split: if_splits)
  have c: "m (data + of_nat (length pre)) = c" using assms(1) Suc.prems(1) u by (auto simp: holds_at_def nth_append)
  have w: "length pre < length txt" "c \<noteq> 9" using Suc.prems(1) u assms(2) by auto
  have "row_loop m data (int (length txt)) sx (int (length (pre @ [c]))) (int (length (pre @ [c])) + int w) (ov \<or> w = 0) =
      (map (\<lambda>c. [shown c]) (take w (first_line cs)), int (length (pre @ [c])) + int w, (ov \<or> w = 0) \<or> 0 < w)"
    by (rule Suc.IH) (use Suc.prems u in auto)
  then show ?case using c w u by (subst row_loop.simps) (auto simp: Let_def shown_def algebra_simps)
qed (simp add: row_loop.simps)

lemma skip_line:
  assumes "holds_at m data (length txt) ((!) txt)"
  shows "txt = pre @ u \<Longrightarrow> skip_loop m data (int (length txt)) (int (length pre)) = int (length pre) + int (length (first_line u))"
proof (induction u arbitrary: pre)
  case (Cons c cs)
  have c: "m (data + of_nat (length pre)) = c" using assms Cons.prems by (auto simp: holds_at_def nth_append)
  have "skip_loop m data (int (length txt)) (int (length (pre @ [c]))) = int (length (pre @ [c])) + int (length (first_line cs))"
    by (rule Cons.IH) (use Cons.prems in simp)
  then show ?case using c Cons.prems by (subst skip_loop.simps) (simp add: algebra_simps)
qed (subst skip_loop.simps; simp)

lemma blit_rows_view:
  assumes "holds_at m (b_data b) (length txt) ((!) txt)" "9 \<notin> set txt" "sint (b_size b) = int (length txt)"
  shows "txt = pre @ u \<Longrightarrow> ended u \<Longrightarrow> concat (blit_rows m b 80 (int (length pre)) k) = view k u"
proof (induction k arbitrary: pre u)
  case (Suc k)
  show ?case
  proof (cases "u = []")
    case True
    then have "row_loop m (b_data b) (int (length txt)) 80 (int (length pre)) (int (length pre) + 80) False = ([], int (length pre), False)"
      using Suc.prems by (subst row_loop.simps) simp
    then show ?thesis using Suc.IH [of pre "[]"] Suc.prems True assms(3) by (simp add: ended_def)
  next
    case False
    note u = ended_split [OF Suc.prems(2) False]
    let ?r = "row_loop m (b_data b) (int (length txt)) 80 (int (length pre)) (int (length pre) + 80) False"
    let ?p = "pre @ first_line u @ [10]"
    have IH: "concat (blit_rows m b 80 (int (length ?p)) k) = view k (next_lines u)"
      by (rule Suc.IH [OF _ ended_rest [OF Suc.prems(2)]]) (use Suc.prems(1) u in simp)
    have z: "int (length ?p) = int (length txt) \<longleftrightarrow> next_lines u = []"
      using arg_cong [OF u, of length] Suc.prems(1) by auto
    obtain out j o1 where o: "?r = (out, j, o1)" by (cases ?r)
    have h: "concat out = map shown (take 80 (first_line u)) \<and>
      (if o1 then skip_loop m (b_data b) (int (length txt)) j + 1 else j) = int (length ?p)"
    proof (cases "length (first_line u) < 80")
      case True
      then show ?thesis using row_short [OF assms(1,2) Suc.prems(1,2) False, of 80] o by (auto simp: comp_def)
    next
      case long: False
      then have r: "?r = (map (\<lambda>c. [shown c]) (take 80 (first_line u)), int (length pre) + 80, True)"
        using row_long [OF assms(1,2) Suc.prems(1), of 80] by simp
      have l: "80 \<le> length u" using long length_takeWhile_le [of "\<lambda>c. c \<noteq> 10" u] by (simp add: first_line_def)
      have "skip_loop m (b_data b) (int (length txt)) (int (length (pre @ take 80 u))) =
        int (length (pre @ take 80 u)) + int (length (first_line (drop 80 u)))"
        by (rule skip_line [OF assms(1)]) (use Suc.prems(1) in simp)
      then show ?thesis using r o long l by (auto simp: line_drop)
    qed
    have "blit_rows m b 80 (int (length pre)) (Suc k) =
        out @ [[CHR 0x0a]] @ (if int (length ?p) = int (length txt) then [''~''] else []) @ blit_rows m b 80 (int (length ?p)) k"
      unfolding blit_rows.simps assms(3) o Let_def prod.case h [THEN conjunct2] ..
    then show ?thesis unfolding z using IH h by simp
  qed
qed simp

text \<open>\<open>buffer_of m b txt\<close>: the buffer \<open>b\<close> holds the text \<open>txt\<close> and the index of its lines.\<close>

definition buffer_of :: "mem \<Rightarrow> fbuf \<Rightarrow> u8 list \<Rightarrow> bool" where
  "buffer_of m b txt \<longleftrightarrow> holds_at m (b_data b) (length txt) ((!) txt) \<and> length txt < 2 ^ 31 \<and>
     b_size b = of_nat (length txt) \<and> b_lines b = of_nat (length (places 10 0 txt)) \<and>
     (\<forall>k<length (places 10 0 txt). load32 m (b_linebuf b + of_nat (4 * k)) = of_nat (places 10 0 txt ! k))"

text \<open>The two loops of \<open>load_file\<close> build the index of a text, wherever the table does not reach into the text.\<close>

theorem loops_index_text:
  assumes "holds_at m data (length txt) ((!) txt)" "length txt < 2 ^ 31" "far data (length txt) lb (4 * length (places 10 0 txt))"
    and "l = lines_loop m data 0 0 (length txt)"
  shows "buffer_of (index_loop data lb l 0 0 (length txt) m)
    \<lparr>b_fd = fd, b_size = of_nat (length txt), b_lines = l, b_name = name, b_data = data, b_linebuf = lb\<rparr> txt"
proof -
  let ?L = "length (places 10 0 txt)"
  have L: "?L < 2 ^ 31" using assms(2) places_length [of 10 0 "txt"] by simp
  have l: "l = of_nat ?L" using lines_loop_starts [OF assms(1) refl, of "[]" "txt" 0] assms(4) by simp
  let ?m = "index_loop data lb (of_nat ?L) 0 0 (length txt) m"
  have ix: "kept m ?m lb 0 (4 * ?L)" "\<forall>k<?L. load32 ?m (lb + of_nat (4 * k)) = of_nat (places 10 0 txt ! k)"
    using index_loop_starts [OF assms(3) L assms(2) refl, of "[]" "txt" 0 m] assms(1) by simp_all
  show ?thesis
    using ix kept_holds_at [OF ix(1) assms(3,1)] assms(2) unfolding l by (simp add: buffer_of_def)
qed

definition screen_ok :: "fbuf \<Rightarrow> screen \<Rightarrow> bool" where
  "screen_ok b s \<longleftrightarrow> s_buf s = b \<and> screen_x s = 80 \<and> screen_y s = 25 \<and> s_mode s \<in> {M_COMMAND, M_INSERT} \<and>
     s_running s \<in> {0, 1} \<and> 0 \<le> sint (pos_y s)"

definition status_line :: "screen \<Rightarrow> string" where
  "status_line s = ''['' @ b_name (s_buf s) @ '':'' @ print_num (b_lines (s_buf s)) @ ''] ('' @
     (if s_mode s = M_INSERT then ''insert'' else ''command'') @ ''): '' @ print_num (cur_x s) @ '', '' @ print_num (cur_y s) @ '', '' @ print_num (pos_y s)"

lemma blit_ok:
  assumes "screen_ok b s"
  obtains out where "blit m s = Inr out"
    "concat out = [CHR 0x0a] @ concat (blit_rows m b 80 (sint (load32 m (b_linebuf b + 4 *
       (if sint (pos_y s) < sint (b_lines b) then pos_y s else b_lines b)))) 24) @ status_line s"
proof -
  have s: "s_buf s = b" "screen_x s = 80" "screen_y s = 25" "s_mode s = 0 \<or> s_mode s = 1"
    using assms by (auto simp: screen_ok_def M_COMMAND_def M_INSERT_def)
  define st where "st = (case uprintf ''[%s:%d] (%s): %d, %d, %d''
      [VStr (b_name b), VInt (b_lines b), VStr (modes ! unat (s_mode s)), VInt (cur_x s), VInt (cur_y s), VInt (pos_y s)] of Inr l \<Rightarrow> l)"
  have st: "uprintf ''[%s:%d] (%s): %d, %d, %d''
      [VStr (b_name b), VInt (b_lines b), VStr (modes ! unat (s_mode s)), VInt (cur_x s), VInt (cur_y s), VInt (pos_y s)] = Inr st"
    and c: "concat st = status_line s"
    using s by (auto simp: st_def uprintf_def kvfprintf_conv_def concat_fprint status_line_def modes_def M_INSERT_def)
  show thesis
    by (rule that [of "[[CHR 0x0a]] @ blit_rows m b 80 (sint (load32 m (b_linebuf b + 4 *
       (if sint (pos_y s) < sint (b_lines b) then pos_y s else b_lines b)))) 24 @ st"])
      (use s st c in \<open>auto simp: blit_def Let_def modes_def\<close>)
qed

lemma ended_funpow: "ended t \<Longrightarrow> ended ((next_lines ^^ k) t)"
  by (induction k) (simp_all add: ended_rest)

lemma blit_view:
  assumes "screen_ok b s" "buffer_of m b txt" "9 \<notin> set txt" "ended txt" "unat (pos_y s) < length (places 10 0 txt)"
  obtains out where "blit m s = Inr out" "concat out = [CHR 0x0a] @ view 24 ((next_lines ^^ Suc (unat (pos_y s))) txt) @ status_line s"
proof -
  let ?p = "unat (pos_y s)" let ?i = "places 10 0 txt ! ?p"
  have b: "holds_at m (b_data b) (length txt) ((!) txt)" "length txt < 2 ^ 31" "b_size b = of_nat (length txt)"
    "b_lines b = of_nat (length (places 10 0 txt))" "load32 m (b_linebuf b + of_nat (4 * ?p)) = of_nat ?i"
    using assms(2,5) by (auto simp: buffer_of_def)
  have l: "length (places 10 0 txt) < 2 ^ 31" using places_length [of 10 0 "txt"] b(2) by simp
  have p: "sint (pos_y s) = int ?p" using sint_small [of ?p] assms(5) l by simp
  have i: "?i \<le> length txt" using places_le [of ?i 10 0 "txt"] assms(5) by simp
  have "int ?p < int (length (places 10 0 txt))" using assms(5) by (simp only: of_nat_less_iff)
  then have lt: "sint (pos_y s) < sint (b_lines b)" using p b(4) sint_small [OF l] by simp
  have j: "sint (load32 m (b_linebuf b + 4 * pos_y s)) = int (length (take ?i txt))"
    using b(2,5) i sint_small [of ?i] by simp
  have v: "concat (blit_rows m b 80 (int (length (take ?i txt))) 24) = view 24 (drop ?i txt)"
  proof (rule blit_rows_view [OF b(1) assms(3)])
    show "sint (b_size b) = int (length txt)" using b(3) sint_small [OF b(2)] by simp
    show "ended (drop ?i txt)" using drop_starts [OF assms(5)] ended_funpow [OF assms(4), of "Suc ?p"] by simp
  qed simp
  have d: "drop ?i txt = (next_lines ^^ Suc ?p) txt" using drop_starts [OF assms(5)] by simp
  obtain out where "blit m s = Inr out" "concat out = [CHR 0x0a] @ concat (blit_rows m b 80 (sint (load32 m (b_linebuf b + 4 *
       (if sint (pos_y s) < sint (b_lines b) then pos_y s else b_lines b)))) 24) @ status_line s" by (rule blit_ok [OF assms(1)])
  then show thesis by (intro that [of out]) (simp_all only: if_P [OF lt] j v d)
qed

section \<open>What the keys do\<close>

text \<open>The line, whether text is inserted and whether the editor runs, after one key, in a text with \<open>n\<close> newlines.\<close>

definition at_key :: "nat \<Rightarrow> nat \<times> bool \<times> bool \<Rightarrow> char \<Rightarrow> nat \<times> bool \<times> bool" where
  "at_key n st c =
    (case st of (p, ins, on) \<Rightarrow>
       if \<not> on then st
       else if ins then (p, c \<noteq> CHR 0x1b, on)
       else (if c = CHR ''j'' then p + 1 else if c = CHR ''k'' then p - 1 else if c = CHR ''g'' then 0 else if c = CHR ''G'' then n - 25 else p,
             c = CHR ''i'', c \<noteq> CHR ''q''))"

definition state_of :: "screen \<Rightarrow> nat \<times> bool \<times> bool" where
  "state_of s = (unat (pos_y s), s_mode s = M_INSERT, s_running s \<noteq> 0)"

lemma sint_nonneg_unat: "0 \<le> sint (w :: u32) \<longleftrightarrow> unat w < 2 ^ 31"
proof
  assume "0 \<le> sint w"
  then obtain n where n: "sint w = int n" using nonneg_int_cases by blast
  then have "n < 2 ^ 31" using sint_lt [of w] by simp
  moreover have "w = of_nat n" using arg_cong [OF n, of "of_int :: int \<Rightarrow> u32"] by simp
  ultimately show "unat w < 2 ^ 31" by simp
next
  assume "unat w < 2 ^ 31"
  then show "0 \<le> sint w" using sint_small [of "unat w"] by simp
qed

text \<open>A key keeps the screen well-formed, and does what \<open>at_key\<close> says.\<close>

lemma key_step:
  assumes "screen_ok b s" "unat (b_lines b) < 2 ^ 31" "unat (pos_y s) + 1 < 2 ^ 31" "s_running s \<noteq> 0"
  obtains s1 where "unat (s_mode s) < length mode_funcs" "(mode_funcs ! unat (s_mode s)) s c = s1" "screen_ok b s1"
    "state_of s1 = at_key (unat (b_lines b)) (state_of s) c"
proof -
  have n: "\<not> sint (pos_y s) < 0" using assms(1) by (simp add: screen_ok_def)
  have up: "unat (pos_y s + 1) = unat (pos_y s) + 1" using assms(3) by (simp add: unat_word_ariths)
  have down: "unat (pos_y s - 1) = unat (pos_y s) - 1" if "pos_y s \<noteq> 0" using that by (simp add: unat_minus_one)
  have G: "(if sint (b_lines b - 25) < 0 then 0 else b_lines b - 25) = of_nat (unat (b_lines b) - 25)"
  proof (cases "25 \<le> b_lines b")
    case True
    then have "unat (b_lines b - 25) = unat (b_lines b) - 25" by (simp add: unat_sub)
    then have "\<not> sint (b_lines b - 25) < 0" using assms(2) sint_nonneg_unat [of "b_lines b - 25"] by linarith
    then show ?thesis using \<open>unat (b_lines b - 25) = unat (b_lines b) - 25\<close> [symmetric] by simp
  next
    case False
    then have u: "unat (b_lines b) < 25" by (simp add: word_le_nat_alt)
    then have "unat (b_lines b - 25) = unat (b_lines b) + (2 ^ 32 - 25)" by (simp add: unat_sub_if')
    then have "sint (b_lines b - 25) < 0" using sint_nonneg_unat [of "b_lines b - 25"] by simp
    then show ?thesis using u by simp
  qed
  define s1 where "s1 = (mode_funcs ! unat (s_mode s)) s c"
  have m: "s_mode s = 0 \<or> s_mode s = 1" and k: "unat (s_mode s) < length mode_funcs"
    using assms(1) by (auto simp: screen_ok_def M_COMMAND_def M_INSERT_def mode_funcs_def)
  have "screen_ok b s1 \<and> state_of s1 = at_key (unat (b_lines b)) (state_of s) c"
    using m
  proof
    assume "s_mode s = 1"
    then show ?thesis using assms(1,4)
      by (auto simp: s1_def mode_funcs_def insert_func_def screen_ok_def state_of_def at_key_def M_COMMAND_def M_INSERT_def)
  next
    assume m: "s_mode s = 0"
    then have "s1 = command_func s c" by (simp add: s1_def mode_funcs_def)
    moreover have "unat (b_lines b) - 25 < 2 ^ 31" using assms(2) by simp
    ultimately show ?thesis using m assms n up down G
      by (auto simp: command_func_def screen_ok_def state_of_def at_key_def M_COMMAND_def M_INSERT_def sint_nonneg_unat Let_def)
  qed
  then show thesis using that k by (simp add: s1_def)
qed

lemma at_key_off: "foldl (at_key n) (p, ins, False) cs = (p, ins, False)"
  by (induction cs) (simp_all add: at_key_def)

lemma at_key_le: "fst (at_key n st c) \<le> max (fst st + 1) n"
  by (auto simp: at_key_def split: prod.split)

lemma at_key_on:
  "snd (snd st) \<Longrightarrow> snd (snd (foldl (at_key n) st keys)) \<longleftrightarrow>
    \<not> (\<exists>us vs. keys = us @ CHR ''q'' # vs \<and> \<not> fst (snd (foldl (at_key n) st us)))"
proof (induction keys arbitrary: st)
  case (Cons c cs)
  obtain p ins where st: "st = (p, ins, True)" using Cons.prems by (cases st) auto
  have split: "(\<exists>us vs. c # cs = us @ CHR ''q'' # vs \<and> P us) \<longleftrightarrow>
      c = CHR ''q'' \<and> P [] \<or> (\<exists>us vs. cs = us @ CHR ''q'' # vs \<and> P (c # us))" for P
    by (auto simp: Cons_eq_append_conv)
  show ?case
  proof (cases "c = CHR ''q'' \<and> \<not> ins")
    case True
    then have "at_key n st c = (p, False, False)" by (simp add: st at_key_def)
    then show ?thesis unfolding split using True by (simp add: st at_key_off)
  next
    case False
    then have "snd (snd (at_key n st c))" by (auto simp: st at_key_def)
    from Cons.IH [OF this] show ?thesis unfolding split using False st by auto
  qed
qed simp

lemma key_loop_ok:
  assumes "n = unat (b_lines b)"
  shows "screen_ok b s \<Longrightarrow> max (unat (pos_y s)) n + length keys < 2 ^ 31 \<Longrightarrow> blit m s = Inr out \<Longrightarrow>
    \<exists>outs s' before final. key_loop m s keys = Inr (outs, s') \<and> screen_ok b s' \<and> state_of s' = foldl (at_key n) (state_of s) keys \<and>
      out @ outs = before @ final \<and> blit m s' = Inr final"
proof (induction keys arbitrary: s out)
  case (Cons c cs)
  show ?case
  proof (cases "s_running s = 0")
    case True
    then have "foldl (at_key n) (state_of s) (c # cs) = state_of s" using at_key_off [of n _ _ "c # cs"] by (auto simp: state_of_def)
    then show ?thesis using True Cons.prems by simp
  next
    case False
    have "unat (b_lines b) < 2 ^ 31" "unat (pos_y s) + 1 < 2 ^ 31" using Cons.prems(2) assms by simp_all
    then obtain s1 where s1: "unat (s_mode s) < length mode_funcs" "(mode_funcs ! unat (s_mode s)) s c = s1" "screen_ok b s1"
      "state_of s1 = at_key n (state_of s) c" using key_step [OF Cons.prems(1) _ _ False, where c = c] assms by blast
    obtain o1 where o1: "blit m s1 = Inr o1" using blit_ok [OF s1(3), of m] by blast
    have "unat (pos_y s1) \<le> max (unat (pos_y s) + 1) n"
      using at_key_le [of n "state_of s" c] unfolding s1(4) [symmetric] by (simp add: state_of_def)
    then have "max (unat (pos_y s1)) n + length cs < 2 ^ 31" using Cons.prems(2) by simp
    from Cons.IH [OF s1(3) this o1] obtain outs s' before final where IH: "key_loop m s1 cs = Inr (outs, s')" "screen_ok b s'"
      "state_of s' = foldl (at_key n) (state_of s1) cs" "o1 @ outs = before @ final" "blit m s' = Inr final" by blast
    have "key_loop m s (c # cs) = Inr (o1 @ outs, s')" using False s1(1,2) o1 IH(1) by (simp add: Let_def)
    then show ?thesis using IH s1(4) by (auto intro: exI [of _ "out @ before"])
  qed
qed (auto intro: exI [of _ "[]"])

lemma edit_ok:
  assumes "unat (b_lines b) + length keys < 2 ^ 31"
  obtains outs s before final where "edit m b keys = Inr (outs, s)" "screen_ok b s"
    "state_of s = foldl (at_key (unat (b_lines b))) (0, False, True) keys" "outs = before @ final" "blit m s = Inr final"
proof -
  have i: "screen_ok b (init_screen b)" "state_of (init_screen b) = (0, False, True)" "pos_y (init_screen b) = 0"
    by (simp_all add: init_screen_def screen_ok_def state_of_def M_COMMAND_def M_INSERT_def)
  obtain out where o: "blit m (init_screen b) = Inr out" using blit_ok [OF i(1), of m] by blast
  then show thesis using key_loop_ok [OF refl i(1) _ o, of keys] assms i that by (auto simp: edit_def)
qed

text \<open>
  C20. The state of the editor stays well-formed: on any keys, fewer than \<open>2 ^ 31\<close> with the lines of the text, no index leaves
  the table of modes or that of their functions, the mode is one of the two, the line is not negative, and \<open>q\<close> typed as a
  command, and nothing else, ends the loop.
\<close>

theorem edit_well_formed:
  assumes "unat (b_lines b) + length keys < 2 ^ 31"
  shows "\<exists>outs s. edit m b keys = Inr (outs, s) \<and> screen_ok b s \<and>
    (s_running s = 0 \<longleftrightarrow> (\<exists>us vs. keys = us @ CHR ''q'' # vs \<and> \<not> fst (snd (foldl (at_key (unat (b_lines b))) (0, False, True) us))))"
proof -
  obtain outs s where e: "edit m b keys = Inr (outs, s)" "screen_ok b s"
    "state_of s = foldl (at_key (unat (b_lines b))) (0, False, True) keys"
    using edit_ok [OF assms, of m] by blast
  have "s_running s \<noteq> 0 \<longleftrightarrow> snd (snd (foldl (at_key (unat (b_lines b))) (0, False, True) keys))" unfolding e(3) [symmetric] by (simp add: state_of_def)
  then show ?thesis using e(1,2) at_key_on [of "(0, False, True)" "unat (b_lines b)" keys] by auto
qed

text \<open>
  C10. The editor shows the text, when the text ends with a newline and has no tabs and the keys typed lead to a position below
  the number of its lines: the last writes are the 24 rows from the line after that position, each cut at 80 characters, with
  tildes behind the end, and a status line. The first line of a text is never shown, and at a position that is not below the
  number of lines \<open>blit\<close> starts at an entry of the index that was never written; neither the keys nor the code prevent that.
\<close>

theorem editor_shows_lines:
  assumes "buffer_of m b txt" "ended txt" "9 \<notin> set txt" "length txt + length keys < 2 ^ 31"
    and "fst (foldl (at_key (length (places 10 0 txt))) (0, False, True) keys) < length (places 10 0 txt)"
  shows "\<exists>before final s. edit m b keys = Inr (before @ final, s) \<and>
    concat final = [CHR 0x0a] @ view 24 ((next_lines ^^ Suc (fst (foldl (at_key (length (places 10 0 txt))) (0, False, True) keys))) txt) @ status_line s"
proof -
  have l: "unat (b_lines b) = length (places 10 0 txt)" "length (places 10 0 txt) \<le> length txt"
    using assms(1) places_length [of 10 0 "txt"] by (auto simp: buffer_of_def)
  obtain outs s before final where e: "edit m b keys = Inr (outs, s)" "screen_ok b s"
    "state_of s = foldl (at_key (length (places 10 0 txt))) (0, False, True) keys" "outs = before @ final" "blit m s = Inr final"
    using edit_ok [of b keys m thesis] l assms(4) by auto
  have p: "unat (pos_y s) = fst (foldl (at_key (length (places 10 0 txt))) (0, False, True) keys)" unfolding e(3) [symmetric] by (simp add: state_of_def)
  obtain out where "blit m s = Inr out" "concat out = [CHR 0x0a] @ view 24 ((next_lines ^^ Suc (unat (pos_y s))) txt) @ status_line s"
    by (rule blit_view [OF e(2) assms(1,3,2)]) (use assms(5) p in simp_all)
  then show ?thesis using e p by auto
qed

section \<open>Examples\<close>

text \<open>The text of two lines, \<open>A\<close> and \<open>B\<close>.\<close>

definition demo_text :: "u8 list" where
  "demo_text = [65, 10, 66, 10]"

definition demo_text_mem :: mem where
  "demo_text_mem = store32 (store32 ((\<lambda>_. 0)(0x1000 := 65, 0x1001 := 10, 0x1002 := 66, 0x1003 := 10)) 0x2000 2) 0x2004 4"

definition demo_buffer :: fbuf where
  "demo_buffer = \<lparr>b_fd = 3, b_size = 4, b_lines = 2, b_name = ''a'', b_data = 0x1000, b_linebuf = 0x2000\<rparr>"

lemma holds_at_4: "holds_at m a 4 f \<longleftrightarrow> m a = f 0 \<and> m (a + 1) = f 1 \<and> m (a + 2) = f 2 \<and> m (a + 3) = f 3"
proof -
  have "(\<forall>k<4. P k) \<longleftrightarrow> P 0 \<and> P 1 \<and> P 2 \<and> P (3 :: nat)" for P
    by (simp add: numeral_eq_Suc All_less_Suc) blast
  then show ?thesis by (simp add: holds_at_def)
qed

lemma demo_text_facts:
  "places 10 0 demo_text = [2, 4]" "ended demo_text" "9 \<notin> set demo_text" "length demo_text = 4" "next_lines demo_text = [66, 10]"
  by (simp_all add: demo_text_def ended_def)

lemma demo_buffer_of: "buffer_of demo_text_mem demo_buffer demo_text"
proof -
  have "holds_at demo_text_mem 0x1000 4 ((!) demo_text)"
    by (simp add: holds_at_4 demo_text_mem_def demo_text_def store32_apply)
  moreover have "load32 demo_text_mem (0x2000 + of_nat (4 * k)) = of_nat ([2, 4] ! k)" if "k < 2" for k :: nat
    using that by (auto simp: demo_text_mem_def apart_def dest!: less_2_cases)
  ultimately show ?thesis by (simp add: buffer_of_def demo_buffer_def demo_text_facts)
qed

theorem edit_well_formed_witness:
  "(\<exists>outs s. edit demo_text_mem demo_buffer ''jq'' = Inr (outs, s) \<and> screen_ok demo_buffer s \<and> s_running s = 0) \<and>
   (\<exists>outs s. edit demo_text_mem demo_buffer ''iq'' = Inr (outs, s) \<and> screen_ok demo_buffer s \<and> s_running s \<noteq> 0)"
proof -
  have "\<exists>us vs. ''jq'' = us @ CHR ''q'' # vs \<and> \<not> fst (snd (foldl (at_key 2) (0, False, True) us))"
    by (intro exI [of _ "''j''"] exI [of _ "[]"]) (simp add: at_key_def)
  moreover have "\<not> (\<exists>us vs. ''iq'' = us @ CHR ''q'' # vs \<and> \<not> fst (snd (foldl (at_key 2) (0, False, True) us)))"
    by (auto simp: Cons_eq_append_conv at_key_def)
  moreover have "unat (b_lines demo_buffer) = 2" by (simp add: demo_buffer_def)
  ultimately show ?thesis
    using edit_well_formed [of demo_buffer "''jq''" demo_text_mem] edit_well_formed [of demo_buffer "''iq''" demo_text_mem] by auto
qed

theorem editor_shows_lines_witness:
  "\<exists>before final s. edit demo_text_mem demo_buffer ''jk'' = Inr (before @ final, s) \<and>
    concat final = [CHR 0x0a] @ ''B'' @ [CHR 0x0a] @ ''~'' @ view 23 [] @ status_line s"
proof -
  have f: "at_key n (at_key n (0, False, True) CHR ''j'') CHR ''k'' = (0, False, True)" for n by (simp add: at_key_def)
  have "view 24 t = map shown (take 80 (first_line t)) @ [CHR 0x0a] @ (if next_lines t = [] then ''~'' else []) @ view 23 (next_lines t)" for t
    using view.simps(2) [of 23 t] by simp
  then have "view 24 ((next_lines ^^ Suc 0) demo_text) = ''B'' @ [CHR 0x0a] @ ''~'' @ view 23 []"
    by (simp add: demo_text_facts shown_def char_of_eq_iff)
  then show ?thesis using editor_shows_lines [OF demo_buffer_of, of "''jk''"] demo_text_facts f by simp
qed

end
