(* ===== verification/Init_Prompt.thy ===== *)
theory Init_Prompt
  imports Shell File_Image
begin

text \<open>
  How the first program is found, \<open>kinit_prompt\<close> of \<open>kern/kmain.c\<close>: the command line of the boot loader is cut at its spaces
  and searched for a word \<open>init=path\<close>; without one the path is typed. \<open>input\<close> is the buffer of 256 bytes and \<open>args\<close> the table
  of 16 pointers, both on the stack. The results are addresses of paths; opening and running them is that of \<open>Vfs\<close> and \<open>Elf\<close>.
\<close>

section \<open>The command line\<close>

text \<open>The loop that copies and cuts; the result is \<open>i\<close>, \<open>j\<close> and the memory.\<close>

function cut_cmdline :: "u32 \<Rightarrow> u32 \<Rightarrow> u32 \<Rightarrow> nat \<Rightarrow> nat \<Rightarrow> mem \<Rightarrow> nat \<times> nat \<times> mem" where
  "cut_cmdline cmd input args i j m =
    (if m (cmd + of_nat i) \<noteq> 0 \<and> i < 256 \<and> j < 16 then
       let m1 = m(input + of_nat i := m (cmd + of_nat i))
       in if m1 (input + of_nat i) = 32
          then cut_cmdline cmd input args (i + 1) (j + 1)
                 ((store32 m1 (args + of_nat (4 * j)) (input + of_nat i + 1))(input + of_nat i := 0))
          else cut_cmdline cmd input args (i + 1) j m1
     else (i, j, m))"
  by pat_completeness auto
termination by (relation "measure (\<lambda>(cmd, input, args, i, j, m). 256 - i)") auto

declare cut_cmdline.simps [simp del]

text \<open>\<open>initstr[l]\<close> is not read behind its terminating zero, at which no character agrees.\<close>

definition initstr :: "u8 list" where
  "initstr = [105, 110, 105, 116, 0]"

function match_init :: "mem \<Rightarrow> u32 \<Rightarrow> nat \<Rightarrow> nat" where
  "match_init m arg l =
    (if m (arg + of_nat l) \<noteq> 0 \<and> m (arg + of_nat l) \<noteq> 61 then
       (if l < 5 \<and> m (arg + of_nat l) = initstr ! l then match_init m arg (l + 1) else 0)
     else l)"
  by pat_completeness auto
termination by (relation "measure (\<lambda>(m, arg, l). 5 - l)") auto

declare match_init.simps [simp del]

text \<open>The search, with \<open>n\<close> entries of the table left: the address of the path.\<close>

fun find_init :: "mem \<Rightarrow> u32 \<Rightarrow> nat \<Rightarrow> nat \<Rightarrow> u32 option" where
  "find_init m args i 0 = None"
| "find_init m args i (Suc n) =
    (let arg = load32 m (args + of_nat (4 * i))
     in if match_init m arg 0 = 4 then Some (arg + 5) else find_init m args (i + 1) n)"

definition init_of_cmdline :: "u32 \<Rightarrow> u32 \<Rightarrow> u32 \<Rightarrow> mem \<Rightarrow> u32 option \<times> mem" where
  "init_of_cmdline cmd input args m =
    (let (i, j, m1) = cut_cmdline cmd input args 0 1 (store32 m args input);
         m2 = store32 (m1(input + of_nat i := 0)) (args + of_nat (4 * j)) 0
     in (find_init m2 args 0 j, m2))"

section \<open>The prompt\<close>

datatype choice = Again | Builtin_Shell | Run u32

text \<open>
  The loop that reads a line; a character is taken before the length is tested. \<open>None\<close>: it waits for another one. The result
  is the length, the memory and the characters left.
\<close>

fun prompt_read :: "u32 \<Rightarrow> nat \<Rightarrow> u8 list \<Rightarrow> mem \<Rightarrow> (nat \<times> mem \<times> u8 list) option" where
  "prompt_read input i [] m = None"
| "prompt_read input i (buf # ks) m =
    (if buf \<noteq> 10 \<and> i < 256 then
       (if buf = 8 then prompt_read input (if i > 0 then i - 1 else i) ks (m(input + of_nat i := 0))
        else prompt_read input (i + 1) ks (m(input + of_nat i := buf)))
     else Some (i, m, ks))"

definition prompt_round :: "u32 \<Rightarrow> u8 list \<Rightarrow> mem \<Rightarrow> (choice \<times> mem \<times> u8 list) option" where
  "prompt_round input ks m =
    (case prompt_read input 0 ks m of None \<Rightarrow> None
     | Some (i, m1, ks1) \<Rightarrow>
         let m2 = m1(input + of_nat i := 0)
         in Some (if i = 0 then Again else if m2 input = 33 then Builtin_Shell else Run input, m2, ks1))"

section \<open>Words\<close>

text \<open>The words of a line: each goes from a place behind a space to the next space or the end.\<close>

definition words_of :: "u8 list \<Rightarrow> u8 list list" where
  "words_of t = map (\<lambda>p. takeWhile (\<lambda>c. c \<noteq> 32) (drop p t)) (0 # places 32 0 t)"

definition blanked :: "u8 \<Rightarrow> u8" where
  "blanked c = (if c = 32 then 0 else c)"

lemma length_words_of: "length (words_of t) = Suc (length (places 32 0 t))"
  by (simp add: words_of_def)

text \<open>The words of the copy are strings in memory.\<close>

lemma cut_word_cstr:
  assumes "\<forall>k<length t. m (input + of_nat k) = blanked (t ! k)" "m (input + of_nat (length t)) = 0" "0 \<notin> set t" "p \<le> length t"
  shows "cstr m (input + of_nat p) (takeWhile (\<lambda>c. c \<noteq> 32) (drop p t))"
proof -
  let ?w = "takeWhile (\<lambda>c. c \<noteq> 32) (drop p t)"
  have l: "length ?w \<le> length t - p" using length_takeWhile_le [of "\<lambda>c. c \<noteq> 32" "drop p t"] by simp
  have w: "?w ! i = t ! (p + i)" "t ! (p + i) \<noteq> 32" "p + i < length t" if "i < length ?w" for i
    using that l takeWhile_nth [OF that] nth_mem [OF that] assms(4) by (auto dest: set_takeWhileD)
  have "m (input + of_nat (p + i)) = ?w ! i \<and> ?w ! i \<noteq> 0" if "i < length ?w" for i
  proof -
    have "t ! (p + i) \<noteq> 0" using assms(3) nth_mem [OF w(3) [OF that]] by metis
    then show ?thesis using assms(1) w [OF that] by (simp add: blanked_def del: of_nat_add)
  qed
  moreover have "m (input + of_nat (p + length ?w)) = 0"
  proof (cases "length ?w = length t - p")
    case False
    then have s: "length ?w < length (drop p t)" using l by simp
    have "drop p t ! length ?w = 32" using nth_length_takeWhile [OF s] by simp
    then show ?thesis using assms(1) s assms(4) by (auto simp: blanked_def simp del: of_nat_add)
  qed (use assms(2,4) in simp)
  ultimately show ?thesis by (auto simp: cstr_iff add.assoc)
qed

section \<open>Cutting\<close>

definition block :: "u32 \<Rightarrow> nat \<Rightarrow> nat \<Rightarrow> u32 set" where
  "block b lo hi = {a. lo \<le> unat (a - b) \<and> unat (a - b) < hi}"

lemma in_block: "d < 2 ^ 32 \<Longrightarrow> b + of_nat d \<in> block b lo hi \<longleftrightarrow> lo \<le> d \<and> d < hi"
  by (simp add: block_def)

lemma far_block: "far a l b k \<Longrightarrow> d < l \<Longrightarrow> hi \<le> k \<Longrightarrow> a + of_nat d \<notin> block b lo hi"
  using far_not_in [of a l b k d] by (auto simp: block_def)

text \<open>One space: the entry of the next word and the zero.\<close>

lemma cut_space:
  fixes m1 :: mem
  assumes "far input 257 args 68" "i < 256" "j < 16"
  defines "m2 \<equiv> (store32 m1 (args + of_nat (4 * j)) (input + of_nat i + 1))(input + of_nat i := 0)"
  shows "m2 (input + of_nat i) = 0" "load32 m2 (args + of_nat (4 * j)) = input + of_nat (Suc i)"
    "x \<noteq> input + of_nat i \<Longrightarrow> x \<notin> block args (4 * j) (4 * Suc j) \<Longrightarrow> m2 x = m1 x"
proof -
  let ?m = "store32 m1 (args + of_nat (4 * j)) (input + of_nat i + 1)"
  show "m2 (input + of_nat i) = 0" by (simp add: m2_def)
  have "m2 (args + of_nat d) = ?m (args + of_nat d)" if "d < 68" for d
    using far_not_in [OF far_sym [OF assms(1)] that] assms(2) by (auto simp: m2_def)
  then have "same_on ?m m2 args (4 * j) (4 * j + 4)" using assms(3) by (simp add: same_on_def)
  then have "load32 m2 (args + of_nat (4 * j)) = load32 ?m (args + of_nat (4 * j))" by (rule same_on_load32) simp_all
  then show "load32 m2 (args + of_nat (4 * j)) = input + of_nat (Suc i)" by simp
  assume x: "x \<noteq> input + of_nat i" "x \<notin> block args (4 * j) (4 * Suc j)"
  have "?m (args + of_nat (unat (x - args))) = m1 (args + of_nat (unat (x - args)))"
    by (rule kept_byte [OF kept_store32 unat_u32_less]) (use x(2) assms(3) in \<open>auto simp: block_def\<close>)
  then show "m2 x = m1 x" using x(1) by (simp add: m2_def)
qed

lemma cut_cmdline_words:
  assumes "far cmd (Suc (length t)) input 257" "far cmd (Suc (length t)) args 68" "far input 257 args 68" "length t < 256" "0 \<notin> set t"
  shows "t = pre @ u \<Longrightarrow> holds_at m cmd (Suc (length t)) ((!) (t @ [0])) \<Longrightarrow> j + length (places 32 (length pre) u) < 16 \<Longrightarrow>
    \<exists>m'. cut_cmdline cmd input args (length pre) j m = (length t, j + length (places 32 (length pre) u), m') \<and>
      (\<forall>k. length pre \<le> k \<and> k < length t \<longrightarrow> m' (input + of_nat k) = blanked (t ! k)) \<and>
      (\<forall>q<length (places 32 (length pre) u). load32 m' (args + of_nat (4 * (j + q))) = input + of_nat (places 32 (length pre) u ! q)) \<and>
      (\<forall>x. x \<notin> block input (length pre) (length t) \<longrightarrow>
        x \<notin> block args (4 * j) (4 * (j + length (places 32 (length pre) u))) \<longrightarrow> m' x = m x)"
proof (induction u arbitrary: pre j m)
  case Nil
  then have "m (cmd + of_nat (length pre)) = 0" by (auto simp: holds_at_def)
  then show ?case using Nil by (subst cut_cmdline.simps) auto
next
  case (Cons c cs)
  let ?i = "length pre" let ?P = "places 32 (Suc ?i) cs"
  have i: "?i < length t" "t ! ?i = c" "c \<noteq> 0" "?i < 256" "j < 16" using Cons.prems assms(4,5) by (auto simp: nth_append)
  have c: "m (cmd + of_nat ?i) = c" using Cons.prems(2) i by (auto simp: holds_at_def nth_append)
  define m1 where "m1 = m(input + of_nat ?i := c)"
  define j2 where "j2 = (if c = 32 then j + 1 else j)"
  define m2 where "m2 = (if c = 32 then (store32 m1 (args + of_nat (4 * j)) (input + of_nat ?i + 1))(input + of_nat ?i := 0) else m1)"
  have e: "cut_cmdline cmd input args ?i j m = cut_cmdline cmd input args (length (pre @ [c])) j2 m2"
    using c i by (subst cut_cmdline.simps) (simp add: m2_def j2_def m1_def)
  have m2: "m2 (input + of_nat ?i) = blanked c" "c = 32 \<Longrightarrow> load32 m2 (args + of_nat (4 * j)) = input + of_nat (Suc ?i)"
    "\<And>x. x \<noteq> input + of_nat ?i \<Longrightarrow> x \<notin> block args (4 * j) (4 * j2) \<Longrightarrow> m2 x = m x"
    using cut_space [OF assms(3) i(4,5), where ?m1.0 = m1] by (auto simp: m2_def m1_def blanked_def j2_def)
  have "m2 (cmd + of_nat k) = m (cmd + of_nat k)" if "k < Suc (length t)" for k
  proof (rule m2(3))
    show "cmd + of_nat k \<noteq> input + of_nat ?i" using far_not_in [OF assms(1) that] i(4) by auto
    show "cmd + of_nat k \<notin> block args (4 * j) (4 * j2)" by (rule far_block [OF assms(2) that]) (use i(5) in \<open>simp add: j2_def\<close>)
  qed
  then have h: "holds_at m2 cmd (Suc (length t)) ((!) (t @ [0]))" using Cons.prems(2) by (simp add: holds_at_def)
  have L: "j2 + length ?P = j + length (places 32 ?i (c # cs))" by (simp add: j2_def)
  have "\<exists>m'. cut_cmdline cmd input args (Suc ?i) j2 m2 = (length t, j2 + length ?P, m') \<and>
      (\<forall>k. Suc ?i \<le> k \<and> k < length t \<longrightarrow> m' (input + of_nat k) = blanked (t ! k)) \<and>
      (\<forall>q<length ?P. load32 m' (args + of_nat (4 * (j2 + q))) = input + of_nat (?P ! q)) \<and>
      (\<forall>x. x \<notin> block input (Suc ?i) (length t) \<longrightarrow> x \<notin> block args (4 * j2) (4 * (j2 + length ?P)) \<longrightarrow> m' x = m2 x)"
  proof -
    have tp: "t = (pre @ [c]) @ cs" and lp: "length (pre @ [c]) = Suc ?i" using Cons.prems(1) by simp_all
    have "j2 + length (places 32 (length (pre @ [c])) cs) < 16" using Cons.prems(3) L by simp
    from Cons.IH [OF tp h this] show ?thesis unfolding lp .
  qed
  then obtain m' where m': "cut_cmdline cmd input args (Suc ?i) j2 m2 = (length t, j2 + length ?P, m')"
    "\<And>k. Suc ?i \<le> k \<Longrightarrow> k < length t \<Longrightarrow> m' (input + of_nat k) = blanked (t ! k)"
    "\<And>q. q < length ?P \<Longrightarrow> load32 m' (args + of_nat (4 * (j2 + q))) = input + of_nat (?P ! q)"
    "\<And>x. x \<notin> block input (Suc ?i) (length t) \<Longrightarrow> x \<notin> block args (4 * j2) (4 * (j2 + length ?P)) \<Longrightarrow> m' x = m2 x" by blast
  have top: "j2 + length ?P < 16" "j \<le> j2" using Cons.prems(3) L by (simp_all add: j2_def)
  have "m' (input + of_nat ?i) = m2 (input + of_nat ?i)"
  proof (rule m'(4))
    show "input + of_nat ?i \<notin> block input (Suc ?i) (length t)" using i(4) by (simp add: in_block)
    show "input + of_nat ?i \<notin> block args (4 * j2) (4 * (j2 + length ?P))" by (rule far_block [OF assms(3)]) (use i(4) top in simp_all)
  qed
  then have k: "m' (input + of_nat k) = blanked (t ! k)" if "?i \<le> k" "k < length t" for k
    using that m'(2) [of k] m2(1) i(2) by (cases "k = ?i") simp_all
  have q0: "load32 m' (args + of_nat (4 * j)) = input + of_nat (Suc ?i)" if "c = 32"
  proof -
    have "m' (args + of_nat d) = m2 (args + of_nat d)" if "4 * j \<le> d" "d < 4 * j + 4" for d
    proof (rule m'(4))
      show "args + of_nat d \<notin> block args (4 * j2) (4 * (j2 + length ?P))" using that i(5) \<open>c = 32\<close> by (simp add: in_block j2_def)
      show "args + of_nat d \<notin> block input (Suc ?i) (length t)" by (rule far_block [OF far_sym [OF assms(3)]]) (use that i(5) assms(4) in simp_all)
    qed
    then have "same_on m2 m' args (4 * j) (4 * j + 4)" by (simp add: same_on_def)
    then have "load32 m' (args + of_nat (4 * j)) = load32 m2 (args + of_nat (4 * j))" by (rule same_on_load32) simp_all
    then show ?thesis using m2(2) [OF that] by simp
  qed
  have q: "load32 m' (args + of_nat (4 * (j + q))) = input + of_nat (places 32 ?i (c # cs) ! q)" if "q < length (places 32 ?i (c # cs))" for q
  proof (cases "c = 32")
    case True
    then have "j2 = Suc j" by (simp add: j2_def)
    then show ?thesis using that q0 [OF True] m'(3) [of "q - 1"] True by (cases q) (simp_all del: of_nat_mult of_nat_add of_nat_Suc)
  next
    case False
    then have "j2 = j" "places 32 ?i (c # cs) = ?P" by (simp_all add: j2_def)
    then show ?thesis using that m'(3) [of q] by (simp only:)
  qed
  have x: "m' x = m x" if "x \<notin> block input ?i (length t)" "x \<notin> block args (4 * j) (4 * (j + length (places 32 ?i (c # cs))))" for x
  proof -
    have "x \<noteq> input + of_nat ?i" using that(1) i in_block [of ?i input ?i "length t"] by auto
    moreover have "x \<notin> block input (Suc ?i) (length t)" "x \<notin> block args (4 * j2) (4 * (j2 + length ?P))" "x \<notin> block args (4 * j) (4 * j2)"
      using that top L by (auto simp: block_def)
    ultimately show ?thesis using m'(4) m2(3) by simp
  qed
  show ?case using e m'(1) L k q x by (intro exI [of _ m']) simp
qed

section \<open>The search\<close>

text \<open>The word begins with \<open>init\<close>, followed by an equals sign or nothing.\<close>

definition names_init :: "u8 list \<Rightarrow> bool" where
  "names_init w \<longleftrightarrow> takeWhile (\<lambda>c. c \<noteq> 61) w = butlast initstr"

lemma butlast_initstr: "butlast initstr = [105, 110, 105, 116]"
  by (simp add: initstr_def)

lemma drop_initstr: "l < 4 \<Longrightarrow> drop l (butlast initstr) = initstr ! l # drop (l + 1) (butlast initstr)"
proof -
  assume "l < 4"
  then have "l = 0 \<or> l = 1 \<or> l = 2 \<or> l = 3" by arith
  then show ?thesis by (auto simp: butlast_initstr) (simp_all add: initstr_def)
qed

lemma match_init_cstr:
  "cstr m (arg + of_nat l) u \<Longrightarrow> l \<le> 4 \<Longrightarrow> match_init m arg l = 4 \<longleftrightarrow> takeWhile (\<lambda>c. c \<noteq> 61) u = drop l (butlast initstr)"
proof (induction u arbitrary: l)
  case Nil
  then show ?case by (subst match_init.simps) (auto simp: butlast_initstr)
next
  case (Cons c cs)
  show ?case
  proof (cases "c \<noteq> 61 \<and> l < 4 \<and> c = initstr ! l")
    case True
    then have d: "drop l (butlast initstr) = c # drop (l + 1) (butlast initstr)" using drop_initstr [of l] by simp
    have "match_init m arg l = match_init m arg (l + 1)" using Cons.prems True by (subst match_init.simps) auto
    then show ?thesis using Cons.IH [of "l + 1"] Cons.prems True d by (auto simp: ac_simps)
  next
    case False
    have tw: "takeWhile (\<lambda>c. c \<noteq> 61) (c # cs) \<noteq> drop l (butlast initstr) \<or> c = 61 \<and> l = 4"
    proof (cases "l = 4")
      case True
      then show ?thesis by (auto simp: butlast_initstr)
    next
      case l: False
      then have "drop l (butlast initstr) = initstr ! l # drop (l + 1) (butlast initstr)"
        using Cons.prems(2) by (intro drop_initstr) simp
      then show ?thesis using False l Cons.prems(2) by auto
    qed
    have mi: "match_init m arg l = (if c = 61 then l else 0)"
    proof -
      have "initstr ! 4 = 0" by (simp add: initstr_def)
      then have "c \<noteq> 61 \<Longrightarrow> c \<noteq> initstr ! l" using Cons.prems False by (cases "l = 4") auto
      then show ?thesis using Cons.prems(1) by (subst match_init.simps) simp
    qed
    have "length (butlast initstr) = 4" by (simp add: butlast_initstr)
    then have "takeWhile (\<lambda>c. c \<noteq> 61) (c # cs) = drop l (butlast initstr)" if "c = 61" "l = 4" using that by simp
    then show ?thesis using tw mi by (cases "c = 61") auto
  qed
qed

lemma find_init_words:
  assumes "\<And>q. q < length ws \<Longrightarrow> cstr m (load32 m (args + of_nat (4 * (i + q)))) (ws ! q)"
  shows "case List.find names_init ws of None \<Rightarrow> find_init m args i (length ws) = None
    | Some w \<Rightarrow> \<exists>a. find_init m args i (length ws) = Some (a + 5) \<and> cstr m a w"
  using assms
proof (induction ws arbitrary: i)
  case (Cons w ws)
  have "cstr m (load32 m (args + of_nat (4 * i))) w" using Cons.prems [of 0] by simp
  moreover from this have "match_init m (load32 m (args + of_nat (4 * i))) 0 = 4 \<longleftrightarrow> names_init w"
    using match_init_cstr [of m _ 0 w] by (simp add: names_init_def)
  moreover have "cstr m (load32 m (args + of_nat (4 * (i + 1 + q)))) (ws ! q)" if "q < length ws" for q
    using Cons.prems [of "Suc q"] that by simp
  ultimately show ?case using Cons.IH [of "i + 1"] by (simp add: Let_def split: option.splits)
qed simp

lemma names_init_path:
  assumes "names_init w" "w \<noteq> butlast initstr" "cstr m a w"
  shows "cstr m (a + 5) (drop 5 w)"
proof -
  have w: "w = butlast initstr @ dropWhile (\<lambda>c. c \<noteq> 61) w"
    by (subst takeWhile_dropWhile_id [of "\<lambda>c. c \<noteq> 61" w, symmetric]) (use assms(1) in \<open>simp only: names_init_def\<close>)
  moreover have "dropWhile (\<lambda>c. c \<noteq> 61) w \<noteq> []"
  proof
    assume "dropWhile (\<lambda>c. c \<noteq> 61) w = []"
    then show False using w assms(2) by (simp only: append_Nil2)
  qed
  ultimately obtain p where "w = butlast initstr @ 61 # p" using hd_dropWhile [of "\<lambda>c. c \<noteq> 61" w] by (metis list.exhaust_sel)
  then show ?thesis using assms(3) by (auto simp: butlast_initstr add.assoc)
qed

text \<open>
  C11. The program named on the command line is found: when a word of it has the form \<open>init=path\<close>, the first such word decides
  and the address that is opened is that of the path, a string of the cut copy; without one nothing is opened. The line has
  fewer than 256 characters and at most 15 words, none of them just \<open>init\<close>.
\<close>

theorem init_path_found:
  assumes "cstr m cmd t" "length t < 256" "length (words_of t) \<le> 15" "butlast initstr \<notin> set (words_of t)"
    and "far cmd (Suc (length t)) input 257" "far cmd (Suc (length t)) args 68" "far input 257 args 68"
  shows "\<exists>r m'. init_of_cmdline cmd input args m = (r, m') \<and>
    (case List.find names_init (words_of t) of None \<Rightarrow> r = None | Some w \<Rightarrow> \<exists>a. r = Some a \<and> cstr m' a (drop 5 w))"
proof -
  let ?P = "places 32 0 t" let ?n = "length t"
  define m0 where "m0 = store32 m (args + of_nat (4 * 0)) input"
  have j: "1 + length ?P < 16" using assms(3) by (simp add: length_words_of)
  have k0: "kept m m0 args 0 4" using kept_store32 [of "4 * 0" m args input] by (simp add: m0_def)
  have "far cmd (Suc ?n) args 4" using assms(6) by (auto simp: far_def)
  moreover have "holds_at m cmd (Suc ?n) ((!) (t @ [0]))" using assms(1) by (auto simp: cstr_iff holds_at_def nth_append less_Suc_eq)
  ultimately have h: "holds_at m0 cmd (Suc ?n) ((!) (t @ [0]))" by (rule kept_holds_at [OF k0])
  have nz: "0 \<notin> set t" by (rule cstr_nonzero [OF assms(1)])
  from cut_cmdline_words [OF assms(5,6,7,2) nz, of "[]" t m0 1] h j obtain m1 where
    m1: "cut_cmdline cmd input args 0 1 m0 = (?n, 1 + length ?P, m1)"
    "\<And>k. k < ?n \<Longrightarrow> m1 (input + of_nat k) = blanked (t ! k)"
    "\<And>q. q < length ?P \<Longrightarrow> load32 m1 (args + of_nat (4 * (1 + q))) = input + of_nat (?P ! q)"
    "\<And>x. x \<notin> block input 0 ?n \<Longrightarrow> x \<notin> block args (4 * 1) (4 * (1 + length ?P)) \<Longrightarrow> m1 x = m0 x"
    by (auto simp del: of_nat_add of_nat_mult)
  have "m1 (args + of_nat d) = m0 (args + of_nat d)" if "d < 4" for d
    by (rule m1(4)) (use that far_block [OF far_sym [OF assms(7)], of d ?n 0] assms(2) in \<open>simp_all add: in_block\<close>)
  then have "same_on m0 m1 args (4 * 0) (4 * 0 + 4)" by (simp add: same_on_def)
  then have "load32 m1 (args + of_nat (4 * 0)) = load32 m0 (args + of_nat (4 * 0))" by (rule same_on_load32) simp_all
  then have e: "load32 m1 (args + of_nat (4 * q)) = input + of_nat ((0 # ?P) ! q)" if "q < length (words_of t)" for q
    using that m1(3) by (cases q) (auto simp: length_words_of m0_def simp del: of_nat_mult)
  define m2 where "m2 = m1(input + of_nat ?n := 0)"
  define m3 where "m3 = store32 m2 (args + of_nat (4 * (1 + length ?P))) 0"
  have k3: "kept m2 m3 args (4 * (1 + length ?P)) (4 * (1 + length ?P) + 4)" unfolding m3_def by (rule kept_store32) (use j in simp)
  have "m2 (args + of_nat d) = m1 (args + of_nat d)" if "d < 68" for d
    using far_not_in [OF far_sym [OF assms(7)] that] assms(2) by (auto simp: m2_def)
  then have s: "same_on m1 m2 args 0 68" by (simp add: same_on_def)
  have l: "load32 m3 (args + of_nat (4 * q)) = input + of_nat ((0 # ?P) ! q)" if "q < length (words_of t)" for q
  proof -
    have q: "4 * q + 4 \<le> 4 * (1 + length ?P)" "4 * q + 4 \<le> 68" using that j by (simp_all add: length_words_of)
    have "load32 m3 (args + of_nat (4 * q)) = load32 m2 (args + of_nat (4 * q))" by (rule kept_load32 [OF k3]) (use q in simp_all)
    also have "\<dots> = load32 m1 (args + of_nat (4 * q))" by (rule same_on_load32 [OF s]) (use q in simp_all)
    finally show ?thesis using e [OF that] by simp
  qed
  have i: "m3 (input + of_nat k) = m2 (input + of_nat k)" if "k < 257" for k
  proof -
    have "m3 (args + of_nat (unat (input + of_nat k - args))) = m2 (args + of_nat (unat (input + of_nat k - args)))"
      by (rule kept_byte [OF k3 unat_u32_less]) (use far_not_in [OF assms(7) that] j in simp)
    then show ?thesis by (simp only: base_offset)
  qed
  have z: "m3 (input + of_nat ?n) = 0" "\<forall>k<?n. m3 (input + of_nat k) = blanked (t ! k)"
    using i m1(2) assms(2) by (auto simp: m2_def of_nat_u32_inj)
  have ws: "cstr m3 (load32 m3 (args + of_nat (4 * (0 + q)))) (words_of t ! q)" if "q < length (words_of t)" for q
  proof -
    have p: "(0 # ?P) ! q \<le> ?n" using that places_le [of "(0 # ?P) ! q" 32 0 t] by (cases q) (auto simp: length_words_of)
    have "words_of t ! q = takeWhile (\<lambda>c. c \<noteq> 32) (drop ((0 # ?P) ! q) t)" using that by (simp add: words_of_def del: list.map)
    then show ?thesis using cut_word_cstr [OF z(2,1) nz p] l [OF that] by simp
  qed
  have r: "init_of_cmdline cmd input args m = (find_init m3 args 0 (length (words_of t)), m3)"
    using m1(1) by (simp add: init_of_cmdline_def m0_def m2_def m3_def length_words_of Let_def)
  show ?thesis
  proof (cases "List.find names_init (words_of t)")
    case None
    then show ?thesis using find_init_words [OF ws] r by simp
  next
    case (Some w)
    then have w: "names_init w" "w \<noteq> butlast initstr" using assms(4) by (auto simp: find_Some_iff dest: nth_mem)
    obtain a where "find_init m3 args 0 (length (words_of t)) = Some (a + 5)" "cstr m3 a w" using find_init_words [OF ws] Some by auto
    then show ?thesis using r Some names_init_path [OF w] by simp
  qed
qed

text \<open>The command line \<open>k init=/a x\<close>.\<close>

definition demo_cmdline :: "u8 list" where
  "demo_cmdline = [107, 32, 105, 110, 105, 116, 61, 47, 97, 32, 120]"

lemma demo_words: "words_of demo_cmdline = [[107], [105, 110, 105, 116, 61, 47, 97], [120]]"
  by (simp add: words_of_def demo_cmdline_def)

theorem init_path_found_witness:
  "\<exists>a m'. init_of_cmdline 0x1000 0x2000 0x3000 (\<lambda>a. if unat (a - 0x1000) < 11 then demo_cmdline ! unat (a - 0x1000) else 0) = (Some a, m') \<and>
    cstr m' a [47, 97]"
proof -
  let ?m = "\<lambda>a :: u32. if unat (a - 0x1000) < 11 then demo_cmdline ! unat (a - 0x1000) else 0"
  have l: "length demo_cmdline = 11" "0 \<notin> set demo_cmdline" by (simp_all add: demo_cmdline_def)
  then have c: "cstr ?m 0x1000 demo_cmdline" by (auto simp: cstr_iff) (metis nth_mem)
  have f: "List.find names_init (words_of demo_cmdline) = Some [105, 110, 105, 116, 61, 47, 97]"
    by (simp add: demo_words names_init_def butlast_initstr)
  have "butlast initstr \<notin> set (words_of demo_cmdline)" "length (words_of demo_cmdline) \<le> 15" by (simp_all add: demo_words butlast_initstr)
  from init_path_found [OF c _ this(2,1), of "0x2000" "0x3000"] show ?thesis using l f by (auto simp: far_def)
qed

section \<open>The typed path\<close>

text \<open>What is in the buffer after the keys \<open>ks\<close>, none of them a newline.\<close>

lemma prompt_read_edited:
  "10 \<notin> set ks \<Longrightarrow> length l + length ks < 256 \<Longrightarrow> \<forall>k<length l. m (input + of_nat k) = l ! k \<Longrightarrow>
    \<exists>m'. prompt_read input (length l) (ks @ 10 # later) m = Some (length (edited l ks), m', later) \<and>
      (\<forall>k<length (edited l ks). m' (input + of_nat k) = edited l ks ! k)"
proof (induction ks arbitrary: l m)
  case (Cons c ks)
  have c: "c \<noteq> 10" "length l < 256" using Cons.prems(1,2) by auto
  show ?case
  proof (cases "c = 8")
    case True
    have "\<forall>k<length (butlast l). (m(input + of_nat (length l) := 0)) (input + of_nat k) = butlast l ! k"
      using Cons.prems(3) c(2) by (auto simp: nth_butlast of_nat_u32_inj)
    moreover have "prompt_read input (length l) ((c # ks) @ 10 # later) m =
        prompt_read input (length (butlast l)) (ks @ 10 # later) (m(input + of_nat (length l) := 0))" using c True by simp
    moreover have "10 \<notin> set ks" "length (butlast l) + length ks < 256" using Cons.prems(1,2) by simp_all
    moreover have "edit_key c l = butlast l" using True by (simp add: edit_key_def)
    ultimately show ?thesis using Cons.IH [of "butlast l"] by (simp only: edited.simps) blast
  next
    case False
    have "\<forall>k<length (l @ [c]). (m(input + of_nat (length l) := c)) (input + of_nat k) = (l @ [c]) ! k"
      using Cons.prems(3) c(2) by (auto simp: nth_append of_nat_u32_inj less_Suc_eq)
    then show ?thesis using Cons.IH [of "l @ [c]"] Cons.prems(1,2) c False by (simp add: edit_key_def)
  qed
qed simp

text \<open>
  The typed path: the keys, edited with backspaces, decide. Nothing typed asks again, a line that begins with an exclamation
  mark starts the built-in shell, and any other line is the path that is opened.
\<close>

lemma prompt_round_chooses:
  assumes "10 \<notin> set ks" "length ks < 256" "0 \<notin> set (edited [] ks)"
  shows "\<exists>m'. prompt_round input (ks @ 10 # later) m =
      Some (if edited [] ks = [] then Again else if hd (edited [] ks) = 33 then Builtin_Shell else Run input, m', later) \<and>
    cstr m' input (edited [] ks)"
proof -
  let ?e = "edited [] ks"
  obtain m1 where m1: "prompt_read input 0 (ks @ 10 # later) m = Some (length ?e, m1, later)" "\<forall>k<length ?e. m1 (input + of_nat k) = ?e ! k"
    using prompt_read_edited [of ks "[]" m input later] assms by auto
  have l: "length (edited l ks) \<le> length l + length ks" for l
    by (induction l ks rule: edited.induct) (auto simp: edit_key_def split: if_splits)
  let ?m = "m1(input + of_nat (length ?e) := 0)"
  have lt: "length ?e < 2 ^ 32" using l [of "[]"] assms(2) by simp
  have "cstr ?m input ?e" using m1(2) assms(3) lt by (auto simp: cstr_iff of_nat_u32_inj) (metis nth_mem)
  moreover have "?m input = hd ?e" if "?e \<noteq> []" using calculation that by (cases ?e) auto
  ultimately show ?thesis using m1(1) by (auto simp: prompt_round_def Let_def)
qed

end
