(* ===== verification/Daemons.thy ===== *)
theory Daemons
  imports Shell_Commands
begin

text \<open>
  The test daemons of the kernel, \<open>kern/daemons.c\<close>, and the list of processes, \<open>dump_pids\<close> of \<open>kern/kern/task/task.c\<close> with its
  command \<open>sh_ps\<close>. A daemon is a loop; its definition is one round of it, with what is printed and what comes next. The
  messages that a daemon receives and sends are those of \<open>Ipc\<close>.

  The lemmas show that a daemon answers a request, and that the list has every task of the queue once.
\<close>

section \<open>Rounds\<close>

datatype after_round = Next_Round | Reboot | Leave | Launch string | Resumed_In resume

text \<open>The busy loop over \<open>meh\<close> is left out.\<close>

definition daemon1_round :: "u32 \<times> u32 \<times> u32 \<Rightarrow> sched \<times> msgs \<Rightarrow> ((sched \<times> msgs) \<times> string \<times> after_round) run" where
  "daemon1_round regs sm =
    and_then (get_msg 4 regs sm) (\<lambda>(sm1, m, r, ret).
      case m of None \<Rightarrow> done_with (sm1, [], Resumed_In r)
      | Some (msg, _) \<Rightarrow>
          if msg_type msg = 6 then done_with (sm1, [], Reboot)
          else done_with (sm1, (if msg_type msg = 1 then ''Main daemon, how can I help you?'' @ nl else []) @ ''meh'' @ nl, Next_Round))"

text \<open>\<open>reply\<close> is the variable of that name, of which two members are set; \<open>new_msg\<close> is the block of the copy that \<open>send_msg\<close> makes.\<close>

definition daemon2_round :: "u32 \<times> u32 \<times> u32 \<Rightarrow> ipc_msg_t \<Rightarrow> u32 \<Rightarrow> sched \<times> msgs \<Rightarrow> ((sched \<times> msgs) \<times> string \<times> after_round) run" where
  "daemon2_round regs reply new_msg sm =
    and_then (get_msg 3 regs sm) (\<lambda>(sm1, m, r, ret).
      case m of None \<Rightarrow> done_with (sm1, [], Resumed_In r)
      | Some (msg, _) \<Rightarrow>
          and_then (Some (msg_lookup (msg_type msg))) (\<lambda>label.
            and_then (says [] (''pid %d: got message 0x%x (%s) from pid %d'' @ nl)
                [VInt (getpid (fst sm1)), VInt (msg_type msg), VStr label, VInt (sender msg)]) (\<lambda>out.
              case (if msg_type msg = 1 then send_msg (sender msg) (reply\<lparr>msg_type := 2, sender := getpid (fst sm1)\<rparr>) new_msg sm1 else Some (sm1, 0)) of
                None \<Rightarrow> None
              | Some (sm2, _) \<Rightarrow>
                  done_with (sm2, out, if msg_type msg = 123 then Leave else if msg_type msg = 234 then Launch ''/init/blarg'' else Next_Round))))"

section \<open>The list of processes\<close>

definition status_label :: "u32 \<Rightarrow> string" where
  "status_label st =
    (if st = S_RUNNING then ''running'' else if st = S_SLEEPING then ''sleeping'' else if st = S_LISTENING then ''listening''
     else if st = S_SENDING then ''sending'' else ''unknown'')"

text \<open>\<open>for ( i = 0; temp->argv[i]; i++ )\<close>: the table and the strings lie in memory.\<close>

partial_function (option) argv_loop :: "mem \<Rightarrow> u32 \<Rightarrow> u32 \<Rightarrow> string \<Rightarrow> string run" where
  "argv_loop m argv i out =
    (let p = load32 m (argv + 4 * i)
     in if p = 0 then done_with out
        else case strlen m p of None \<Rightarrow> None
          | Some l \<Rightarrow> and_then (says out ([CHR 0x22] @ ''%s'' @ [CHR 0x22] @ '', '') [VStr (chars_at m p (unat l))]) (argv_loop m argv (i + 1)))"

partial_function (option) pids_loop :: "mem \<Rightarrow> (u32 \<Rightarrow> task_t) \<Rightarrow> u32 \<Rightarrow> string \<Rightarrow> string run" where
  "pids_loop m ts temp out =
    (if temp = 0 then done_with out
     else let t = ts temp
       in and_then (says out ''%d '' [VInt (t_id t)]) (\<lambda>out.
          and_then (says out (tab @ ''%s '') [VStr (status_label (t_status t))]) (\<lambda>out.
          and_then (says out (tab @ ''%d'' @ tab) [VInt (t_time t)]) (\<lambda>out.
          and_then (if t_argv t \<noteq> 0 then argv_loop m (t_argv t) 0 out else done_with (out @ ''(none) '')) (\<lambda>out.
            pids_loop m ts (t_next t) (out @ nl))))))"

definition dump_pids :: "mem \<Rightarrow> sched \<Rightarrow> string run" where
  "dump_pids m s =
    and_then (pids_loop m (tasks s) (task_queue s) (''pid:'' @ tab @ ''state:'' @ tab @ tab @ ''time:'' @ tab @ ''args:'' @ nl)) (\<lambda>out.
      says out (tab @ ''total time: '' @ tab @ ''%d'' @ nl) [VInt (tick s)])"

definition sh_ps :: "mem \<Rightarrow> sched \<Rightarrow> string run" where
  "sh_ps m s =
    and_then (says [] (''Calling pid: %d'' @ nl) [VInt (getpid s)]) (\<lambda>out.
      and_then (dump_pids m s) (\<lambda>out1. done_with (out @ out1)))"

section \<open>Answers\<close>

text \<open>
  C23. A request is answered: when the next message for the daemon asks for its status, one round takes it from the box and
  puts an acknowledgement with the daemon's number behind what waits for the sender, whoever that is, and counts it; the
  boxes of all other tasks stay. Behind the acknowledgement the link leads wherever the uninitialised variable \<open>reply\<close> says.
\<close>

theorem daemon_acknowledges:
  assumes "mail_ok s m as boxes" "boxes (current_task s) = a # waiting" "msg_type (m a) = 1"
    and "p \<in> set as" "sender (m a) = t_id (tasks s p)"
    and "new_msg \<noteq> 0" "\<forall>q. new_msg \<notin> set (boxes q)" "length (boxes p) < 2 ^ 32 - 1"
  defines "left \<equiv> boxes(current_task s := waiting)"
  shows "\<exists>s' m' out. daemon2_round regs reply new_msg (s, m) = done_with ((s', m'), out, Next_Round) \<and>
    leads (\<lambda>b. msg_next (m' b)) (t_msg_buf (tasks s' p)) (left p @ [new_msg]) \<and>
    msg_type (m' new_msg) = 2 \<and> sender (m' new_msg) = getpid s \<and> msg_next (m' new_msg) = msg_next reply \<and>
    (\<forall>q\<in>set as. q \<noteq> p \<longrightarrow> chain (\<lambda>b. msg_next (m' b)) (t_msg_buf (tasks s' q)) (left q)) \<and>
    (\<forall>q\<in>set as. unat (t_msg_count (tasks s' q)) = length (left q) + (if q = p then 1 else 0)) \<and> current_task s' = current_task s"
proof -
  let ?c = "current_task s"
  obtain s1 where g: "get_msg 3 regs (s, m) = done_with ((s1, m), Some (m a, a), Returned, 0)" "mail_ok s1 m as left" "current_task s1 = ?c"
    unfolding left_def by (rule get_msg_pops [OF assms(1,2)])
  have tasks: "t_id (tasks s1 q) = t_id (tasks s q)" for q
    using g(1) by (auto simp: get_msg_def get_msg_from_def Let_def done_with_def split: if_splits option.splits prod.splits)
  have fresh: "new_msg \<notin> set (left q)" for q using assms(2,7) by (auto simp: left_def) (metis list.set_intros(2))
  have room: "length (left p) < 2 ^ 32 - 1" using assms(2,8) by (auto simp: left_def)
  have pid: "getpid s1 = getpid s" using tasks g(3) by (simp add: getpid_def)
  let ?r = "reply\<lparr>msg_type := 2, sender := getpid s\<rparr>"
  obtain s' m' where sd: "send_msg (sender (m a)) ?r new_msg (s1, m) = Some ((s', m'), 0)" "current_task s' = current_task s1"
    "\<And>b. (m' b)\<lparr>msg_next := 0\<rparr> = (if b = new_msg then ?r else m b)\<lparr>msg_next := 0\<rparr>" "msg_next (m' new_msg) = msg_next ?r"
    "leads (\<lambda>b. msg_next (m' b)) (t_msg_buf (tasks s' p)) (left p @ [new_msg])"
    "\<And>q. q \<noteq> p \<Longrightarrow> q \<in> set as \<Longrightarrow> chain (\<lambda>b. msg_next (m' b)) (t_msg_buf (tasks s' q)) (left q)"
    "\<And>q. q \<in> set as \<Longrightarrow> unat (t_msg_count (tasks s' q)) = length ((left(p := left p @ [new_msg])) q)"
    by (rule send_msg_links [OF g(2) assms(4) _ assms(6) fresh room, of "sender (m a)" ?r]) (use assms(5) tasks in auto)
  have "msg_type (m' new_msg) = msg_type ((m' new_msg)\<lparr>msg_next := 0\<rparr>)" "sender (m' new_msg) = sender ((m' new_msg)\<lparr>msg_next := 0\<rparr>)" by simp_all
  then have t: "msg_type (m' new_msg) = 2" "sender (m' new_msg) = getpid s" unfolding sd(3) by simp_all
  have l: "msg_lookup 1 = Inr ''acknowledge''" by (simp add: msg_lookup_def msg_lookup_table_def)
  obtain out where o: "says [] (''pid %d: got message 0x%x (%s) from pid %d'' @ nl) [VInt (getpid s), VInt 1, VStr ''acknowledge'', VInt (sender (m a))] = done_with out"
    by (simp add: says_def printf_conv_def nl_def done_with_def)
  have "daemon2_round regs reply new_msg (s, m) = done_with ((s', m'), out, Next_Round)"
    using g(1) sd(1) o l pid assms(3) by (simp add: daemon2_round_def flip: done_with_def)
  then show ?thesis using sd(2,4-7) t g(3) by (intro exI [of _ s'] exI [of _ m'] exI [of _ out]) simp
qed

section \<open>The list\<close>

text \<open>The row of a task without arguments.\<close>

definition pid_row :: "string \<Rightarrow> task_t \<Rightarrow> string" where
  "pid_row argv t = print_num (t_id t) @ '' '' @ tab @ status_label (t_status t) @ '' '' @ tab @ print_num (t_time t) @ tab @ argv @ nl"

lemma pids_loop_rows:
  assumes "\<And>p out. p \<in> set as \<Longrightarrow> t_argv (ts p) \<noteq> 0 \<Longrightarrow> argv_loop m (t_argv (ts p)) 0 out = done_with (out @ argv p)"
    and "\<And>p. p \<in> set as \<Longrightarrow> t_argv (ts p) = 0 \<Longrightarrow> argv p = ''(none) ''"
  shows "chain (\<lambda>a. t_next (ts a)) temp as \<Longrightarrow> pids_loop m ts temp out = done_with (out @ concat (map (\<lambda>p. pid_row (argv p) (ts p)) as))"
  using assms
proof (induction as arbitrary: temp out)
  case Nil
  then show ?case by (subst pids_loop.simps) simp
next
  case (Cons p ps)
  then have p: "temp = p" "p \<noteq> 0" "chain (\<lambda>a. t_next (ts a)) (t_next (ts p)) ps" by simp_all
  have a: "(if t_argv (ts p) \<noteq> 0 then argv_loop m (t_argv (ts p)) 0 out else done_with (out @ ''(none) '')) = done_with (out @ argv p)" for out
    using Cons.prems(2,3) by simp
  have sy: "says out ''%d '' [VInt w] = done_with (out @ print_num w @ '' '')"
    "says out (tab @ ''%s '') [VStr (status_label st)] = done_with (out @ tab @ status_label st @ '' '')"
    "says out (tab @ ''%d'' @ tab) [VInt w] = done_with (out @ tab @ print_num w @ tab)" for out w st
    by (simp_all add: says_def printf_conv_def tab_def done_with_def status_label_def)
  have "pids_loop m ts p out = pids_loop m ts (t_next (ts p)) (out @ pid_row (argv p) (ts p))"
    using p(2) by (subst pids_loop.simps) (simp only: Let_def sy a and_then_simps if_False, simp add: pid_row_def)
  then show ?case using Cons.IH [OF p(3)] Cons.prems(2,3) p(1) by simp
qed

text \<open>A table of arguments in memory, each short enough for \<open>kputs\<close>.\<close>

definition argv_at :: "mem \<Rightarrow> u32 \<Rightarrow> u8 list list \<Rightarrow> bool" where
  "argv_at m argv ws \<longleftrightarrow> load32 m (argv + 4 * of_nat (length ws)) = 0 \<and> (\<forall>i<length ws.
     load32 m (argv + 4 * of_nat i) \<noteq> 0 \<and> cstr m (load32 m (argv + 4 * of_nat i)) (ws ! i) \<and> length (ws ! i) < 2 ^ 16)"

definition quoted_words :: "u8 list list \<Rightarrow> string" where
  "quoted_words ws = concat (map (\<lambda>w. [CHR 0x22] @ map (\<lambda>c. char_of (unat c)) w @ [CHR 0x22] @ '', '') ws)"

lemma chars_at_cstr:
  assumes "cstr m p w" "length w < 2 ^ 32"
  shows "chars_at m p (length w) = map (\<lambda>c. char_of (unat c)) w"
  using assms by (intro nth_equalityI) (simp_all add: chars_at_def cstr_nth)

lemma argv_loop_words:
  assumes "argv_at m argv ws"
  shows "i + k = length ws \<Longrightarrow> argv_loop m argv (of_nat i) out = done_with (out @ quoted_words (drop i ws))"
proof (induction k arbitrary: i out)
  case 0
  then show ?case using assms by (subst argv_loop.simps) (simp add: argv_at_def quoted_words_def)
next
  case (Suc k)
  then have i: "i < length ws" by simp
  let ?p = "load32 m (argv + 4 * of_nat i)"
  let ?w = "map (\<lambda>c. char_of (unat c)) (ws ! i)"
  have p: "?p \<noteq> 0" "cstr m ?p (ws ! i)" "length (ws ! i) < 2 ^ 32" "length ?w < 2 ^ 16" using assms i by (auto simp: argv_at_def)
  have sy: "says out ([CHR 0x22] @ ''%s'' @ [CHR 0x22] @ '', '') [VStr l] = done_with (out @ [CHR 0x22] @ l @ [CHR 0x22] @ '', '')"
    if "length l < 2 ^ 16" for l using that
    by (simp add: says_def printf_conv_def done_with_def)
  have "argv_loop m argv (of_nat i) out =
      argv_loop m argv (of_nat (Suc i)) (out @ [CHR 0x22] @ map (\<lambda>c. char_of (unat c)) (ws ! i) @ [CHR 0x22] @ '', '')"
    using p(1) strlen_cstr [OF p(2)] chars_at_cstr [OF p(2,3)] p(3) by (subst argv_loop.simps) (simp only: Let_def if_False option.case sy [OF p(4)] and_then_simps unat_of_nat_lt32 of_nat_Suc add.commute)
  also have "\<dots> = done_with (out @ quoted_words (ws ! i # drop (Suc i) ws))"
    using Suc.IH [of "Suc i"] Suc.prems by (simp add: quoted_words_def)
  finally show ?case using Cons_nth_drop_Suc [OF i] by simp
qed

text \<open>
  \<open>ps\<close> lists the processes: the list returns, and it has one row for every task of the queue, in the order of the queue,
  with its number, its state, its time and its arguments.
\<close>

theorem ps_lists_processes:
  assumes "wf_queue s as" "\<forall>p\<in>set as. t_argv (tasks s p) \<noteq> 0 \<longrightarrow> argv_at m (t_argv (tasks s p)) (ws p)"
  shows "sh_ps m s = done_with (''Calling pid: '' @ print_num (getpid s) @ nl @
    ''pid:'' @ tab @ ''state:'' @ tab @ tab @ ''time:'' @ tab @ ''args:'' @ nl @
    concat (map (\<lambda>p. pid_row (if t_argv (tasks s p) = 0 then ''(none) '' else quoted_words (ws p)) (tasks s p)) as) @
    tab @ ''total time: '' @ tab @ print_num (tick s) @ nl)"
proof -
  let ?argv = "\<lambda>p. if t_argv (tasks s p) = 0 then ''(none) '' else quoted_words (ws p)"
  have "argv_loop m (t_argv (tasks s p)) 0 out = done_with (out @ ?argv p)" if "p \<in> set as" "t_argv (tasks s p) \<noteq> 0" for p out
    using argv_loop_words [of m "t_argv (tasks s p)" "ws p" 0 "length (ws p)" out] assms(2) that by simp
  then have "pids_loop m (tasks s) (task_queue s) out = done_with (out @ concat (map (\<lambda>p. pid_row (?argv p) (tasks s p)) as))" for out
    by (intro pids_loop_rows wf_queueD(1) [OF assms(1)]) simp_all
  moreover have "says out (tab @ ''total time: '' @ tab @ ''%d'' @ nl) [VInt w] = done_with (out @ tab @ ''total time: '' @ tab @ print_num w @ nl)"
    "says [] (''Calling pid: %d'' @ nl) [VInt w] = done_with (''Calling pid: '' @ print_num w @ nl)" for out w
    by (simp_all add: says_def printf_conv_def tab_def nl_def done_with_def)
  ultimately show ?thesis by (simp only: sh_ps_def dump_pids_def and_then_simps append_assoc)
qed

section \<open>Examples\<close>

theorem daemon_acknowledges_witness:
  "\<exists>s m s' m' out. daemon2_round (1, 2, 3) ((demo_msg 0)\<lparr>msg_next := 0xdead\<rparr>) 0x600 (s, m) = done_with ((s', m'), out, Next_Round) \<and>
    msg_type (m' 0x600) = 2 \<and> sender (m' 0x600) = getpid s \<and> t_msg_buf (tasks s' 0x20) = 0x600 \<and> t_msg_count (tasks s' 0x20) = 1"
proof -
  let ?l = "(demo_msg 0)\<lparr>msg_type := 1, sender := 2\<rparr>"
  have id: "t_id (tasks demo_sched 0x10) = 1" "t_id (tasks demo_sched 0x20) = 2" "current_task demo_sched = 0x10" by (simp_all add: demo_sched_def)
  obtain s m where s: "mail_ok s m [0x10, 0x20, 0x30] ((\<lambda>_. [])(0x10 := [] @ [0x500]))" "current_task s = 0x10"
    "\<And>b. (m b)\<lparr>msg_next := 0\<rparr> = (if b = 0x500 then ?l else (demo_msg 0)\<lparr>msg_next := 0\<rparr>)" "\<And>q. t_id (tasks s q) = t_id (tasks demo_sched q)"
    by (rule send_msg_append [OF demo_mail_ok, of "0x10" 1 "0x500" ?l]) (use id in \<open>simp_all add: demo_msg_def\<close>)
  have m: "(m 0x500)\<lparr>msg_next := 0\<rparr> = ?l" by (rule trans [OF s(3) if_P]) simp
  have "msg_type (m 0x500) = 1" "sender (m 0x500) = 2" using arg_cong [OF m, of msg_type] arg_cong [OF m, of sender] by simp_all
  then obtain s' m' out where r: "daemon2_round (1, 2, 3) ((demo_msg 0)\<lparr>msg_next := 0xdead\<rparr>) 0x600 (s, m) = done_with ((s', m'), out, Next_Round)"
    "msg_type (m' 0x600) = 2" "sender (m' 0x600) = getpid s" "t_msg_buf (tasks s' 0x20) = 0x600" "unat (t_msg_count (tasks s' 0x20)) = 1"
    using daemon_acknowledges [OF s(1), of "0x500" "[]" "0x20" "0x600" "(1, 2, 3)" "(demo_msg 0)\<lparr>msg_next := 0xdead\<rparr>"] s(2,4) id by auto
  then have "t_msg_count (tasks s' 0x20) = 1" by (simp add: word_unat_eq_iff)
  with r show ?thesis by blast
qed

theorem ps_lists_processes_witness:
  "sh_ps (\<lambda>_. 0) demo_sched = done_with (''Calling pid: '' @ print_num (getpid demo_sched) @ nl @
    ''pid:'' @ tab @ ''state:'' @ tab @ tab @ ''time:'' @ tab @ ''args:'' @ nl @
    concat (map (\<lambda>p. pid_row ''(none) '' (tasks demo_sched p)) [0x10, 0x20, 0x30]) @ tab @ ''total time: '' @ tab @ print_num 7 @ nl)"
proof -
  have "t_argv (tasks demo_sched p) = 0" "tick demo_sched = 7" for p by (simp_all add: demo_sched_def zero_task_def)
  then show ?thesis using ps_lists_processes [OF demo_sched_wf, of "\<lambda>_. 0" "\<lambda>_. []"] by simp
qed

end
