(* ===== verification/User_Calls.thy ===== *)
theory User_Calls
  imports Syscall Shell_Commands
begin

text \<open>
  How a program reaches the file system: the stub of \<open>user/lib/syscall.c\<close> with its number and its arguments in registers, the
  handler of \<open>Syscall\<close> with its table, and behind the table the calls of \<open>Vfs\<close>, whose paths are strings in the memory of the
  program.

  The state is that of the file system with the memory, and what the other calls of the kernel work on.
\<close>

section \<open>Results\<close>

lemma run_cases:
  obtains (never) "r = None" | (fails) e where "r = Some (Inl e)" | (returns) x where "r = done_with x"
  by (cases r; cases "the r") (auto simp: done_with_def)

lemma and_then_assoc: "and_then (and_then r f) g = and_then r (\<lambda>x. and_then (f x) g)"
  by (auto simp: and_then_def split: option.splits sum.splits)

section \<open>A call\<close>

text \<open>\<open>junk\<close> is what the registers hold that the stub does not set.\<close>

definition usys :: "'s fn_table \<Rightarrow> ('s \<Rightarrow> registers_t) \<Rightarrow> string \<Rightarrow> u32 list \<Rightarrow> 's \<Rightarrow> (u32 \<times> 's) run" where
  "usys fns junk stub ps s =
    (case map_of user_stubs stub of None \<Rightarrow> Some (Inl Out_Of_Bounds)
     | Some (num, _) \<Rightarrow>
         and_then (syscall_handler fns (defn_syscall (of_nat num) ps (junk s)) s) (\<lambda>(r, s1). done_with (r_eax r, s1)))"

text \<open>The words the function of the kernel gets.\<close>

definition call_args :: "registers_t \<Rightarrow> u32 list \<Rightarrow> u32 list" where
  "call_args regs ps = (let r = defn_syscall 0 ps regs in [r_ebx r, r_ecx r, r_edx r, r_esi r, r_edi r])"

lemma defn_syscall_args:
  "[r_ebx (defn_syscall num ps regs), r_ecx (defn_syscall num ps regs), r_edx (defn_syscall num ps regs), r_esi (defn_syscall num ps regs),
    r_edi (defn_syscall num ps regs)] = call_args regs ps"
  by (auto simp: call_args_def defn_syscall_def Let_def split: list.splits)

definition call_of :: "string \<Rightarrow> string option" where
  "call_of stub = (case map_of user_stubs stub of None \<Rightarrow> None | Some nk \<Rightarrow> reaches (stub, nk))"

lemma usys_runs:
  assumes "call_of stub \<noteq> None" "length ps \<le> 4"
  shows "usys fns junk stub ps s = fns (the (call_of stub)) (call_args (junk s) ps) s"
proof -
  obtain num k where st: "map_of user_stubs stub = Some (num, k)" "num < 27" "call_of stub = Some (syscalls ! num)"
    using assms(1) by (auto simp: call_of_def reaches_def syscalls_length split: option.splits if_splits)
  let ?r = "defn_syscall (of_nat num) ps (junk s)"
  have n: "r_eax ?r = of_nat num" by (simp add: defn_syscall_def split: list.splits)
  have u: "unat (of_nat num :: u32) = num" using st(2) by simp
  have lt: "\<not> (of_nat num :: u32) \<ge> NUM_SYSCALLS"
    using st(2) by (simp add: NUM_SYSCALLS_def syscalls_length word_le_nat_alt)
  have "syscall_handler fns ?r s = and_then (fns (syscalls ! num) (call_args (junk s) ps) s) (\<lambda>(ret, s1). done_with (?r\<lparr>r_eax := ret\<rparr>, s1))"
    using st(2) by (simp add: syscall_handler_def n lt u syscalls_length defn_syscall_args)
  then show ?thesis using st(1,3)
    by (auto simp: usys_def and_then_def done_with_def split: option.splits sum.splits prod.splits)
qed

text \<open>Where the stubs lead: \<open>open\<close> to \<open>write\<close> to their own functions, the later ones to the function one place further up in the table.\<close>

lemma call_of_stubs:
  "call_of ''exit'' = Some ''exit''" "call_of ''open'' = Some ''open''" "call_of ''close'' = Some ''close''"
  "call_of ''read'' = Some ''read''" "call_of ''write'' = Some ''write''" "call_of ''mkdir'' = Some ''chdir''"
  "call_of ''chdir'' = Some ''chroot''" "call_of ''chroot'' = Some ''mount''" "call_of ''mount'' = Some ''unmount''"
  "call_of ''unmount'' = Some ''getpid''" "call_of ''getpid'' = Some ''fexecve''" "call_of ''fspawn'' = Some ''create_thread''"
  "call_of ''wait'' = Some ''kill''" "call_of ''kill'' = Some ''send_msg''" "call_of ''send_msg'' = Some ''get_msg''"
  "call_of ''get_msg'' = Some ''kputs''"
  by (simp_all add: call_of_def user_stubs_def reaches_def syscalls_def)

lemmas usys_calls = usys_runs call_of_stubs

lemma call_args_simps [simp]:
  "call_args r [] = [r_ebx r, r_ecx r, r_edx r, r_esi r, r_edi r]" "call_args r [a] = [a, r_ecx r, r_edx r, r_esi r, r_edi r]"
  "call_args r [a, b] = [a, b, r_edx r, r_esi r, r_edi r]" "call_args r [a, b, c] = [a, b, c, r_esi r, r_edi r]"
  "call_args r [a, b, c, d] = [a, b, c, d, r_edi r]"
  by (simp_all add: call_args_def defn_syscall_def Let_def)

definition demo_regs :: registers_t where
  "demo_regs = \<lparr>r_ds = 0x23, r_edi = 1, r_esi = 2, r_ebp = 3, r_esp = 4, r_ebx = 5, r_edx = 6, r_ecx = 7, r_eax = 8, r_int_no = 0x50, r_err_code = 0,
     r_eip = 0, r_cs = 0x1b, r_eflags = 0, r_useresp = 0, r_ss = 0x23\<rparr>"

section \<open>The calls of the file system\<close>

definition string_at :: "mem \<Rightarrow> u32 \<Rightarrow> string option" where
  "string_at m p = map_option (\<lambda>l. chars_at m p (unat l)) (strlen m p)"

definition text_chars :: "u8 list \<Rightarrow> string" where
  "text_chars = map (\<lambda>c. char_of (unat c))"

definition ascii :: "string \<Rightarrow> u8 list" where
  "ascii = map (\<lambda>c. of_nat (of_char c))"

lemma text_chars_ascii [simp]: "text_chars (ascii t) = t"
  by (simp add: text_chars_def ascii_def o_def unat_of_nat char_of_take_bit_eq)

lemma ascii_inj [simp]: "ascii a = ascii b \<longleftrightarrow> a = b"
  by (metis text_chars_ascii)

lemma string_at_cstr: "cstr m p t \<Longrightarrow> length t < 2 ^ 32 \<Longrightarrow> string_at m p = Some (text_chars t)"
  using strlen_cstr [of m p t] by (auto simp: string_at_def text_chars_def chars_at_def cstr_iff intro!: nth_equalityI)

type_synonym 'a prog = "ramfs vfs \<times> 'a"

abbreviation pmem :: "'a prog \<Rightarrow> mem" where
  "pmem s \<equiv> vmem (fst s)"

text \<open>A string of the program, a path for instance; one without end is never read to its end.\<close>

definition with_string :: "mem \<Rightarrow> u32 \<Rightarrow> (string \<Rightarrow> 'b run) \<Rightarrow> 'b run" where
  "with_string m p f = (case string_at m p of None \<Rightarrow> None | Some path \<Rightarrow> f path)"

lemma with_string_cstr: "cstr m p t \<Longrightarrow> length t < 2 ^ 32 \<Longrightarrow> with_string m p f = f (text_chars t)"
  by (simp add: with_string_def string_at_cstr)

definition put_mem :: "mem \<Rightarrow> ramfs vfs \<Rightarrow> ramfs vfs" where
  "put_mem m v = v\<lparr>v_data := (v_data v)\<lparr>bytes := m\<rparr>\<rparr>"

text \<open>
  The entries of the table that are functions of the file system and return a number; \<open>other\<close> is the rest of the table.
  \<open>mkdir\<close> leaves the zero it has cut the path with.
\<close>

definition file_calls :: "'a prog fn_table \<Rightarrow> 'a prog fn_table" where
  "file_calls other name ps s =
    (let v = fst s; m = vmem v; ret = (\<lambda>(v1, e :: int). done_with (of_int e, (v1, snd s))); retu = (\<lambda>(v1, n :: u32). done_with (n, (v1, snd s)))
     in if name = ''open'' then with_string m (ps ! 0) (\<lambda>path. and_then (vfs_open ramfs_ops path (ps ! 1) v) ret)
        else if name = ''close'' then and_then (vfs_close ramfs_ops (ps ! 0) v) ret
        else if name = ''read'' then and_then (vfs_read ramfs_ops (ps ! 0) (ps ! 1) (ps ! 2) v) retu
        else if name = ''write'' then and_then (vfs_write ramfs_ops (ps ! 0) (ps ! 1) (ps ! 2) v) retu
        else if name = ''lseek'' then ret (lseek (ps ! 0) (ps ! 1) (sint (ps ! 2)) v)
        else if name = ''mkdir'' then with_string m (ps ! 0) (\<lambda>path. and_then (mkdir ramfs_ops path (ps ! 1) v) (\<lambda>(v1, left, e).
               ret (put_mem ((vmem v1)(ps ! 0 + of_nat (length left) := 0)) v1, e)))
        else if name = ''chdir'' then with_string m (ps ! 0) (\<lambda>path. and_then (chdir ramfs_ops path v) ret)
        else if name = ''chroot'' then with_string m (ps ! 0) (\<lambda>path. and_then (chroot ramfs_ops path v) ret)
        else if name = ''mount'' then with_string m (ps ! 0) (\<lambda>type. with_string m (ps ! 1) (\<lambda>dir. and_then (mount ramfs_ops type dir v) ret))
        else if name = ''unmount'' then with_string m (ps ! 0) (\<lambda>dir. ret (v, unmount dir (ps ! 1)))
        else other name ps s)"

text \<open>The files do not depend on the memory.\<close>

lemma ramfs_tree_bytes [simp]: "ramfs_tree (r\<lparr>bytes := m\<rparr>) D = ramfs_tree r D"
  by (simp add: ramfs_tree_def dir_is_def node_is_def ramfs_ok_def dirs_ok_def names_ok_def listing_def)

lemma ramfs_get_info_bytes [simp]: "ramfs_get_info nd (r\<lparr>bytes := m\<rparr>) = ramfs_get_info nd r"
  by (simp add: ramfs_get_info_def ramfs_get_file_h_def Let_def split: option.split)

end
