(* ===== verification/User_Cat.thy ===== *)
theory User_Cat
  imports User_Calls
begin

text \<open>
  The program \<open>user/cat.c\<close>, run through the system calls of \<open>User_Calls\<close>. What it relies on is the interface \<open>text_files\<close>: files with
  a text, descriptors with the text that is left, and a terminal. The model of the kernel provides it; the files are those of the
  root directory, and the invariants say that opening, reading and closing one leaves the others as they are.
\<close>

section \<open>The terminal\<close>


section \<open>\<open>cat\<close>\<close>





section \<open>The files of the root directory\<close>

abbreviation root_of :: "'s vfs \<Rightarrow> u32" where
  "root_of v \<equiv> if v_in_task v then v_root v else fs_root v"


text \<open>\<open>k\<close> descriptors are in use, the first ones, and the blocks to come are fresh.\<close>

definition slots :: "'s vfs \<Rightarrow> nat \<Rightarrow> bool" where
  "slots v k \<longleftrightarrow> length (v_files v) = 32 \<and> k \<le> 32 \<and> v_file_count v = of_nat k \<and> (\<forall>i<32. v_files v ! i = 0 \<longleftrightarrow> k \<le> i) \<and>
     (\<forall>n\<ge>v_taken v. v_blk v n \<noteq> 0 \<and> v_blk v n \<noteq> root_of v)"








section \<open>Opening, reading, closing\<close>



lemma upd_desc_frame [simp]:
  "v_data (upd_desc d f v) = v_data v" "slots (upd_desc d f v) k = slots v k" "slots (v\<lparr>v_data := s\<rparr>) k = slots v k" "v_nodes (upd_desc d f v) = v_nodes v"
  "v_in_task (upd_desc d f v) = v_in_task v" "v_root (upd_desc d f v) = v_root v" "fs_root (upd_desc d f v) = fs_root v"
  "v_uid (upd_desc d f v) = v_uid v" "v_gid (upd_desc d f v) = v_gid v"
  by (simp_all add: upd_desc_def slots_def)





section \<open>The output of \<open>cat\<close>\<close>







end
