(* ===== verification/User_Shell.thy ===== *)
theory User_Shell
  imports User_Calls Shell User_Programs
begin

text \<open>
  The shell of the programs, \<open>user/shell.c\<close>: its commands, which go through the stubs of \<open>User_Calls\<close>, the table of the commands and
  one round of the prompt, on the line editor and the cutting of \<open>Shell\<close>. A command gets the addresses of its arguments; its
  result is the state, what is printed and the value returned. The lemmas show where the commands end up in the kernel.
\<close>

section \<open>Output\<close>

definition usays :: "string \<Rightarrow> string \<Rightarrow> va list \<Rightarrow> string run" where
  "usays out format args = Some (map_sum id (\<lambda>o1. out @ concat o1) (uprintf format args))"

lemma kvfprintf_plain: "CHR ''%'' \<notin> set format \<Longrightarrow> kvfprintf format args = Inr (map (\<lambda>c. [c]) format)"
  by (induction format) auto

lemma usays_plain [simp]: "CHR ''%'' \<notin> set format \<Longrightarrow> usays out format args = done_with (out @ format)"
  by (simp add: usays_def uprintf_def kvfprintf_plain done_with_def concat_map_singleton)

section \<open>Commands\<close>

type_synonym 'a ucommand = "('a prog \<times> string \<times> int) run"

text \<open>Commands on files.\<close>

definition ush_cd :: "'a prog fn_table \<Rightarrow> ('a prog \<Rightarrow> registers_t) \<Rightarrow> u32 \<Rightarrow> u32 list \<Rightarrow> 'a prog \<Rightarrow> 'a ucommand" where
  "ush_cd fns junk slash argv s =
    and_then (usys fns junk ''chdir'' [if length argv > 1 then argv ! 1 else slash] s) (\<lambda>(_, s1). done_with (s1, [], 0))"

definition ush_mkdir :: "'a prog fn_table \<Rightarrow> ('a prog \<Rightarrow> registers_t) \<Rightarrow> u32 list \<Rightarrow> 'a prog \<Rightarrow> 'a ucommand" where
  "ush_mkdir fns junk argv s =
    (if length argv < 2 then done_with (s, [], 1)
     else and_then (usys fns junk ''mkdir'' [argv ! 1, 0x1ff] s) (\<lambda>(ret, s1).
       if ret \<noteq> 0 then done_with (s1, ''Could not make directory'' @ nl, 1) else done_with (s1, [], 0)))"

definition ush_mount :: "'a prog fn_table \<Rightarrow> ('a prog \<Rightarrow> registers_t) \<Rightarrow> u32 list \<Rightarrow> 'a prog \<Rightarrow> 'a ucommand" where
  "ush_mount fns junk argv s =
    (if length argv < 3 then done_with (s, [], 1)
     else and_then (usys fns junk ''mount'' [argv ! 1, argv ! 2, 0, 0] s) (\<lambda>(ret, s1).
       if ret \<noteq> 0 then done_with (s1, ''Could not mount'' @ nl, 1) else done_with (s1, [], 0)))"

definition ush_unmount :: "'a prog fn_table \<Rightarrow> ('a prog \<Rightarrow> registers_t) \<Rightarrow> u32 list \<Rightarrow> 'a prog \<Rightarrow> 'a ucommand" where
  "ush_unmount fns junk argv s =
    (if length argv < 2 then done_with (s, [], 1)
     else and_then (usys fns junk ''unmount'' [argv ! 1, 0] s) (\<lambda>(ret, s1).
       if ret \<noteq> 0 then done_with (s1, ''Could not unmount'' @ nl, 1) else done_with (s1, [], 0)))"

definition ush_chroot :: "'a prog fn_table \<Rightarrow> ('a prog \<Rightarrow> registers_t) \<Rightarrow> u32 \<Rightarrow> u32 list \<Rightarrow> 'a prog \<Rightarrow> 'a ucommand" where
  "ush_chroot fns junk slash argv s =
    (if length argv < 2 then done_with (s, [], 1)
     else and_then (usys fns junk ''chroot'' [argv ! 1] s) (\<lambda>(ret, s1).
       if ret \<noteq> 0 then done_with (s1, ''Could not change root'' @ nl, 1)
       else and_then (usys fns junk ''chdir'' [slash] s1) (\<lambda>(ret, s2). done_with (s2, [], sint ret))))"

definition ush_write :: "'a prog fn_table \<Rightarrow> ('a prog \<Rightarrow> registers_t) \<Rightarrow> u32 list \<Rightarrow> 'a prog \<Rightarrow> 'a ucommand" where
  "ush_write fns junk argv s =
    (if length argv < 3 then done_with (s, [], 1)
     else and_then (usys fns junk ''open'' [argv ! 1, O_CREAT] s) (\<lambda>(fp, s1).
       and_then (usays [] (''Got fd %d'' @ nl) [VInt fp]) (\<lambda>out.
         if fp = - 1 then done_with (s1, out @ ''File not found'' @ nl, 1)
         else case strlen (pmem s1) (argv ! 2) of None \<Rightarrow> None
           | Some l \<Rightarrow> and_then (usys fns junk ''write'' [fp, argv ! 2, l] s1) (\<lambda>(bytes, s2).
               if sint bytes < 0 then done_with (s2, out @ ''Could not write to file'' @ nl, 1)
               else and_then (usys fns junk ''close'' [fp] s2) (\<lambda>(_, s3). done_with (s3, out, 0))))))"

text \<open>\<open>buf\<close> is the block of 512 bytes from \<open>malloc\<close>.\<close>

definition ush_read :: "'a prog fn_table \<Rightarrow> ('a prog \<Rightarrow> registers_t) \<Rightarrow> u32 \<Rightarrow> u32 list \<Rightarrow> 'a prog \<Rightarrow> 'a ucommand" where
  "ush_read fns junk buf argv s =
    (if length argv < 2 then done_with (s, [], 1)
     else and_then (usys fns junk ''open'' [argv ! 1, 0] s) (\<lambda>(fp, s1).
       and_then (usays [] (''Got fd %d'' @ nl) [VInt fp]) (\<lambda>out.
         if fp = - 1 then done_with (s1, out @ ''File not found'' @ nl, 1)
         else and_then (usys fns junk ''read'' [fp, buf, 512] s1) (\<lambda>(bytes, s2).
           if sint bytes < 0 then done_with (s2, out @ ''Could not read file'' @ nl, 1)
           else with_string (pmem s2) buf (\<lambda>t. and_then (usys fns junk ''close'' [fp] s2) (\<lambda>(_, s3). done_with (s3, out @ t @ nl, 0)))))))"

partial_function (option) ucat_loop :: "'a prog fn_table \<Rightarrow> ('a prog \<Rightarrow> registers_t) \<Rightarrow> u32 \<Rightarrow> u32 \<Rightarrow> string \<Rightarrow> 'a prog \<Rightarrow> ('a prog \<times> string) run" where
  "ucat_loop fns junk fp buf out s =
    and_then (usys fns junk ''read'' [fp, buf, 512] s) (\<lambda>r.
      if sint (fst r) < 1 then done_with (snd r, out)
      else ucat_loop fns junk fp buf (out @ chars_at (pmem (snd r)) buf (unat (fst r))) (snd r))"

definition ush_cat :: "'a prog fn_table \<Rightarrow> ('a prog \<Rightarrow> registers_t) \<Rightarrow> u32 \<Rightarrow> u32 list \<Rightarrow> 'a prog \<Rightarrow> 'a ucommand" where
  "ush_cat fns junk buf argv s =
    (if length argv < 2 then done_with (s, [], 1)
     else and_then (usys fns junk ''open'' [argv ! 1, 0] s) (\<lambda>(fp, s1).
       if sint fp < 0 then done_with (s1, ''Could not open file'' @ nl, 1)
       else and_then (ucat_loop fns junk fp buf [] s1) (\<lambda>(s2, out).
         and_then (usys fns junk ''close'' [fp] s2) (\<lambda>(_, s3). done_with (s3, out, 0)))))"

text \<open>Commands on processes and messages. A message is four words: type, sender, size and address of its buffer.\<close>

definition put_word :: "u32 \<Rightarrow> u32 \<Rightarrow> 'a prog \<Rightarrow> 'a prog" where
  "put_word a w s = (put_mem (store32 (pmem s) a w) (fst s), snd s)"

definition ush_ps :: "'a prog fn_table \<Rightarrow> ('a prog \<Rightarrow> registers_t) \<Rightarrow> 'a prog \<Rightarrow> 'a ucommand" where
  "ush_ps fns junk s =
    and_then (usys fns junk ''getpid'' [] s) (\<lambda>(pid, s1).
      and_then (usays [] (''Calling pid: %d'' @ nl) [VInt pid]) (\<lambda>out. done_with (s1, out, 0)))"

definition ush_msg :: "'a prog fn_table \<Rightarrow> ('a prog \<Rightarrow> registers_t) \<Rightarrow> u32 \<Rightarrow> u32 list \<Rightarrow> 'a prog \<Rightarrow> 'a ucommand" where
  "ush_msg fns junk buf argv s =
    (if length argv < 2 then done_with (s, [], 1)
     else and_then (usys fns junk ''getpid'' [] (put_word buf 1 s)) (\<lambda>(pid, s1).
       let s2 = put_word (buf + 4) pid s1
       in and_then (if length argv > 2 then with_string (pmem s2) (argv ! 2) (\<lambda>t. done_with (put_word buf (atoi t) s2)) else done_with s2) (\<lambda>s3.
            with_string (pmem s3) (argv ! 1) (\<lambda>t. and_then (usys fns junk ''send_msg'' [atoi t, buf] s3) (\<lambda>(r, s4).
              let res = (ucast r :: u8)
              in done_with (s4, if res \<noteq> 0 then ''Could not send message: '' @ (if res = 1 then ''pid doesn't exist'' else ''pid is not listening'') @ nl
                   else ''Sent message'' @ nl, 0))))))"

definition ush_getmsg :: "'a prog fn_table \<Rightarrow> ('a prog \<Rightarrow> registers_t) \<Rightarrow> u32 \<Rightarrow> 'a prog \<Rightarrow> 'a ucommand" where
  "ush_getmsg fns junk msg s =
    and_then (usys fns junk ''get_msg'' [3, msg] s) (\<lambda>(r, s1).
      if r = 0 then
        and_then (usays [] (''Got message 0x%x from pid %d'' @ nl) [VInt (load32 (pmem s1) msg), VInt (load32 (pmem s1) (msg + 4))]) (\<lambda>out.
          done_with (s1, out, 0))
      else done_with (s1, ''No messages in queue.'' @ nl, 0))"

definition ush_kill :: "'a prog fn_table \<Rightarrow> ('a prog \<Rightarrow> registers_t) \<Rightarrow> u32 list \<Rightarrow> 'a prog \<Rightarrow> 'a ucommand" where
  "ush_kill fns junk argv s =
    (if length argv < 2 then done_with (s, [], 1)
     else with_string (pmem s) (argv ! 1) (\<lambda>t. and_then (usys fns junk ''kill'' [atoi t, 8] s) (\<lambda>(r, s1).
       done_with (s1, if (ucast r :: u8) \<noteq> 0 then ''Could not kill pid'' @ nl else [], 0))))"

text \<open>The rest: numbers, the arguments, the names of the commands.\<close>

definition ush_atoi :: "u32 list \<Rightarrow> 'a prog \<Rightarrow> 'a ucommand" where
  "ush_atoi argv s =
    (if length argv < 2 then done_with (s, [], 0)
     else with_string (pmem s) (argv ! 1) (\<lambda>t. and_then (usays [] (''%d'' @ nl) [VInt (atoi t)]) (\<lambda>out. done_with (s, out, 0))))"

fun show_args :: "mem \<Rightarrow> nat \<Rightarrow> u32 list \<Rightarrow> string \<Rightarrow> string run" where
  "show_args m i [] out = done_with out"
| "show_args m i (a # as) out =
    with_string m a (\<lambda>t. and_then (usays out (''arg %d: %s'' @ nl) [VInt (of_nat i), VStr t]) (show_args m (i + 1) as))"

text \<open>The machine code in \<open>sysc_test\<close> makes the call with number 0.\<close>

definition ush_test :: "'a prog fn_table \<Rightarrow> ('a prog \<Rightarrow> registers_t) \<Rightarrow> u32 list \<Rightarrow> 'a prog \<Rightarrow> 'a ucommand" where
  "ush_test fns junk argv s =
    and_then (usys fns junk ''cls'' [] s) (\<lambda>(_, s1). and_then (show_args (pmem s1) 0 argv []) (\<lambda>out. done_with (s1, out, 0)))"

fun help_rows :: "mem \<Rightarrow> nat \<Rightarrow> u32 list \<Rightarrow> string \<Rightarrow> string run" where
  "help_rows m i [] out = done_with (out @ nl)"
| "help_rows m i (p # ps) out =
    with_string m p (\<lambda>t. and_then (usays out (tab @ ''%s'') [VStr t]) (\<lambda>out1.
      help_rows m (i + 1) ps (if (i + 1) mod 6 = 0 \<and> i \<noteq> 0 then out1 @ nl else out1)))"

definition ush_help :: "u32 list \<Rightarrow> 'a prog \<Rightarrow> 'a ucommand" where
  "ush_help names s =
    and_then (help_rows (pmem s) 0 names (''obsidian shell v0.2'' @ nl @ ''commands availible:'' @ nl)) (\<lambda>out. done_with (s, out, 0))"

section \<open>The table of the commands\<close>

text \<open>A function of the table gets \<open>argc\<close> and the address of the table of arguments.\<close>

type_synonym 'a ufunc = "u32 \<Rightarrow> u32 \<Rightarrow> 'a prog \<Rightarrow> 'a ucommand"

definition argv_of :: "u32 \<Rightarrow> u32 \<Rightarrow> 'a prog \<Rightarrow> u32 list" where
  "argv_of argc argv s = map (\<lambda>i. load32 (pmem s) (argv + 4 * of_nat i)) [0..<unat argc]"

definition with_argv :: "(u32 list \<Rightarrow> 'a prog \<Rightarrow> 'a ucommand) \<Rightarrow> 'a ufunc" where
  "with_argv f argc argv s = f (argv_of argc argv s) s"

definition uregister :: "u32 \<Rightarrow> 'a ufunc option \<Rightarrow> (u32 \<times> 'a ufunc option) list \<Rightarrow> (u32 \<times> 'a ufunc option) list" where
  "uregister name f commands = commands @ [(name, f)]"

text \<open>
  \<open>init_shell\<close>: \<open>lit\<close> gives the addresses of the string constants, \<open>buf\<close> those of the blocks the commands get from \<open>malloc\<close>.
  What \<open>alloc\<close> does, which prints an address that is not initialised, is an argument.
\<close>

definition ucommand_names :: "string list" where
  "ucommand_names = [''cd'', ''write'', ''read'', ''mkdir'', ''help'', ''test'', ''atoi'', ''alloc'', ''msg'', ''kill'', ''getmsg'', ''cat'', ''mount'',
     ''unmount'', ''chroot'']"

definition init_ushell :: "'a prog fn_table \<Rightarrow> ('a prog \<Rightarrow> registers_t) \<Rightarrow> (string \<Rightarrow> u32) \<Rightarrow> u32 \<Rightarrow> 'a ufunc \<Rightarrow> (u32 \<times> 'a ufunc option) list" where
  "init_ushell fns junk lit buf sh_alloc =
    fold (\<lambda>(name, f). uregister (lit name) (Some f))
      [(''cd'', with_argv (ush_cd fns junk (lit ''/''))), (''write'', with_argv (ush_write fns junk)), (''read'', with_argv (ush_read fns junk buf)),
       (''mkdir'', with_argv (ush_mkdir fns junk)), (''help'', with_argv (\<lambda>_. ush_help (map lit ucommand_names))),
       (''test'', with_argv (ush_test fns junk)), (''atoi'', with_argv ush_atoi), (''alloc'', sh_alloc), (''msg'', with_argv (ush_msg fns junk buf)),
       (''kill'', with_argv (ush_kill fns junk)), (''getmsg'', with_argv (\<lambda>_. ush_getmsg fns junk buf)), (''cat'', with_argv (ush_cat fns junk buf)),
       (''mount'', with_argv (ush_mount fns junk)), (''unmount'', with_argv (ush_unmount fns junk)), (''chroot'', with_argv (ush_chroot fns junk (lit ''/'')))] []"

text \<open>The search of the table; every entry with the name is called.\<close>

fun ufind :: "(u32 \<times> 'a ufunc option) list \<Rightarrow> u32 \<Rightarrow> u32 \<Rightarrow> bool \<Rightarrow> 'a prog \<Rightarrow> string \<Rightarrow> (bool \<times> 'a prog \<times> string) run" where
  "ufind [] args arg_no cmd_found s out = done_with (cmd_found, s, out)"
| "ufind ((name, function) # commands) args arg_no cmd_found s out =
    (case function of None \<Rightarrow> ufind commands args arg_no cmd_found s out
     | Some f \<Rightarrow>
         if name = 0 then ufind commands args arg_no cmd_found s out
         else (case strcmp (pmem s) (load32 (pmem s) args) name of None \<Rightarrow> None
               | Some r \<Rightarrow> if r = 0 then and_then (f arg_no args s) (\<lambda>(s1, o1, _). ufind commands args arg_no True s1 (out @ o1))
                           else ufind commands args arg_no cmd_found s out))"

section \<open>A round of the prompt\<close>

datatype shell_end = Shell_Exits | Shell_Prompts

text \<open>A line that is no command is opened as a file and started; \<open>ret\<close> is the address of the status.\<close>

definition start_program :: "'a prog fn_table \<Rightarrow> ('a prog \<Rightarrow> registers_t) \<Rightarrow> u32 \<Rightarrow> u32 \<Rightarrow> 'a prog \<Rightarrow> string \<Rightarrow> ('a prog \<times> string) run" where
  "start_program fns junk args ret s out =
    (let unknown = (\<lambda>s1. with_string (pmem s1) (load32 (pmem s1) args) (\<lambda>t.
           and_then (usays out (''Unknown command: '' @ [CHR 0x22] @ ''%s'' @ [CHR 0x22] @ nl) [VStr t]) (\<lambda>out1. done_with (s1, out1))))
     in and_then (usys fns junk ''open'' [load32 (pmem s) args, 1] s) (\<lambda>(i, s1).
          if sint i < 0 then unknown s1
          else and_then (usys fns junk ''fspawn'' [i, args, 0] s1) (\<lambda>(r, s2).
            if r \<noteq> 0 then unknown s2
            else and_then (usys fns junk ''wait'' [ret] s2) (\<lambda>(_, s3). and_then (usys fns junk ''close'' [i] s3) (\<lambda>(_, s4). done_with (s4, out))))))"

definition PS1 :: string where
  "PS1 = [CHR 0x12] @ ''shell'' @ [CHR 0x18] @ ''@'' @ [CHR 0x17] @ ''kernel # ''"

definition set_pmem :: "mem \<Rightarrow> 'a prog \<Rightarrow> 'a prog" where
  "set_pmem m s = (put_mem m (fst s), snd s)"

lemma put_mem_facts [simp]: "v_data (put_mem m v) = (v_data v)\<lparr>bytes := m\<rparr>" "pmem (set_pmem m s) = m" "fst (set_pmem m s) = put_mem m (fst s)"
  "snd (set_pmem m s) = snd s"
  by (simp_all add: put_mem_def set_pmem_def)

text \<open>One round of the loop of \<open>kshell\<close>; \<open>inp\<close> are the bytes that are read.\<close>

definition ushell_round :: "'a prog fn_table \<Rightarrow> ('a prog \<Rightarrow> registers_t) \<Rightarrow> (string \<Rightarrow> u32) \<Rightarrow> (u32 \<times> 'a ufunc option) list \<Rightarrow> (nat \<Rightarrow> u8) \<Rightarrow>
    u32 \<Rightarrow> u32 \<Rightarrow> u32 \<Rightarrow> 'a prog \<Rightarrow> (shell_end \<times> 'a prog \<times> string) run" where
  "ushell_round fns junk lit commands inp ret args cmd s =
    (case read_line inp cmd 0 0 (pmem s) [] of None \<Rightarrow> None
     | Some (n, i, m1, echo) \<Rightarrow>
       (case split_args args cmd m1 of None \<Rightarrow> None
        | Some (arg_no, m2) \<Rightarrow>
          and_then (ufind commands args arg_no False (set_pmem m2 s) (PS1 @ text_chars echo)) (\<lambda>(cmd_found, s1, out).
            case strcmp (pmem s1) (load32 (pmem s1) args) (lit ''exit'') of None \<Rightarrow> None
            | Some r \<Rightarrow>
                if r = 0 then and_then (usys fns junk ''exit'' [0] s1) (\<lambda>(_, s2). done_with (Shell_Exits, s2, out))
                else if cmd_found then done_with (Shell_Prompts, s1, out)
                else case strlen (pmem s1) (load32 (pmem s1) args) of None \<Rightarrow> None
                  | Some l \<Rightarrow>
                      if l = 0 then done_with (Shell_Prompts, s1, out)
                      else and_then (start_program fns junk args ret s1 out) (\<lambda>(s2, out1). done_with (Shell_Prompts, s2, out1)))))"

section \<open>Where the commands end up\<close>

lemma open_without_flags:
  assumes "vfs_open ops path 0 v = done_with (w, e)"
  shows "e = - EPERM \<or> e = - EACCES"
proof -
  have "\<not> good_op 0 p" for p by (simp add: good_op_def)
  then show ?thesis using assms
    by (auto simp: vfs_open_def open_node_def check_perms_def Let_def and_then_done split: if_splits)
qed

lemma chroot_keeps: "chroot ops path v = done_with (w, e) \<Longrightarrow> v_data w = v_data v"
  by (auto simp: chroot_def and_then_done set_node_def split: if_splits option.splits)

text \<open>
  With the numbers of the stubs, \<open>cd\<close> changes the root, \<open>mkdir\<close> the working directory, \<open>mount\<close> reaches \<open>unmount\<close>, which always
  fails; and \<open>cat\<close> opens its file without a flag, which no permission allows.
\<close>

lemma ush_cd_is_chroot:
  assumes "cstr (pmem s) p path" "length path < 2 ^ 32"
  shows "ush_cd (file_calls other) junk slash [c, p] s =
    and_then (chroot ramfs_ops (text_chars path) (fst s)) (\<lambda>(v1, _). done_with ((v1, snd s), [], 0))"
  by (simp add: ush_cd_def usys_calls file_calls_def Let_def with_string_cstr [OF assms] and_then_assoc case_prod_beta')

lemma ush_mkdir_is_chdir:
  assumes "cstr (pmem s) p path" "length path < 2 ^ 32"
  shows "ush_mkdir (file_calls other) junk [c, p] s =
    and_then (chdir ramfs_ops (text_chars path) (fst s)) (\<lambda>(v1, e).
      if (of_int e :: u32) \<noteq> 0 then done_with ((v1, snd s), ''Could not make directory'' @ nl, 1) else done_with ((v1, snd s), [], 0))"
  by (simp add: ush_mkdir_def usys_calls file_calls_def Let_def with_string_cstr [OF assms] and_then_assoc case_prod_beta' cong del: if_weak_cong)

lemma ush_mount_fails:
  assumes "cstr (pmem s) p path" "length path < 2 ^ 32"
  shows "ush_mount (file_calls other) junk [c, p, q] s = done_with (s, ''Could not mount'' @ nl, 1)"
  by (simp add: ush_mount_def usys_calls file_calls_def Let_def with_string_cstr [OF assms] unmount_def)

lemma ush_cat_refused:
  assumes "ush_cat (file_calls other) junk buf [c, p] s = done_with (s', out, r)"
  shows "out = ''Could not open file'' @ nl \<and> r = 1"
proof -
  obtain path v1 e where o: "vfs_open ramfs_ops path 0 (fst s) = done_with (v1, e)"
    "usys (file_calls other) junk ''open'' [p, 0] s = done_with (of_int e, (v1, snd s))"
    using assms by (auto simp: ush_cat_def usys_calls file_calls_def Let_def with_string_def and_then_done done_with_eq(2) [symmetric] split: option.splits)
  then have "sint (of_int e :: u32) < 0" using open_without_flags [OF o(1)] by auto
  then show ?thesis using assms o(2) by (simp add: ush_cat_def)
qed

lemma ufind_others:
  "(\<forall>(name, f)\<in>set cs. f = None \<or> name = 0 \<or> (\<exists>t. cstr (pmem s) name t \<and> length t < 2 ^ 32 \<and> t \<noteq> w)) \<Longrightarrow>
    cstr (pmem s) (load32 (pmem s) args) w \<Longrightarrow> length w < 2 ^ 32 \<Longrightarrow>
    ufind (cs @ ds) args n found s out = ufind ds args n found s out"
proof (induction cs)
  case (Cons c cs)
  then have IH: "ufind (cs @ ds) args n found s out = ufind ds args n found s out" by auto
  obtain name f where c: "c = (name, f)" by (cases c)
  show ?case
  proof (cases "f = None \<or> name = 0")
    case False
    then obtain t where "cstr (pmem s) name t" "length t < 2 ^ 32" "t \<noteq> w" using Cons.prems(1) c by auto
    then obtain r where "strcmp (pmem s) (load32 (pmem s) args) name = Some r" "r \<noteq> 0"
      using strcmp_zero_iff [OF Cons.prems(2) _ Cons.prems(3)] by blast
    then show ?thesis using IH False c by auto
  qed (use IH c in \<open>auto split: option.split\<close>)
qed simp

text \<open>
  C37. A typed \<open>cd\<close> changes the root: whatever backspaces were typed on the way, the line \<open>cd path\<close>, of at most 128 characters at any
  time, at the prompt of the programs' shell is cut, looked up in its table and sent through the stub, which calls the kernel's
  \<open>chroot\<close> with the path, where \<open>chdir\<close> was meant; no other command of the table runs, nothing but the prompt and the echo is
  printed, and the shell prompts again when \<open>chroot\<close> returns. The string constants of the shell lie apart from its line buffer and
  the table of arguments behind it.
\<close>

theorem typed_cd_changes_root:
  fixes s :: "'a prog" and cmd args :: u32
  defines "B \<equiv> unat (args - cmd) + 12"
  assumes keys: "fits [] ks" "\<And>j. j < length ks \<Longrightarrow> inp j = ks ! j" "inp (length ks) = 10" "edited [] ks = line [Plain (ascii ''cd''), w]" "proper w"
    and args: "load32 (pmem s) args = cmd" "129 \<le> unat (args - cmd)" "B \<le> 2 ^ 32"
    and names: "\<forall>n\<in>set (''exit'' # ucommand_names). lit n \<noteq> 0 \<and> named (pmem s) cmd (unat (args - cmd)) B (lit n) (ascii n)"
  shows "\<exists>m. ushell_round (file_calls other) junk lit (init_ushell (file_calls other) junk lit buf sh_alloc) inp ret args cmd s =
    and_then (chroot ramfs_ops (text_chars (meant w)) (put_mem m (fst s))) (\<lambda>(v1, _).
      done_with (Shell_Prompts, (v1, snd s), PS1 @ text_chars (echoed [] ks @ [10])))"
proof -
  let ?A = "unat (args - cmd)" and ?ws = "[Plain (ascii ''cd''), w]" and ?fns = "file_calls other :: 'a prog fn_table"
  let ?L = "length (line ?ws)"
  have L: "?L \<le> 128" using fits_length [OF keys(1)] keys(4) by simp
  have pr: "\<forall>v\<in>set ?ws. proper v" using keys(5) by (simp add: ascii_def is_quote_def)
  obtain m1 where m1: "read_line inp cmd 0 0 (pmem s) [] = Some (length ks, of_nat ?L, m1, echoed [] ks @ [10])" "cstr m1 cmd (line ?ws)"
    "changed (pmem s) m1 cmd {0..<129}" using read_line_at [of ks inp cmd "pmem s"] keys(1-4) by auto
  have "same_on (pmem s) m1 cmd ?A (?A + 4)" by (rule changed_same_on [OF m1(3)]) (use args(2,3) in \<open>auto simp: B_def\<close>)
  then have a1: "load32 m1 args = cmd" using same_on_load32 [of "pmem s" m1 cmd ?A "?A + 4" ?A] args(1) by simp
  obtain m2 where m2: "split_args args cmd m1 = Some (2, m2)"
    "\<forall>i\<le>length [w]. cstr m2 (load32 m2 (args + 4 * of_nat i)) (meant (?ws ! i))" "changed m1 m2 cmd ({0..<?L} \<union> {?A..<B})"
  proof -
    have "?L < ?A" "?A + 4 * length [w] + 8 \<le> 2 ^ 32" using L args(2,3) by (simp_all add: B_def)
    moreover have "of_nat (Suc (length [w])) = (2 :: u32)" "?A + 4 * length [w] + 8 = B" by (simp_all add: B_def)
    ultimately show thesis using split_args_cut [OF m1(2) pr a1] that by metis
  qed
  have ch: "changed (pmem s) m2 cmd ({0..<129} \<union> {?A..<B})" using m1(3) m2(3) by (rule changed_trans) (use L in auto)
  have nm: "cstr m2 (lit n) (ascii n)" if "n \<in> set (''exit'' # ucommand_names)" for n
    by (rule named_cstr [OF _ ch subset_refl]) (use names that unsigned_less [of "args - cmd"] in auto)
  have a: "cstr m2 (load32 m2 args) (ascii ''cd'')" "cstr m2 (load32 m2 (args + 4)) (meant w)"
    using m2(2) [rule_format, of 0] m2(2) [rule_format, of 1] by simp_all
  have lw: "length (meant w) < 2 ^ 32" using L length_meant [of w "[]"] by simp
  have la: "length (ascii ''cd'') < 2 ^ 32" by (simp add: ascii_def)
  obtain rest where rest: "init_ushell ?fns junk lit buf sh_alloc = (lit ''cd'', Some (with_argv (ush_cd ?fns junk (lit ''/'')))) # rest"
    "fst ` set rest = lit ` set (tl ucommand_names)" by (simp add: init_ushell_def uregister_def ucommand_names_def)
  let ?v = "put_mem m2 (fst s)"
  have cd: "with_argv (ush_cd ?fns junk (lit ''/'')) 2 args (set_pmem m2 s) =
      and_then (chroot ramfs_ops (text_chars (meant w)) ?v) (\<lambda>(v1, _). done_with ((v1, snd s), [], 0))"
    using ush_cd_is_chroot [of "set_pmem m2 s" "load32 m2 (args + 4)" "meant w" other junk "lit ''/''" "load32 m2 args"] a(2) lw
    by (simp add: with_argv_def argv_of_def upt_rec)
  have z: "strcmp m2 (load32 m2 args) (lit ''cd'') = Some 0"
    using strcmp_zero_iff [OF a(1) nm [of "''cd''"] la la] by (auto simp: ucommand_names_def)
  have go: "ufind rest args 2 True (v1, snd s) out = done_with (True, (v1, snd s), out)" if "vmem v1 = m2" for v1 out
  proof -
    have "\<exists>t. cstr m2 name t \<and> length t < 2 ^ 32 \<and> t \<noteq> ascii ''cd''" if nf: "(name, f) \<in> set rest" for name f
    proof -
      obtain n where n: "n \<in> set (tl ucommand_names)" "name = lit n" using rest(2) nf by force
      then have "n \<noteq> ''cd''" "length (ascii n) < 2 ^ 32" by (auto simp: ucommand_names_def ascii_def)
      then show ?thesis using nm [of n] n by (intro exI [of _ "ascii n"]) (auto simp: ucommand_names_def)
    qed
    then show ?thesis using ufind_others [of rest "(v1, snd s)" "ascii ''cd''" args "[]" 2 True out] a(1) la that by auto
  qed
  obtain r where r: "strcmp m2 (load32 m2 args) (lit ''exit'') = Some r" "r \<noteq> 0"
    using strcmp_zero_iff [OF a(1) nm [of "''exit''"] la] by (auto simp: ascii_def)
  show ?thesis
  proof (intro exI [of _ m2])
    have n0: "lit ''cd'' \<noteq> 0" using names by (simp add: ucommand_names_def)
    have "vmem v1 = m2" if "chroot ramfs_ops (text_chars (meant w)) ?v = done_with (v1, e)" for v1 e using chroot_keeps [OF that] by simp
    then show "ushell_round ?fns junk lit (init_ushell ?fns junk lit buf sh_alloc) inp ret args cmd s =
      and_then (chroot ramfs_ops (text_chars (meant w)) ?v) (\<lambda>(v1, _). done_with (Shell_Prompts, (v1, snd s), PS1 @ text_chars (echoed [] ks @ [10])))"
      using m1(1) m2(1) rest(1) z n0 cd go r
      by (cases "chroot ramfs_ops (text_chars (meant w)) ?v" rule: run_cases) (auto simp: ushell_round_def)
  qed
qed

section \<open>A prompt\<close>

text \<open>The names of the commands lie in memory, 16 bytes apart; \<open>cd\<close> into the file of the demonstration disk, which becomes the root.\<close>

definition demo_names :: "string list" where
  "demo_names = ''exit'' # ucommand_names"

fun demo_place :: "string list \<Rightarrow> string \<Rightarrow> nat" where
  "demo_place [] n = 0"
| "demo_place (x # xs) n = (if x = n then 0 else Suc (demo_place xs n))"

definition demo_lit :: "string \<Rightarrow> u32" where
  "demo_lit n = 0x2000 + of_nat (16 * demo_place demo_names n)"

definition demo_lits :: mem where
  "demo_lits a = (let d = unat (a - 0x2000); t = ascii (demo_names ! (d div 16)) in if d < 256 \<and> d mod 16 < length t then t ! (d mod 16) else 0)"

definition demo_prompt :: mem where
  "demo_prompt = store32 demo_lits 0x1100 0x1000"

lemma demo_place_nth: "n \<in> set xs \<Longrightarrow> demo_place xs n < length xs \<and> xs ! demo_place xs n = n"
  by (induction xs) auto

lemma demo_names_facts: "length demo_names = 16" "n \<in> set demo_names \<Longrightarrow> length n < 16 \<and> 0 \<notin> set (ascii n)"
  by (auto simp: demo_names_def ucommand_names_def ascii_def)

lemma demo_lits_cstr:
  assumes "n \<in> set demo_names"
  shows "cstr demo_lits (demo_lit n) (ascii n)"
proof -
  let ?i = "demo_place demo_names n"
  have i: "?i < 16" "demo_names ! ?i = n" using demo_place_nth [OF assms] demo_names_facts(1) by simp_all
  have l: "length (ascii n) < 16" "0 \<notin> set (ascii n)" using demo_names_facts(2) [OF assms] by (auto simp: ascii_def)
  have at: "demo_lits (demo_lit n + of_nat k) = (if k < length (ascii n) then ascii n ! k else 0)" if "k < 16" for k
  proof -
    have "demo_lit n + of_nat k - 0x2000 = of_nat (16 * ?i + k)" by (simp add: demo_lit_def)
    moreover have "unat (of_nat (16 * ?i + k) :: u32) = 16 * ?i + k" by (rule unat_of_nat_lt32) (use i(1) that in simp)
    moreover have "(16 * ?i + k) div 16 = ?i" "(16 * ?i + k) mod 16 = k" "16 * ?i + k < 256" using that i(1) by simp_all
    ultimately show ?thesis using i(2) by (simp only: demo_lits_def Let_def) simp
  qed
  then show ?thesis using l by (auto simp: cstr_iff in_set_conv_nth)
qed

lemma demo_prompt_named:
  assumes "n \<in> set demo_names"
  shows "demo_lit n \<noteq> 0" "named demo_prompt 0x1000 0x100 0x10c (demo_lit n) (ascii n)"
proof -
  let ?i = "demo_place demo_names n"
  have i: "?i < 16" using demo_place_nth [OF assms] demo_names_facts(1) by simp
  have l: "length (ascii n) < 16" using demo_names_facts(2) [OF assms] by (simp add: ascii_def)
  have p: "demo_lit n = 0x1000 + of_nat (0x1000 + 16 * ?i)" by (simp add: demo_lit_def)
  have u: "unat (demo_lit n - 0x1000) = 0x1000 + 16 * ?i" unfolding p by (subst add_diff_cancel_left', rule unat_of_nat_lt32) (use i in simp)
  have "kept demo_lits demo_prompt 0x1000 0x100 0x104"
    using kept_store32 [of "0x100" demo_lits "0x1000" "0x1000"] by (simp add: demo_prompt_def)
  from kept_cstr [OF this demo_lits_cstr [OF assms, unfolded p]]
  have "cstr demo_prompt (0x1000 + of_nat (0x1000 + 16 * ?i)) (ascii n)" using l i by simp
  then show "named demo_prompt 0x1000 0x100 0x10c (demo_lit n) (ascii n)" unfolding named_def p [symmetric] u using i l by simp
  show "demo_lit n \<noteq> 0"
  proof
    assume "demo_lit n = 0"
    then have "unat (0 - 0x1000 :: u32) = 0x1000 + 16 * ?i" using u by simp
    then show False using i by simp
  qed
qed

theorem typed_cd_changes_root_witness:
  "\<exists>s'. ushell_round (file_calls (\<lambda>_ _ s. done_with (0, s))) (\<lambda>_. demo_regs) demo_lit (init_ushell (file_calls (\<lambda>_ _ s. done_with (0, s))) (\<lambda>_. demo_regs) demo_lit 0x30000 (\<lambda>_ _ s. done_with (s, [], 0))) (\<lambda>j. (ascii ''cd /disk'' @ [10]) ! j)
      0x40000 0x1100 0x1000 (put_mem demo_prompt (demo_disk_vfs (\<lambda>_. 0)), 7 :: nat) = done_with (Shell_Prompts, s', PS1 @ ''cd /disk'' @ nl) \<and>
    v_nodes (fst s') (v_root (fst s')) = \<lparr>n_inode = 2, n_fs = 0x7000\<rparr>"
proof -
  let ?v = "demo_disk_vfs (\<lambda>_. 0)"
  have k: "fits [] (ascii ''cd /disk'')" "edited [] (ascii ''cd /disk'') = line [Plain (ascii ''cd''), Plain (ascii ''/disk'')]"
    "echoed [] (ascii ''cd /disk'') = ascii ''cd /disk''" "length (ascii ''cd /disk'') = 8" "proper (Plain (ascii ''/disk''))"
    by (simp_all add: ascii_def edit_key_def is_quote_def)
  have nm: "\<forall>n\<in>set (''exit'' # ucommand_names). demo_lit n \<noteq> 0 \<and> named demo_prompt 0x1000 0x100 0x10c (demo_lit n) (ascii n)"
    using demo_prompt_named unfolding demo_names_def by blast
  have l: "load32 demo_prompt 0x1100 = 0x1000" by (simp add: demo_prompt_def)
  have n: "text_chars (ascii ''cd /disk'' @ [10]) = ''cd /disk'' @ nl"
  proof -
    have "ascii ''cd /disk'' @ [10] = ascii (''cd /disk'' @ nl)" by (simp add: ascii_def nl_def)
    then show ?thesis by (simp only: text_chars_ascii)
  qed
  obtain m where m: "ushell_round (file_calls (\<lambda>_ _ s. done_with (0, s))) (\<lambda>_. demo_regs) demo_lit (init_ushell (file_calls (\<lambda>_ _ s. done_with (0, s))) (\<lambda>_. demo_regs) demo_lit 0x30000 (\<lambda>_ _ s. done_with (s, [], 0)))
      (\<lambda>j. (ascii ''cd /disk'' @ [10]) ! j) 0x40000 0x1100 0x1000 (put_mem demo_prompt ?v, 7 :: nat) =
    and_then (chroot ramfs_ops ''/disk'' (put_mem m (put_mem demo_prompt ?v))) (\<lambda>(v1, _). done_with (Shell_Prompts, (v1, 7 :: nat), PS1 @ ''cd /disk'' @ nl))"
    using typed_cd_changes_root [of "ascii ''cd /disk''" "\<lambda>j. (ascii ''cd /disk'' @ [10]) ! j" "Plain (ascii ''/disk'')" "(put_mem demo_prompt ?v, 7 :: nat)" "0x1100" "0x1000"
      demo_lit "\<lambda>_ _ s. done_with (0, s)" "\<lambda>_. demo_regs" "0x30000" "\<lambda>_ _ s. done_with (s, [], 0)" "0x40000"] k nm l n
    by (auto simp: nth_append)
  let ?w = "put_mem m (put_mem demo_prompt ?v)"
  have rt: "\<lparr>n_inode = 1, n_fs = 0x7000\<rparr> = v_nodes ?w (if v_in_task ?w then v_root ?w else fs_root ?w)"
    by (simp add: put_mem_def demo_disk_vfs_def demo_vfs_facts)
  have "ramfs_tree (v_data ?w) [1 \<mapsto> [(''disk'', 2)]]" using demo_disk_tree by (simp add: demo_disk_vfs_def)
  from find_path_plain [OF this rt, of "[(''disk'', 2)]" "''disk''"]
  have "fs_find_path ramfs_ops ''/disk'' ?w = done_with (0, Some \<lparr>n_inode = 2, n_fs = 0x7000\<rparr>)" by simp
  then show ?thesis using m by (auto simp: chroot_def set_node_def)
qed

end
