(* ===== verification/Spec2Isabelle.thy ===== *)
theory Spec2Isabelle
  imports Stdio Symbols Paging Ipc Init_Tables Syscall Ramfs_Data Vfs_Descriptors Keyboard Console Process User_Alloc Shell Boot Ext2 Elf Shell_Commands User_Programs Tvi Init_Prompt Daemons User_Cat User_Shell
begin

text \<open>
  A verification development of the kernel in \<open>src/kern\<close> and of parts of the programs in \<open>src/user\<close>: a small 32-bit
  x86 operating system in C, with paging, a heap, tasks, messages, signals, a virtual file system over a memory file
  system, a keyboard, a text console, an ext2 reader, a loader of ELF programs and a shell.

  \<^bold>\<open>Conventions.\<close> Machine integers are words of their width (\<open>u8\<close>, \<open>u16\<close>, \<open>u32\<close> of \<open>Prelude\<close>), so wrap-around is part of
  every definition. Memory that the code reaches through byte or word pointers is a function from addresses to bytes
  (\<open>mem\<close>), read and written by \<open>load32\<close> and \<open>store32\<close>; structures that are only reached through typed pointers live in
  stores from addresses to records (tasks, messages, nodes, descriptors, list nodes). A routine that can fault returns
  \<open>'a exec\<close>, the \<open>fault\<close> or the result; one that may also run for ever returns \<open>'a run\<close>, where \<open>None\<close> means that it does
  not return. Loops without an evident bound are \<open>partial_function (option)\<close>, and the theorems about them state that
  the result is \<open>Some\<close>; loops over a count are recursive on a number, and no definition takes fuel: where a number of
  rounds is an argument (\<open>read_inode_loop\<close>, \<open>copy_args\<close>, \<open>find_free_node\<close>) it is the bound of the loop in the source. Blocks
  that the code gets from \<open>kmalloc\<close> are arguments of the operation, or come from the sequence \<open>blk\<close> of addresses of the
  file systems; the allocator has its own model in \<open>Pages\<close> and \<open>Alloc\<close>. Assembly (context switch, port I/O, loading of
  table registers) is represented by the effect the C code relies on, as fields of the state, and is named where it
  occurs. Interrupts arrive between the steps of a routine where the source waits for them, in \<open>get_in_char\<close>, whose reader is
  split into its accesses to the shared variables, and in \<open>get_msg\<close> between its read of the box and its \<open>cli\<close>. A \<open>PANIC\<close> ends a
  run, being a \<open>hlt\<close> with interrupts off; in the page fault handler, where they may be on again, it is told apart.

  \<^bold>\<open>Memory.\<close> \<open>Prelude\<close>, \<open>Cstring\<close> (\<open>kern/lib/string.c\<close>), \<open>Bytes\<close> and \<open>Blocks\<close> (words in memory, blocks by offset) are the
  base. \<open>Pages\<close> and \<open>Page_Dir\<close> hold the frame stack, the early allocator and the page tables of \<open>kern/mem/paging.c\<close>;
  \<open>Alloc\<close> the heap of \<open>kern/mem/alloc.c\<close> and the knot between the two: \<open>map_page\<close> allocates tables and the heap maps pages,
  so the mapping operations take the allocator as an argument and \<open>Alloc\<close> ties them. \<open>Paging\<close> has \<open>init_paging\<close> and the
  copies of directories, and shows that start-up maps the kernel to itself and leaves a working heap. The heap is a
  \<open>block_allocator\<close>, the frame stack a \<open>bounded_stack\<close> (locales, interpreted on the code's operations). \<open>Memmap\<close> is
  \<open>kern/mem/memmap.c\<close>.

  \<^bold>\<open>Tasks.\<close> \<open>Task\<close> has the task structures and the operations of \<open>kern/kern/task/task.c\<close>; \<open>Task_Queue\<close> shows that they keep a
  well-formed queue, as a \<open>process_table\<close>, and what killing its first task does to it; \<open>Scheduler\<close> that \<open>switch_task\<close> ends and is round robin; \<open>Process\<close> that
  \<open>create_process\<close> lays out the stack of a new process; \<open>Clone\<close> what a copied page directory shares with its source; \<open>Elf\<close>
  (\<open>kern/kern/elf.c\<close>) that a well-formed executable is loaded into such a directory and started. \<open>Chains\<close> holds the facts on
  linked lists they share. \<open>Ipc\<close> (\<open>kern/kern/ipc/ipc.c\<close>) is shown to be a \<open>post_office\<close> for messages sent with \<open>next\<close> 0, over every
  interleaving of sends, receives and switches, with what a stray \<open>next\<close> and a send in the gap of a receive do;
  \<open>Daemons\<close> (\<open>kern/daemons.c\<close>) shows that a daemon over it answers requests, with such a stray \<open>next\<close>;
  \<open>Signal\<close> (\<open>kern/kern/ipc/signal.c\<close>) keeps signal numbers inside the handler table over every sequence of task
  operations. \<open>Interrupts\<close>, \<open>Init_Tables\<close> and \<open>Syscall\<close> are \<open>kern/kern/isr.c\<close>, \<open>timer.c\<close>, \<open>init_tables.c\<close> and \<open>syscall.c\<close>
  with the fault handlers, what a page fault does to the tasks, and the stubs of user programs.

  \<^bold>\<open>Files.\<close> \<open>Fs\<close> has the types of \<open>kern/include/fs.h\<close> and the lists of \<open>kern/lib/llist.c\<close>. \<open>Ramfs\<close> is \<open>kern/fs/ramfs.c\<close>;
  \<open>Ramfs_Tree\<close> shows that its headers and entries form a tree that grows by creation, \<open>Ramfs_Data\<close> that contents are read
  back. \<open>Vfs\<close> is \<open>kern/fs/fs.c\<close>, over any table of file systems; \<open>Vfs_Paths\<close> states what the search needs of a file system
  (locale \<open>directory_fs\<close>), proves once that the search is a walk in the tree, and interprets it on the memory file
  system; \<open>Vfs_Descriptors\<close> has descriptors, working directory and mounts. \<open>Boot\<close> is the part of \<open>kern/kmain.c\<close> that sets up
  files, as a second interpretation in which two file systems meet, and shows that the keyboard can be opened and read
  after start-up; \<open>Init_Prompt\<close> is the search of the boot command line for the first program. \<open>File_Image\<close> relates a file to
  what seeks and reads bring into memory, and \<open>Ext2\<close> is \<open>kern/fs/ext2.c\<close> on an image in the memory file system.

  \<^bold>\<open>Devices and programs.\<close> \<open>Keyboard\<close> is \<open>kb.c\<close> and the ring buffer of \<open>skio.c\<close> (a \<open>bounded_fifo\<close>), \<open>Console\<close> is \<open>console.c\<close>,
  \<open>Stdio\<close> the formatted output, \<open>Symbols\<close> the table of exported kernel symbols (a \<open>symbol_map\<close>), \<open>Shell\<close> the command line of
  \<open>kern/sys/kshell.c\<close>: reading, editing and cutting a line and calling its command. \<open>Shell_Commands\<close> has the commands on files,
  messages, processes and numbers, over the models of the parts they call; \<open>cat\<close> and \<open>ls\<close> are shown to print their file or
  directory whole, \<open>ps\<close> (in \<open>Daemons\<close>) the queue. \<open>User_Alloc\<close> is the heap of programs in \<open>user/lib/alloc.c\<close>, whose \<open>sbrk\<close> is the
  \<open>signal\<close> of the kernel, \<open>User_Programs\<close> their output and string routines, with \<open>user/hexdump.c\<close> and \<open>user/login.c\<close>, and \<open>Tvi\<close>
  the editor \<open>user/tvi.c\<close>: its state is well formed after any keys, and its screen shows the lines that the keys lead to, while
  they do not lead behind the text. Programs reach \<open>open\<close>, \<open>read\<close>, \<open>write\<close>, \<open>close\<close> and \<open>lstat\<close> through stubs whose numbers are
  right; the stubs behind them reach other calls (\<open>Syscall\<close>). \<open>User_Calls\<close> puts stub, dispatch and file system together:
  \<open>User_Cat\<close> is the program \<open>user/cat.c\<close> over an interface of files and a terminal (\<open>text_files\<close>), interpreted on these calls,
  and \<open>User_Shell\<close> the shell \<open>user/shell.c\<close>, whose commands end in other calls than their names say.

  \<^bold>\<open>Not modelled.\<close> Assembly files and the routines that are assembly (the jumps to user mode and to a signal handler, the moves
  of a stack); the multiboot header checks of \<open>kmain\<close>, which only print; commented-out code (\<open>devfs.c\<close>, \<open>fat.c\<close>, the node
  operations of \<open>ext2.c\<close>, which do not compile); the shell commands that print a table or call a routine without a model,
  and the launch of programs from the kernel's shell; \<open>user/ls.c\<close> and \<open>user/daemon.c\<close>, which rest on stubs that reach other
  calls, and the test programs, which are a few calls;
  \<open>module.c\<close>, a call of \<open>open\<close> and \<open>fexecve\<close>; headers of drivers whose code is not in the repository; \<open>bmap.c\<close>, two empty
  functions; \<open>tools\<close>, a host program that copies files.
\<close>

end
